(* ===== verification/Rist_Prelude.thy ===== *)
theory Rist_Prelude
  imports Main "HOL-Library.Word"
begin

text \<open>
  What every component shares: the machine integers and time types, the result type of
  fallible code with its panics, the interface to the \<open>bytes\<close> crate (the only third-party
  code the wire formats call) with its documented laws as a locale, and the generic facts on
  big-endian words, half-space sequence arithmetic and power-of-two rings.

  Integers are \<open>w word\<close> at the width of the source; \<open>usize\<close> values that count bytes or
  slots are \<open>nat\<close>. Arithmetic is that of the release profile: a plain \<open>+\<close>, \<open>-\<close> or \<open>*\<close>
  that overflows wraps. An \<open>Instant\<close> is the number of nanoseconds since an arbitrary fixed
  origin and a \<open>Duration\<close> a number of nanoseconds, so \<open>Instant::duration_since\<close> and
  \<open>saturating_duration_since\<close> (both saturating at zero) are subtraction on \<open>nat\<close>.
\<close>

unbundle bit_operations_syntax

section \<open>Machine integers, bytes and time\<close>

type_synonym u8 = "8 word"
type_synonym u16 = "16 word"
type_synonym u32 = "32 word"
type_synonym u64 = "64 word"
type_synonym bytes = "u8 list"
type_synonym instant = nat
type_synonym duration = nat

named_theorems wire_simps \<open>evaluation of the big-endian readers and writers\<close>
named_theorems ring_simps \<open>index arithmetic of the power-of-two rings\<close>

section \<open>Errors and results\<close>

text \<open>The error enumeration of \<open>error.rs\<close>, one constructor per variant.\<close>

datatype RistError =
    PacketTooShort nat nat
  | InvalidRtpVersion u8
  | InvalidRtcpType u8
  | InvalidRtcpLength u16 nat
  | InvalidNackFormat u8
  | InvalidPort u16
  | BufferOverflow
  | TunnelError string
  | CryptoError string
  | Other string

text \<open>
  The outcome of a fallible function: \<open>Ok\<close> and \<open>Err\<close> are the two values of Rust's
  \<open>Result\<close>, and \<open>Panic\<close> is the unwinding of a slice index or a buffer read that is out
  of range. Panics are values here so that their absence can be proved.
\<close>

datatype 'a res = Ok 'a | Err RistError | Panic

fun res_bind :: "'a res \<Rightarrow> ('a \<Rightarrow> 'b res) \<Rightarrow> 'b res" where
  "res_bind (Ok x) f = f x"
| "res_bind (Err e) f = Err e"
| "res_bind Panic f = Panic"

text \<open>The slice \<open>&buf[from..to]\<close>: it panics unless \<open>from \<le> to \<le> buf.len()\<close>.\<close>

definition slice_range :: "bytes \<Rightarrow> nat \<Rightarrow> nat \<Rightarrow> bytes res" where
  "slice_range buf from to =
     (if from \<le> to \<and> to \<le> length buf then Ok (take (to - from) (drop from buf)) else Panic)"

text \<open>The slice \<open>&buf[from..]\<close>.\<close>

definition slice_from :: "bytes \<Rightarrow> nat \<Rightarrow> bytes res" where
  "slice_from buf from = (if from \<le> length buf then Ok (drop from buf) else Panic)"

text \<open>The element read \<open>buf[i]\<close>.\<close>

definition byte_at :: "bytes \<Rightarrow> nat \<Rightarrow> u8 res" where
  "byte_at buf i = (if i < length buf then Ok (buf ! i) else Panic)"

lemma slice_range_Ok [simp]:
  "from \<le> to \<Longrightarrow> to \<le> length buf \<Longrightarrow> slice_range buf from to = Ok (take (to - from) (drop from buf))"
  by (simp add: slice_range_def)

lemma slice_from_Ok [simp]: "from \<le> length buf \<Longrightarrow> slice_from buf from = Ok (drop from buf)"
  by (simp add: slice_from_def)

lemma byte_at_Ok [simp]: "i < length buf \<Longrightarrow> byte_at buf i = Ok (buf ! i)"
  by (simp add: byte_at_def)

lemma res_bind_eq_Ok [simp]: "res_bind m f = Ok y \<longleftrightarrow> (\<exists>x. m = Ok x \<and> f x = Ok y)"
  by (cases m) auto

lemma res_bind_eq_Panic [simp]:
  "res_bind m f = Panic \<longleftrightarrow> m = Panic \<or> (\<exists>x. m = Ok x \<and> f x = Panic)"
  by (cases m) auto

section \<open>Big-endian words\<close>

text \<open>\<open>u16::from_be_bytes\<close>, \<open>u32::from_be_bytes\<close> and their inverses \<open>to_be_bytes\<close>.\<close>

definition u16_from_be_bytes :: "u8 \<Rightarrow> u8 \<Rightarrow> u16" where
  "u16_from_be_bytes a b = push_bit 8 (ucast a) OR ucast b"

definition u16_to_be_bytes :: "u16 \<Rightarrow> bytes" where
  "u16_to_be_bytes w = [ucast (drop_bit 8 w), ucast w]"

definition u32_from_be_bytes :: "u8 \<Rightarrow> u8 \<Rightarrow> u8 \<Rightarrow> u8 \<Rightarrow> u32" where
  "u32_from_be_bytes a b c d =
     push_bit 24 (ucast a) OR push_bit 16 (ucast b) OR push_bit 8 (ucast c) OR ucast d"

definition u32_to_be_bytes :: "u32 \<Rightarrow> bytes" where
  "u32_to_be_bytes w =
     [ucast (drop_bit 24 w), ucast (drop_bit 16 w), ucast (drop_bit 8 w), ucast w]"

lemma length_u16_to_be_bytes [simp]: "length (u16_to_be_bytes w) = 2"
  by (simp add: u16_to_be_bytes_def)

lemma length_u32_to_be_bytes [simp]: "length (u32_to_be_bytes w) = 4"
  by (simp add: u32_to_be_bytes_def)

lemma u16_be_roundtrip [simp]:
  "u16_from_be_bytes (ucast (drop_bit 8 w)) (ucast w) = w"
  unfolding u16_from_be_bytes_def
  by (rule bit_word_eqI) (auto simp: bit_simps not_less)

lemma u32_be_roundtrip [simp]:
  fixes w :: u32
  shows "u32_from_be_bytes (ucast (drop_bit 24 w)) (ucast (drop_bit 16 w)) (ucast (drop_bit 8 w)) (ucast w) = w"
    (is "?l = w")
proof (rule bit_word_eqI)
  fix n assume "n < LENGTH(32)"
  then consider "n < 8" | "8 \<le> n" "n < 16" | "16 \<le> n" "n < 24" | "24 \<le> n" "n < 32"
    by fastforce
  then show "bit ?l n = bit w n"
    unfolding u32_from_be_bytes_def by cases (auto simp: bit_simps)
qed

lemma bit_u8_beyond [simp]: "8 \<le> n \<Longrightarrow> \<not> bit (a :: u8) n"
  using bit_imp_le_length [of a n] by auto

lemma bit_u16_beyond [simp]: "16 \<le> n \<Longrightarrow> \<not> bit (a :: u16) n"
  using bit_imp_le_length [of a n] by auto

lemma u16_to_from_be_bytes [simp]:
  "u16_to_be_bytes (u16_from_be_bytes a b) = [a, b]"
  unfolding u16_from_be_bytes_def u16_to_be_bytes_def
  by (auto intro!: bit_word_eqI simp: bit_simps)

lemma u32_to_from_be_bytes [simp]:
  "u32_to_be_bytes (u32_from_be_bytes a b c d) = [a, b, c, d]"
  unfolding u32_from_be_bytes_def u32_to_be_bytes_def
  by (auto intro!: bit_word_eqI simp: bit_simps)

section \<open>The interface to the bytes crate\<close>

text \<open>
  \<open>Buf\<close> and \<open>BufMut\<close> of the third-party \<open>bytes\<close> crate are parameters of the wire
  formats: a record with the operations the sources call. A reader takes the rest of the
  buffer and yields a value and what follows it, \<open>None\<close> where the crate panics. A writer
  takes the bytes written so far and yields the extended buffer. \<open>Bytes\<close>, \<open>BytesMut\<close> and
  \<open>&[u8]\<close> values are their contents.
\<close>

record bytes_api =
  get_u8 :: "bytes \<Rightarrow> (u8 \<times> bytes) option"
  get_u16 :: "bytes \<Rightarrow> (u16 \<times> bytes) option"
  get_u32 :: "bytes \<Rightarrow> (u32 \<times> bytes) option"
  copy_to_slice :: "nat \<Rightarrow> bytes \<Rightarrow> (bytes \<times> bytes) option"
  put_u8 :: "bytes \<Rightarrow> u8 \<Rightarrow> bytes"
  put_u16 :: "bytes \<Rightarrow> u16 \<Rightarrow> bytes"
  put_u32 :: "bytes \<Rightarrow> u32 \<Rightarrow> bytes"
  put_slice :: "bytes \<Rightarrow> bytes \<Rightarrow> bytes"
  extend_from_slice :: "bytes \<Rightarrow> bytes \<Rightarrow> bytes"

text \<open>A read in the source: bind the value and go on with the advanced cursor, or unwind.\<close>

definition reading :: "('a \<times> bytes) option \<Rightarrow> ('a \<Rightarrow> bytes \<Rightarrow> 'b res) \<Rightarrow> 'b res" where
  "reading m k = (case m of None \<Rightarrow> Panic | Some (v, r) \<Rightarrow> k v r)"

text \<open>
  The laws the crate documents: integers are big-endian, a read advances the cursor past
  what it read and panics when too few bytes remain, a write appends.
\<close>

locale bytes_crate =
  fixes B :: bytes_api
  assumes get_u8_law: "get_u8 B r = (case r of a # s \<Rightarrow> Some (a, s) | _ \<Rightarrow> None)"
    and get_u16_law:
      "get_u16 B r = (case r of a # b # s \<Rightarrow> Some (u16_from_be_bytes a b, s) | _ \<Rightarrow> None)"
    and get_u32_law: "get_u32 B r =
      (case r of a # b # c # d # s \<Rightarrow> Some (u32_from_be_bytes a b c d, s) | _ \<Rightarrow> None)"
    and copy_to_slice_law: "copy_to_slice B n r =
      (if n \<le> length r then Some (take n r, drop n r) else None)"
    and put_u8_law: "put_u8 B buf a = buf @ [a]"
    and put_u16_law: "put_u16 B buf w = buf @ u16_to_be_bytes w"
    and put_u32_law: "put_u32 B buf d = buf @ u32_to_be_bytes d"
    and put_slice_law: "put_slice B buf s = buf @ s"
    and extend_from_slice_law: "extend_from_slice B buf s = buf @ s"
begin

lemma read_u8: "r \<noteq> [] \<Longrightarrow> reading (get_u8 B r) k = k (r ! 0) (drop 1 r)"
  by (auto simp: reading_def get_u8_law neq_Nil_conv)

lemma read_u16:
  "2 \<le> length r \<Longrightarrow> reading (get_u16 B r) k = k (u16_from_be_bytes (r ! 0) (r ! 1)) (drop 2 r)"
  by (auto simp: reading_def get_u16_law Suc_le_length_iff numeral_eq_Suc)

lemma read_u32:
  "4 \<le> length r \<Longrightarrow> reading (get_u32 B r) k =
     k (u32_from_be_bytes (r ! 0) (r ! 1) (r ! 2) (r ! 3)) (drop 4 r)"
  by (auto simp: reading_def get_u32_law Suc_le_length_iff numeral_eq_Suc)

lemma read_slice:
  "n \<le> length r \<Longrightarrow> reading (copy_to_slice B n r) k = k (take n r) (drop n r)"
  by (simp add: reading_def copy_to_slice_law)

lemma reads_panic:
  "reading (get_u8 B []) k = Panic"
  "length r < 2 \<Longrightarrow> reading (get_u16 B r) k' = Panic"
  "length r < 4 \<Longrightarrow> reading (get_u32 B r) k'' = Panic"
  by (auto simp: reading_def get_u8_law get_u16_law get_u32_law split: list.splits)

lemmas reads = read_u8 read_u16 read_u32 read_slice

text \<open>Reading back what was written in front of any rest.\<close>

lemma read_back:
  "reading (get_u8 B (a # r)) k1 = k1 a r"
  "reading (get_u16 B (u16_to_be_bytes w @ r)) k2 = k2 w r"
  "reading (get_u32 B (u32_to_be_bytes d @ r)) k3 = k3 d r"
  by (simp_all add: reading_def get_u8_law get_u16_law get_u32_law
      u16_to_be_bytes_def u32_to_be_bytes_def)

lemmas writes = put_u8_law put_u16_law put_u32_law put_slice_law extend_from_slice_law

end

text \<open>
  The operations a big-endian byte buffer has, written out. They satisfy the laws, so the
  laws are consistent; and the laws leave no freedom, so a fact about any implementation of
  the interface is a fact about this one.
\<close>

definition be_bytes_api :: bytes_api where
  "be_bytes_api = \<lparr>
     get_u8 = (\<lambda>r. case r of a # s \<Rightarrow> Some (a, s) | _ \<Rightarrow> None),
     get_u16 = (\<lambda>r. case r of a # b # s \<Rightarrow> Some (u16_from_be_bytes a b, s) | _ \<Rightarrow> None),
     get_u32 = (\<lambda>r. case r of a # b # c # d # s \<Rightarrow> Some (u32_from_be_bytes a b c d, s) | _ \<Rightarrow> None),
     copy_to_slice = (\<lambda>n r. if n \<le> length r then Some (take n r, drop n r) else None),
     put_u8 = (\<lambda>buf a. buf @ [a]),
     put_u16 = (\<lambda>buf w. buf @ u16_to_be_bytes w),
     put_u32 = (\<lambda>buf d. buf @ u32_to_be_bytes d),
     put_slice = (\<lambda>buf s. buf @ s),
     extend_from_slice = (\<lambda>buf s. buf @ s)\<rparr>"

interpretation be: bytes_crate be_bytes_api
  by unfold_locales (simp_all add: be_bytes_api_def)

section \<open>Half-space arithmetic on 16-bit sequence numbers\<close>

text \<open>
  The sources compare sequence numbers by \<open>b.wrapping_sub(a) as i16\<close>, here \<open>sint (b - a)\<close>.
\<close>

lemma unat_u16_lt [simp]: "unat (w :: u16) < 65536"
  using unsigned_less [of w, where 'a = nat] by simp

lemma sint_u16: "sint (w :: u16) = (if unat w < 32768 then int (unat w) else int (unat w) - 65536)"
proof -
  have "sint w = (int (unat w) + 32768) mod 65536 - 32768"
    using int_word_sint [of "uint w", where 'a = 16] by simp
  moreover have "(int n + 32768) mod 65536 - 32768 = (if n < 32768 then int n else int n - 65536)"
    if "n < 65536" for n
  proof (cases "n < 32768")
    case False
    then have "int n + 32768 = (int n - 32768) + 65536" by simp
    then have "(int n + 32768) mod 65536 = (int n - 32768) mod 65536" by (simp only: mod_add_self2)
    with False that show ?thesis by simp
  qed simp
  ultimately show ?thesis using unat_u16_lt [of w] by presburger
qed

lemma sint_u16_nonneg_iff: "0 \<le> sint (w :: u16) \<longleftrightarrow> unat w < 32768"
  unfolding sint_u16 using unat_u16_lt [of w] by presburger

lemma sint_u16_nonneg: "unat (w :: u16) < 32768 \<Longrightarrow> sint w = int (unat w)"
  unfolding sint_u16 by presburger

lemma sint_u16_pos_iff: "0 < sint (w :: u16) \<longleftrightarrow> 0 < unat w \<and> unat w < 32768"
  unfolding sint_u16 using unat_u16_lt [of w] by presburger

lemma sint_u16_neg_iff: "sint (w :: u16) < 0 \<longleftrightarrow> 32768 \<le> unat w"
  unfolding sint_u16 using unat_u16_lt [of w] by presburger

lemma unat_of_nat_u16 [simp]: "n < 65536 \<Longrightarrow> unat (of_nat n :: u16) = n"
  by (simp add: unat_of_nat)

lemma u16_eq_plus_offset: "(s :: u16) = b + of_nat (unat (s - b))"
  by simp

section \<open>Power-of-two rings\<close>

text \<open>\<open>usize::next_power_of_two\<close> (with \<open>0.next_power_of_two() = 1\<close>).\<close>

fun next_power_of_two :: "nat \<Rightarrow> nat" where
  "next_power_of_two n = (if n \<le> 1 then 1 else 2 * next_power_of_two ((n + 1) div 2))"

declare next_power_of_two.simps [simp del]

text \<open>The slot index \<open>(seq as usize) & (capacity - 1)\<close>.\<close>

definition ring_index :: "nat \<Rightarrow> u16 \<Rightarrow> nat" where
  "ring_index cap seq = unat seq AND (cap - 1)"

definition is_pow2 :: "nat \<Rightarrow> bool" where
  "is_pow2 n \<longleftrightarrow> (\<exists>k. n = 2 ^ k)"

lemma next_power_of_two_is_pow2 [simp, intro]: "is_pow2 (next_power_of_two n)"
proof (induction n rule: next_power_of_two.induct)
  case (1 n)
  show ?case
  proof (cases "n \<le> 1")
    case True
    then show ?thesis by (auto simp: is_pow2_def next_power_of_two.simps intro: exI [of _ 0])
  next
    case False
    with 1 obtain k where "next_power_of_two ((n + 1) div 2) = 2 ^ k" by (auto simp: is_pow2_def)
    with False show ?thesis
      by (auto simp: is_pow2_def next_power_of_two.simps [of n] intro: exI [of _ "Suc k"])
  qed
qed

lemma next_power_of_two_ge: "n \<le> next_power_of_two n"
proof (induction n rule: next_power_of_two.induct)
  case (1 n)
  then show ?case by (cases "n \<le> 1") (auto simp: next_power_of_two.simps [of n])
qed

lemma next_power_of_two_le_pow: "n \<le> 2 ^ k \<Longrightarrow> next_power_of_two n \<le> 2 ^ k"
proof (induction n arbitrary: k rule: next_power_of_two.induct)
  case (1 n)
  show ?case
  proof (cases "n \<le> 1")
    case True
    then show ?thesis by (simp add: next_power_of_two.simps [of n])
  next
    case False
    with "1.prems" obtain j where k: "k = Suc j" by (cases k) auto
    with "1.prems" have "(n + 1) div 2 \<le> 2 ^ j" by simp
    with "1.IH" [OF False this] k False show ?thesis by (simp add: next_power_of_two.simps [of n])
  qed
qed

lemma is_pow2_odd: "is_pow2 m \<Longrightarrow> odd m \<Longrightarrow> m = 1"
  by (auto simp: is_pow2_def)

lemma next_power_of_two_least: "1 \<le> n \<Longrightarrow> next_power_of_two n < 2 * n"
proof (induction n rule: next_power_of_two.induct)
  case (1 n)
  show ?case
  proof (cases "n \<le> 1")
    case True
    with "1.prems" show ?thesis by (simp add: next_power_of_two.simps)
  next
    case False
    then have "1 \<le> (n + 1) div 2" by simp
    with 1 False have "next_power_of_two ((n + 1) div 2) < 2 * ((n + 1) div 2)" by blast
    moreover from False have "next_power_of_two n = 2 * next_power_of_two ((n + 1) div 2)"
      by (simp add: next_power_of_two.simps [of n])
    moreover have "odd (next_power_of_two ((n + 1) div 2)) \<Longrightarrow> next_power_of_two ((n + 1) div 2) = 1"
      by (rule is_pow2_odd) blast
    ultimately show ?thesis using False by presburger
  qed
qed

lemma is_pow2_pos: "is_pow2 n \<Longrightarrow> 0 < n"
  by (auto simp: is_pow2_def)

lemma next_power_of_two_pos [simp]: "0 < next_power_of_two n"
  by (rule is_pow2_pos) blast

lemma ring_index_mod [ring_simps]: "is_pow2 cap \<Longrightarrow> ring_index cap seq = unat seq mod cap"
  unfolding ring_index_def is_pow2_def
  by (metis mask_eq_exp_minus_1 take_bit_eq_mask take_bit_eq_mod)

lemma ring_index_less [simp]: "is_pow2 cap \<Longrightarrow> ring_index cap seq < cap"
  by (simp add: ring_index_mod is_pow2_pos)

text \<open>Offsets from a base that fit the ring occupy distinct slots.\<close>

lemma is_pow2_dvd: "is_pow2 cap \<Longrightarrow> cap \<le> 65536 \<Longrightarrow> cap dvd 65536"
proof -
  assume "is_pow2 cap" "cap \<le> 65536"
  then obtain k where k: "cap = 2 ^ k" "(2::nat) ^ k \<le> 2 ^ 16" by (auto simp: is_pow2_def)
  then have "k \<le> 16" using power_le_imp_le_exp [of "2::nat" k 16] by simp
  then have "(2::nat) ^ k dvd 2 ^ 16" by (rule le_imp_power_dvd)
  with k show ?thesis by simp
qed

lemma ring_index_add:
  assumes "is_pow2 cap" "cap \<le> 65536"
  shows "ring_index cap (b + of_nat i) = (unat b + i) mod cap"
proof -
  have "unat (b + of_nat i) = (unat b + i) mod 65536"
    by (simp add: unat_word_ariths unat_of_nat mod_simps)
  with assms show ?thesis
    by (simp add: ring_index_mod is_pow2_dvd mod_mod_cancel)
qed

lemma mod_add_inj:
  fixes c i j m :: nat
  assumes "(c + i) mod m = (c + j) mod m" "i < m" "j < m"
  shows "i = j"
proof -
  have "i = j" if eq: "(c + i) mod m = (c + j) mod m" and "i \<le> j" "j < m" for i j
  proof (rule ccontr)
    assume "i \<noteq> j"
    with that have "m dvd j - i" "0 < j - i" "j - i < m"
      using mod_eq_dvd_iff_nat [of "c + i" "c + j" m] by auto
    then show False by (auto dest: nat_dvd_not_less)
  qed
  with assms show ?thesis by (metis nat_le_linear)
qed

lemma ring_index_inj:
  assumes "is_pow2 cap" "cap \<le> 65536" "i < cap" "j < cap"
  shows "ring_index cap (b + of_nat i) = ring_index cap (b + of_nat j) \<longleftrightarrow> i = j"
proof
  assume "ring_index cap (b + of_nat i) = ring_index cap (b + of_nat j)"
  then have "(unat b + i) mod cap = (unat b + j) mod cap"
    using assms by (simp add: ring_index_add)
  with assms show "i = j" by (blast dest: mod_add_inj)
qed simp

lemma ring_index_near:
  assumes "is_pow2 cap" "0 < unat (k - k' :: u16)" "unat (k - k') < cap"
  shows "ring_index cap k \<noteq> ring_index cap k'"
proof (cases "cap \<le> 65536")
  case True
  have "ring_index cap (k' + of_nat (unat (k - k'))) = ring_index cap (k' + of_nat 0)
        \<longleftrightarrow> unat (k - k') = 0"
    using assms True by (intro ring_index_inj) auto
  with assms show ?thesis by (simp flip: u16_eq_plus_offset)
next
  case False
  then have "ring_index cap w = unat w" for w
    using assms unat_u16_lt [of w] by (simp add: ring_index_mod del: unat_u16_lt)
  moreover have "unat k \<noteq> unat k'" using assms by (auto dest: unsigned_word_eqI)
  ultimately show ?thesis by simp
qed

end
