(* ===== verification/Rist_Guard.thy ===== *)
theory Rist_Guard
  imports Rist_Prelude
begin

text \<open>
  Source admission and the per-datagram work budget of \<open>guard.rs\<close>, and the derivation of the
  RTCP address from \<open>channel.rs\<close>. A socket address is that of the standard library: an IPv4
  address and port, or an IPv6 address and port with flow information and scope.
\<close>

unbundle bit_operations_syntax

section \<open>Addresses\<close>

datatype IpAddr = IpV4 u32 | IpV6 "128 word"

datatype SocketAddr =
    SocketV4 u32 u16
  | SocketV6 "128 word" u16 u32 u32

fun sock_ip :: "SocketAddr \<Rightarrow> IpAddr" where
  "sock_ip (SocketV4 a p) = IpV4 a"
| "sock_ip (SocketV6 a p f s) = IpV6 a"

fun sock_port :: "SocketAddr \<Rightarrow> u16" where
  "sock_port (SocketV4 a p) = p"
| "sock_port (SocketV6 a p f s) = p"

text \<open>\<open>SocketAddr::new\<close>: flow information and scope are zero.\<close>

fun socket_addr_new :: "IpAddr \<Rightarrow> u16 \<Rightarrow> SocketAddr" where
  "socket_addr_new (IpV4 a) p = SocketV4 a p"
| "socket_addr_new (IpV6 a) p = SocketV6 a p 0 0"

definition rtcp_addr_for :: "SocketAddr \<Rightarrow> SocketAddr" where
  "rtcp_addr_for rtp_addr = socket_addr_new (sock_ip rtp_addr) (sock_port rtp_addr + 1)"

section \<open>Peer hold-down\<close>

definition PEER_TAKEOVER_GRACE :: duration where [simp]:
  "PEER_TAKEOVER_GRACE = 12000000000"

definition peer_is_protected :: "instant option \<Rightarrow> instant \<Rightarrow> bool" where
  "peer_is_protected last_live now \<longleftrightarrow>
     (case last_live of None \<Rightarrow> False | Some t \<Rightarrow> now - t < PEER_TAKEOVER_GRACE)"

definition peer_move_allowed :: "SocketAddr \<Rightarrow> SocketAddr \<Rightarrow> instant option \<Rightarrow> instant \<Rightarrow> bool" where
  "peer_move_allowed from current last_live now \<longleftrightarrow>
     sock_ip from = sock_ip current \<or> \<not> peer_is_protected last_live now"

definition source_allowed ::
  "SocketAddr \<Rightarrow> IpAddr option \<Rightarrow> SocketAddr option \<Rightarrow> instant option \<Rightarrow> instant \<Rightarrow> bool" where
  "source_allowed from pinned_ip current last_live now =
     (if (case pinned_ip of Some ip \<Rightarrow> sock_ip from \<noteq> ip | None \<Rightarrow> False) then False
      else (case current of
              None \<Rightarrow> True
            | Some cur \<Rightarrow> peer_move_allowed from cur last_live now))"

definition nack_targets_us :: "u32 \<Rightarrow> u32 \<Rightarrow> bool" where
  "nack_targets_us media_ssrc our_ssrc \<longleftrightarrow> media_ssrc = 0 \<or> media_ssrc AND NOT 1 = our_ssrc AND NOT 1"

section \<open>Work budget\<close>

record NackWorkBudget =
  scan :: u32
  retx :: u32

definition MIN_RETX :: u32 where [simp]:
  "MIN_RETX = 512"

definition MAX_RETX :: u32 where [simp]:
  "MAX_RETX = 8192"

text \<open>\<open>u32::saturating_mul\<close>.\<close>

definition saturating_mul :: "u32 \<Rightarrow> u32 \<Rightarrow> u32" where
  "saturating_mul a b = (if unat a * unat b < 2 ^ 32 then a * b else - 1)"

definition for_capacity :: "nat \<Rightarrow> NackWorkBudget" where
  "for_capacity retransmit_capacity =
     (let r = max MIN_RETX (min MAX_RETX (of_nat (min retransmit_capacity (2 ^ 32 - 1))))
      in \<lparr>scan = saturating_mul r 4, retx = r\<rparr>)"

definition charge_scan :: "NackWorkBudget \<Rightarrow> NackWorkBudget \<times> bool" where
  "charge_scan b = (if scan b = 0 then (b, False) else (b\<lparr>scan := scan b - 1\<rparr>, True))"

definition charge_retx :: "NackWorkBudget \<Rightarrow> NackWorkBudget \<times> bool" where
  "charge_retx b = (if retx b = 0 then (b, False) else (b\<lparr>retx := retx b - 1\<rparr>, True))"

section \<open>What the guards promise\<close>

text \<open>A live slot is held to its address; an admitted source fits the pin and, while live, the slot.\<close>

lemma live_slot_held:
  "peer_is_protected live now \<Longrightarrow> peer_move_allowed from cur live now \<longleftrightarrow> sock_ip from = sock_ip cur"
  by (simp add: peer_move_allowed_def)

lemma source_allowed_iff:
  "source_allowed from pin cur live now \<longleftrightarrow>
     (\<forall>ip. pin = Some ip \<longrightarrow> sock_ip from = ip)
     \<and> (\<forall>a. cur = Some a \<longrightarrow> peer_is_protected live now \<longrightarrow> sock_ip from = sock_ip a)"
  by (auto simp: source_allowed_def peer_move_allowed_def split: option.splits)

lemma clear_lsb_or_1: "(s OR 1) AND NOT 1 = s AND NOT (1 :: u32)"
  by (rule bit_word_eqI) (auto simp: bit_simps)

lemma nack_targets_flagged: "nack_targets_us (s OR 1) s"
  unfolding nack_targets_us_def clear_lsb_or_1 by simp

lemma unat_for_capacity:
  "unat (retx (for_capacity c)) = max 512 (min 8192 c)" "unat (scan (for_capacity c)) = 4 * max 512 (min 8192 c)"
proof -
  have m: "unat (of_nat (min c (2 ^ 32 - 1)) :: u32) = min c (2 ^ 32 - 1)" by (simp add: unat_of_nat)
  have u: "unat (max (512 :: u32) (min 8192 w)) = max 512 (min 8192 (unat w))" for w
    by (auto simp: max_def min_def word_le_nat_alt)
  have r: "unat (retx (for_capacity c)) = max 512 (min 8192 (min c (2 ^ 32 - 1)))"
    by (simp only: for_capacity_def Let_def NackWorkBudget.simps MIN_RETX_def MAX_RETX_def u m)
  then show "unat (retx (for_capacity c)) = max 512 (min 8192 c)" by (simp add: min_def)
  then have "unat (retx (for_capacity c)) * 4 < 2 ^ 32" by (simp add: max_def min_def)
  then have "unat (scan (for_capacity c)) = unat (retx (for_capacity c)) * 4"
    by (simp add: for_capacity_def Let_def saturating_mul_def unat_word_ariths)
  with \<open>unat (retx (for_capacity c)) = max 512 (min 8192 c)\<close>
  show "unat (scan (for_capacity c)) = 4 * max 512 (min 8192 c)" by simp
qed

text \<open>Charging takes one unit off exactly one of the two allowances, or reports that it is spent.\<close>

lemma charge_scan_eq:
  "charge_scan b = (b', ok) \<Longrightarrow>
    (ok \<longleftrightarrow> scan b \<noteq> 0) \<and> unat (scan b') = unat (scan b) - 1 \<and> retx b' = retx b"
  by (auto simp: charge_scan_def unat_minus_one split: if_splits)

lemma charge_retx_eq:
  "charge_retx b = (b', ok) \<Longrightarrow>
    (ok \<longleftrightarrow> retx b \<noteq> 0) \<and> unat (retx b') = unat (retx b) - 1 \<and> scan b' = scan b"
  by (auto simp: charge_retx_def unat_minus_one split: if_splits)

end
