(* ===== verification/Rist_F64.thy ===== *)
theory Rist_F64
  imports Complex_Main Rist_Prelude
begin

text \<open>
  The double-precision arithmetic the RTCP state uses, on rational numbers: every operation of
  the source is the exact operation followed by \<open>f64_round\<close>, rounding to the nearest number with
  a 53-bit significand, ties to even. The values here lie between nanoseconds in seconds and the
  range of \<open>u64\<close>, so that the overflow and the subnormal range of the format never arise and are
  left out. The casts from \<open>f64\<close> to an integer truncate and saturate, as Rust's \<open>as\<close> does.
\<close>

unbundle bit_operations_syntax

section \<open>Rounding\<close>

text \<open>The number of binary digits of a natural number.\<close>

fun bit_length :: "nat \<Rightarrow> nat" where
  "bit_length n = (if n = 0 then 0 else bit_length (n div 2) + 1)"

declare bit_length.simps [simp del]

text \<open>The exponent \<open>e\<close> with \<open>2^e \<le> x < 2^(e+1)\<close> for a positive \<open>x\<close>.\<close>

definition exponent :: "rat \<Rightarrow> int" where
  "exponent x =
     (case quotient_of x of (p, q) \<Rightarrow>
        let e = int (bit_length (nat p)) - int (bit_length (nat q))
        in if 2 powi e \<le> x then e else e - 1)"

definition round_even :: "rat \<Rightarrow> int" where
  "round_even x =
     (let f = \<lfloor>x\<rfloor>; d = x - of_int f
      in if d < 1 / 2 then f else if 1 / 2 < d then f + 1 else if even f then f else f + 1)"

definition f64_round :: "rat \<Rightarrow> rat" where
  "f64_round x =
     (if x = 0 then 0
      else let e = exponent \<bar>x\<bar> - 52
           in of_int (round_even (x / 2 powi e)) * 2 powi e)"

section \<open>Operations\<close>

definition f64_of_nat :: "nat \<Rightarrow> rat" where
  "f64_of_nat n = f64_round (of_nat n)"

definition f64_add :: "rat \<Rightarrow> rat \<Rightarrow> rat" where
  "f64_add x y = f64_round (x + y)"

definition f64_sub :: "rat \<Rightarrow> rat \<Rightarrow> rat" where
  "f64_sub x y = f64_round (x - y)"

definition f64_mul :: "rat \<Rightarrow> rat \<Rightarrow> rat" where
  "f64_mul x y = f64_round (x * y)"

definition f64_div :: "rat \<Rightarrow> rat \<Rightarrow> rat" where
  "f64_div x y = f64_round (x / y)"

text \<open>\<open>x as u8\<close>, \<open>x as u32\<close> and \<open>x as u64\<close>, with the largest value of the type.\<close>

definition f64_to_nat :: "nat \<Rightarrow> rat \<Rightarrow> nat" where
  "f64_to_nat limit x = min limit (nat \<lfloor>x\<rfloor>)"

text \<open>\<open>Duration::as_secs_f64\<close>.\<close>

definition as_secs_f64 :: "duration \<Rightarrow> rat" where
  "as_secs_f64 d =
     f64_add (f64_of_nat (d div 1000000000)) (f64_div (f64_of_nat (d mod 1000000000)) (f64_of_nat 1000000000))"

section \<open>Integers are exact\<close>

lemma bit_length_1: "bit_length (Suc 0) = 1"
  by (simp add: bit_length.simps [of "Suc 0"] bit_length.simps [of 0])

lemma bit_length_bounds:
  "0 < n \<Longrightarrow> 2 ^ (bit_length n - 1) \<le> n \<and> n < 2 ^ bit_length n \<and> 0 < bit_length n"
proof (induction n rule: bit_length.induct)
  case (1 n)
  show ?case
  proof (cases "n div 2 = 0")
    case True
    with "1.prems" have "n = 1" by simp
    then show ?thesis by (simp add: bit_length_1)
  next
    case False
    with 1 have IH: "2 ^ (bit_length (n div 2) - 1) \<le> n div 2" "n div 2 < 2 ^ bit_length (n div 2)"
      "0 < bit_length (n div 2)" by auto
    have "bit_length n = bit_length (n div 2) + 1" using "1.prems" by (simp add: bit_length.simps [of n])
    moreover obtain k where "bit_length (n div 2) = Suc k" using IH(3) by (cases "bit_length (n div 2)") auto
    ultimately show ?thesis using IH by auto
  qed
qed

lemma exponent_of_nat_less:
  assumes "0 < n" "n < 2 ^ 53"
  shows "exponent (of_nat n) \<le> 52"
proof -
  have "bit_length n \<le> 53"
  proof (rule ccontr)
    assume "\<not> bit_length n \<le> 53"
    then have "(2 :: nat) ^ 53 \<le> 2 ^ (bit_length n - 1)" by (intro power_increasing) simp_all
    with bit_length_bounds [OF assms(1)] assms(2) show False by linarith
  qed
  then show ?thesis by (simp add: exponent_def bit_length_1 Let_def)
qed

lemma round_even_of_int [simp]: "round_even (of_int z) = z"
  by (simp add: round_even_def)

text \<open>Every integer of at most 53 bits is a double.\<close>

lemma f64_round_of_nat: "n < 2 ^ 53 \<Longrightarrow> f64_round (of_nat n) = of_nat n"
proof (cases "n = 0")
  case False
  assume n: "n < 2 ^ 53"
  define e where "e = nat (52 - exponent (of_nat n))"
  have e: "exponent (of_nat n) - 52 = - int e" using exponent_of_nat_less [of n] n False by (simp add: e_def)
  have m: "of_nat n / 2 powi (- int e) = (of_int (int (n * 2 ^ e)) :: rat)"
    by (simp add: power_int_minus field_simps)
  have "f64_round (of_nat n) = of_int (round_even (of_nat n / 2 powi (exponent (of_nat n) - 52)))
      * 2 powi (exponent (of_nat n) - 52)"
    using False by (simp add: f64_round_def Let_def)
  also have "\<dots> = of_int (int (n * 2 ^ e)) * 2 powi (- int e)" unfolding e m by (simp only: round_even_of_int)
  also have "\<dots> = of_nat n" by (simp add: power_int_minus)
  finally show ?thesis .
qed (simp add: f64_round_def)

lemma f64_of_nat_exact: "n < 2 ^ 53 \<Longrightarrow> f64_of_nat n = of_nat n"
  by (simp add: f64_of_nat_def f64_round_of_nat)

end
