(* ===== verification/Rist_Config.thy ===== *)
theory Rist_Config
  imports Rist_Guard Rist_F64
begin

text \<open>
  The socket configuration (\<open>config.rs\<close>) and the shared counters (\<open>stats.rs\<close>) of the transport
  crate. The counters are 64-bit atomics that wrap; a handler's updates appear in the order it
  makes them.
\<close>

record RistSocketConfig =
  local_addr :: SocketAddr
  remote_addr :: "SocketAddr option"
  buffer_size :: duration
  max_nack_retries :: u32
  rtcp_interval :: duration
  cfg_cname :: "bytes option"
  retransmit_buffer_capacity :: nat
  rtt_echo_enabled :: bool

text \<open>\<open>0.0.0.0:5000\<close>, one second of buffer, ten retries, reports every 100 ms.\<close>

definition config_default :: RistSocketConfig where
  "config_default = \<lparr>local_addr = SocketV4 0 5000, remote_addr = None, buffer_size = 1000000000,
     max_nack_retries = 10, rtcp_interval = 100000000, cfg_cname = None,
     retransmit_buffer_capacity = 2048, rtt_echo_enabled = True\<rparr>"

record RistConnStats =
  st_packets_sent :: u64
  st_bytes_sent :: u64
  st_packets_retransmitted :: u64
  st_nacks_received :: u64
  st_packets_received :: u64
  st_bytes_received :: u64
  st_packets_lost :: u64
  st_packets_recovered :: u64
  st_nacks_sent :: u64
  st_duplicates :: u64
  st_reorder_drops :: u64
  st_retransmits_received :: u64
  st_rtt_us :: u64
  st_jitter_us :: u64

definition stats_new :: RistConnStats where
  "stats_new = \<lparr>st_packets_sent = 0, st_bytes_sent = 0, st_packets_retransmitted = 0,
     st_nacks_received = 0, st_packets_received = 0, st_bytes_received = 0, st_packets_lost = 0,
     st_packets_recovered = 0, st_nacks_sent = 0, st_duplicates = 0, st_reorder_drops = 0,
     st_retransmits_received = 0, st_rtt_us = 0, st_jitter_us = 0\<rparr>"

text \<open>
  The snapshot for consumers loads the counters one after the other while the tasks go on; \<open>st i\<close> is
  their state at the \<open>i\<close>-th load.
\<close>

record RistConnStatsSnapshot =
  sn_packets_sent :: u64
  sn_bytes_sent :: u64
  sn_packets_retransmitted :: u64
  sn_nacks_received :: u64
  sn_packets_received :: u64
  sn_bytes_received :: u64
  sn_packets_lost :: u64
  sn_packets_recovered :: u64
  sn_nacks_sent :: u64
  sn_duplicates :: u64
  sn_reorder_drops :: u64
  sn_retransmits_received :: u64
  sn_rtt_us :: u64
  sn_jitter_us :: u64

definition snapshot :: "(nat \<Rightarrow> RistConnStats) \<Rightarrow> RistConnStatsSnapshot" where
  "snapshot st =
     \<lparr>sn_packets_sent = st_packets_sent (st 0), sn_bytes_sent = st_bytes_sent (st 1),
      sn_packets_retransmitted = st_packets_retransmitted (st 2), sn_nacks_received = st_nacks_received (st 3),
      sn_packets_received = st_packets_received (st 4), sn_bytes_received = st_bytes_received (st 5),
      sn_packets_lost = st_packets_lost (st 6), sn_packets_recovered = st_packets_recovered (st 7),
      sn_nacks_sent = st_nacks_sent (st 8), sn_duplicates = st_duplicates (st 9),
      sn_reorder_drops = st_reorder_drops (st 10), sn_retransmits_received = st_retransmits_received (st 11),
      sn_rtt_us = st_rtt_us (st 12), sn_jitter_us = st_jitter_us (st 13)\<rparr>"

definition rtt_ms :: "RistConnStatsSnapshot \<Rightarrow> rat" where
  "rtt_ms sn = f64_div (f64_of_nat (unat (sn_rtt_us sn))) (f64_of_nat 1000)"

end
