(* ===== verification/Rist_Seq.thy ===== *)
theory Rist_Seq
  imports Rist_Prelude
begin

text \<open>
  The 16-bit RTP sequence number of \<open>packet/seq.rs\<close> with its half-space comparison, and the
  32-bit extended sequence number of \<open>packet/rtp_ext.rs\<close>. The lemmas relate the comparison to
  distances around the circle, show where it is an order and where it is not, and record what
  the \<open>Ord\<close> instance of the source computes.
\<close>

unbundle bit_operations_syntax

section \<open>SeqNo\<close>

datatype SeqNo = SeqNo (seq_val: u16)

datatype ordering = Less | Equal | Greater

text \<open>The signed distance from the first to the second argument, an \<open>i32\<close> in the source.\<close>

fun seq_diff :: "SeqNo \<Rightarrow> SeqNo \<Rightarrow> int" where
  "seq_diff (SeqNo a) (SeqNo b) = sint (b - a)"

definition precedes :: "SeqNo \<Rightarrow> SeqNo \<Rightarrow> bool" where
  "precedes s t \<longleftrightarrow> 0 < seq_diff s t"

fun seq_next :: "SeqNo \<Rightarrow> SeqNo" where
  "seq_next (SeqNo a) = SeqNo (a + 1)"

fun seq_add :: "SeqNo \<Rightarrow> u16 \<Rightarrow> SeqNo" where
  "seq_add (SeqNo a) n = SeqNo (a + n)"

text \<open>\<open>Ord::cmp\<close>, and the comparison operators \<open>PartialOrd\<close> derives from it.\<close>

definition int_cmp :: "int \<Rightarrow> int \<Rightarrow> ordering" where
  "int_cmp x y = (if x < y then Less else if x = y then Equal else Greater)"

definition seq_cmp :: "SeqNo \<Rightarrow> SeqNo \<Rightarrow> ordering" where
  "seq_cmp s t = (let d = seq_diff s t in int_cmp d 0)"

instantiation SeqNo :: ord
begin

definition less_SeqNo :: "SeqNo \<Rightarrow> SeqNo \<Rightarrow> bool" where
  "s < t \<longleftrightarrow> seq_cmp s t = Less"

definition less_eq_SeqNo :: "SeqNo \<Rightarrow> SeqNo \<Rightarrow> bool" where
  "s \<le> t \<longleftrightarrow> seq_cmp s t \<noteq> Greater"

instance ..

end

section \<open>Extended sequence numbers\<close>

record ExtendedSequenceNumber =
  seq_hi :: u16

definition full_seq :: "ExtendedSequenceNumber \<Rightarrow> u16 \<Rightarrow> u32" where
  "full_seq e rtp_seq = push_bit 16 (ucast (seq_hi e)) OR ucast rtp_seq"

section \<open>Distances around the circle\<close>

lemma seq_diff_range: "- 32768 \<le> seq_diff s t \<and> seq_diff s t < 32768"
  using sint_greater_eq [of "seq_val t - seq_val s"] sint_less [of "seq_val t - seq_val s"]
  by (cases s; cases t) simp

lemma seq_diff_eq_0_iff [simp]: "seq_diff s t = 0 \<longleftrightarrow> s = t"
  by (cases s; cases t) (auto simp: signed_eq_0_iff)

lemma seq_diff_add: "seq_diff s (seq_add s n) = sint n"
  by (cases s) simp

lemma sint_minus_u16: "sint (d :: u16) \<noteq> - 32768 \<Longrightarrow> sint (- d) = - sint d"
  using sint_greater_eq [of d] sint_less [of d]
  by (simp add: sint_word_minus signed_take_bit_int_eq_self)

lemma sint_of_nat_u16: "n < 32768 \<Longrightarrow> sint (of_nat n :: u16) = int n"
  using sint_u16_nonneg [of "of_nat n"] by simp

lemma sint_minus_of_nat_u16: "n < 32768 \<Longrightarrow> sint (- of_nat n :: u16) = - int n"
  using sint_minus_u16 [of "of_nat n"] by (simp add: sint_of_nat_u16)

text \<open>The distance is antisymmetric, but for two numbers exactly half the space apart.\<close>

lemma seq_diff_antisym:
  assumes "seq_diff s t \<noteq> - 32768"
  shows "seq_diff t s = - seq_diff s t"
proof -
  obtain a b where [simp]: "s = SeqNo a" "t = SeqNo b" by (cases s; cases t) auto
  from sint_minus_u16 [of "b - a"] assms show ?thesis by simp
qed

text \<open>Distances add up as long as the sum stays within the half space.\<close>

lemma sint_add_u16:
  assumes "- 32768 \<le> sint (x :: u16) + sint y" "sint x + sint y < 32768"
  shows "sint (x + y) = sint x + sint y"
  using assms by (simp add: sint_word_add signed_take_bit_int_eq_self)

lemma seq_diff_trans:
  assumes "- 32768 \<le> seq_diff s t + seq_diff t u" "seq_diff s t + seq_diff t u < 32768"
  shows "seq_diff s u = seq_diff s t + seq_diff t u"
proof -
  obtain a b c where [simp]: "s = SeqNo a" "t = SeqNo b" "u = SeqNo c"
    by (cases s; cases t; cases u) auto
  have "sint ((b - a) + (c - b)) = sint (b - a) + sint (c - b)"
    by (rule sint_add_u16) (use assms in auto)
  then show ?thesis by simp
qed

text \<open>The signed distance between the wire numbers of two unwrapped ones.\<close>

lemma wire_diff_ahead:
  assumes "h < v" "v - h < 32768"
  shows "sint (of_nat v - of_nat h :: u16) = int (v - h)"
proof -
  have "(of_nat v - of_nat h :: u16) = of_nat (v - h)" using assms by (simp add: of_nat_diff)
  then show ?thesis using assms(2) by (simp only: sint_of_nat_u16)
qed

lemma wire_diff_behind:
  assumes "v < h" "h - v < 32768"
  shows "sint (of_nat v - of_nat h :: u16) < 0"
proof -
  have "(of_nat v - of_nat h :: u16) = - of_nat (h - v)" using assms by (simp add: of_nat_diff)
  then have "sint (of_nat v - of_nat h :: u16) = - int (h - v)"
    using assms(2) by (simp only: sint_minus_of_nat_u16)
  then show ?thesis using assms(1) by simp
qed

section \<open>What the comparison promises\<close>

lemma precedes_irrefl [simp]: "\<not> precedes s s"
  by (cases s) (simp add: precedes_def)

lemma precedes_asym: "precedes s t \<Longrightarrow> \<not> precedes t s"
  by (auto simp: precedes_def seq_diff_antisym [of s t])

lemma precedes_add:
  assumes "0 < unat n" "unat n < 32768"
  shows "precedes s (seq_add s n)"
  using assms by (simp add: precedes_def seq_diff_add sint_u16_pos_iff)

lemma seq_cmp_Less_iff: "seq_cmp s t = Less \<longleftrightarrow> seq_diff s t < 0"
  by (auto simp: seq_cmp_def int_cmp_def Let_def)

lemma seq_cmp_Greater_iff: "seq_cmp s t = Greater \<longleftrightarrow> precedes s t"
  by (cases "seq_diff s t" "0 :: int" rule: linorder_cases)
    (auto simp: seq_cmp_def int_cmp_def Let_def precedes_def simp del: seq_diff_eq_0_iff)

text \<open>
  Within a window narrower than half the sequence space, \<open>SeqNo::precedes\<close> is a strict
  total order that follows the order of transmission, across the wrap-around: of two numbers
  \<open>i\<close> and \<open>j\<close> steps after a common start, the first precedes the second exactly when
  \<open>i < j\<close>.
\<close>

lemma precedes_is_transmission_order:
  assumes "i < 32768" "j < 32768"
  shows "precedes (seq_add s (of_nat i)) (seq_add s (of_nat j)) \<longleftrightarrow> i < j"
proof -
  obtain a where s: "s = SeqNo a" by (cases s) auto
  have diff: "seq_diff (seq_add s (of_nat i)) (seq_add s (of_nat j)) = int j - int i"
  proof -
    have "sint (of_nat j + - of_nat i :: u16) = sint (of_nat j :: u16) + sint (- of_nat i :: u16)"
      using assms by (intro sint_add_u16) (simp_all add: sint_minus_u16 sint_u16_nonneg)
    then show ?thesis
      using assms by (simp add: s sint_minus_u16 sint_u16_nonneg)
  qed
  show ?thesis by (simp add: precedes_def diff)
qed

text \<open>
  The \<open>Ord\<close> instance is the reverse of the sequence order: \<open>s < t\<close> holds exactly when
  \<open>t\<close> precedes \<open>s\<close>, except half the space apart, where both \<open>s < t\<close> and \<open>t < s\<close> hold. In
  particular \<open>SeqNo(0) < SeqNo(65535)\<close>, where the documentation promises \<open>65535 < 0\<close>.
\<close>

lemma seq_ord_is_reversed:
  "(s < t \<longleftrightarrow> precedes t s \<or> seq_diff s t = - 32768)
   \<and> SeqNo 0 < SeqNo 65535 \<and> \<not> SeqNo 65535 < SeqNo 0"
proof -
  have "seq_diff s t < 0 \<longleftrightarrow> precedes t s \<or> seq_diff s t = - 32768"
  proof (cases "seq_diff s t = - 32768")
    case False
    then show ?thesis using seq_diff_antisym [of s t] by (auto simp: precedes_def)
  qed simp
  then show ?thesis by (simp add: less_SeqNo_def seq_cmp_Less_iff)
qed

text \<open>The extended number restores both halves.\<close>

lemma full_seq_halves:
  "ucast (full_seq e r) = r" "ucast (drop_bit 16 (full_seq e r)) = seq_hi e"
  by (auto intro!: bit_word_eqI simp: full_seq_def bit_simps)

end
