(* ===== verification/Rist_Bonding.thy ===== *)
theory Rist_Bonding
  imports Rist_Seq
begin

text \<open>
  The SMPTE 2022-7 merger of \<open>protocol/bonding.rs\<close>: a bitmap of the last 1024 sequence
  numbers decides which copy of a packet is emitted. The lemmas read the bitmap as a set of
  ring positions, and the main theorem relates the merger to the unwrapped numbering of a
  stream: a packet is emitted exactly when it is its first copy and not 1024 or more behind.
\<close>

unbundle bit_operations_syntax

section \<open>State and operations\<close>

definition WINDOW_SIZE :: nat where [simp]:
  "WINDOW_SIZE = 1024"

definition BITMAP_WORDS :: nat where [simp]:
  "BITMAP_WORDS = 16"

record BondingMerger =
  bitmap :: "u64 list"
  m_highest_seq :: "u16 option"
  packets_emitted :: u64
  duplicates_dropped :: u64
  late_dropped :: u64

definition merger_new :: BondingMerger where
  "merger_new = \<lparr>bitmap = replicate BITMAP_WORDS 0, m_highest_seq = None, packets_emitted = 0,
     duplicates_dropped = 0, late_dropped = 0\<rparr>"

definition mark_seq :: "BondingMerger \<Rightarrow> u16 \<Rightarrow> BondingMerger" where
  "mark_seq m seq =
     (let idx = unat seq mod WINDOW_SIZE; word = idx div 64; b = idx mod 64
      in m\<lparr>bitmap := (bitmap m)[word := bitmap m ! word OR push_bit b 1]\<rparr>)"

definition is_seq_marked :: "BondingMerger \<Rightarrow> u16 \<Rightarrow> bool" where
  "is_seq_marked m seq \<longleftrightarrow>
     (let idx = unat seq mod WINDOW_SIZE; word = idx div 64; b = idx mod 64
      in bitmap m ! word AND push_bit b 1 \<noteq> 0)"

definition clear_bitmap :: "BondingMerger \<Rightarrow> BondingMerger" where
  "clear_bitmap m = m\<lparr>bitmap := replicate BITMAP_WORDS 0\<rparr>"

text \<open>The body of the loop of \<open>advance_window\<close>: forget one number.\<close>

definition unmark_seq :: "BondingMerger \<Rightarrow> u16 \<Rightarrow> BondingMerger" where
  "unmark_seq m seq =
     (let idx = unat seq mod WINDOW_SIZE; word = idx div 64; b = idx mod 64
      in m\<lparr>bitmap := (bitmap m)[word := bitmap m ! word AND NOT (push_bit b 1)]\<rparr>)"

definition advance_window :: "BondingMerger \<Rightarrow> nat \<Rightarrow> BondingMerger" where
  "advance_window m advance =
     (if advance \<ge> WINDOW_SIZE then clear_bitmap m
      else let highest = (case m_highest_seq m of Some h \<Rightarrow> h | None \<Rightarrow> 0)
           in foldl unmark_seq m (map (\<lambda>i. highest + of_nat i) [1..<advance + 1]))"

text \<open>
  The source computes \<open>(-diff) as usize\<close> on an \<open>i16\<close>: the negation wraps at \<open>-32768\<close> (an
  overflow check panics there in a debug build) and the cast extends the sign.
\<close>

definition merger_process :: "BondingMerger \<Rightarrow> u16 \<Rightarrow> bytes \<Rightarrow> BondingMerger \<times> bytes option" where
  "merger_process m seq data =
     (case m_highest_seq m of
        None \<Rightarrow>
          let m = mark_seq (clear_bitmap (m\<lparr>m_highest_seq := Some seq\<rparr>)) seq
          in (m\<lparr>packets_emitted := packets_emitted m + 1\<rparr>, Some data)
      | Some highest \<Rightarrow>
          let diff = seq - highest
          in if sint diff > 0
             then let advance = nat (sint diff);
                      m = mark_seq ((advance_window m advance)\<lparr>m_highest_seq := Some seq\<rparr>) seq
                  in (m\<lparr>packets_emitted := packets_emitted m + 1\<rparr>, Some data)
             else if sint diff = 0
             then (m\<lparr>duplicates_dropped := duplicates_dropped m + 1\<rparr>, None)
             else let behind = unat (scast (- diff) :: u64)
                  in if behind \<ge> WINDOW_SIZE
                     then (m\<lparr>late_dropped := late_dropped m + 1\<rparr>, None)
                     else if is_seq_marked m seq
                     then (m\<lparr>duplicates_dropped := duplicates_dropped m + 1\<rparr>, None)
                     else let m = mark_seq m seq
                          in (m\<lparr>packets_emitted := packets_emitted m + 1\<rparr>, Some data))"

section \<open>The bitmap as a set of ring positions\<close>

definition marked_at :: "BondingMerger \<Rightarrow> nat \<Rightarrow> bool" where
  "marked_at m idx \<longleftrightarrow> bit (bitmap m ! (idx div 64)) (idx mod 64)"

definition merger_inv :: "BondingMerger \<Rightarrow> bool" where
  "merger_inv m \<longleftrightarrow> length (bitmap m) = 16"

lemma and_single_bit: "(w :: u64) AND push_bit b 1 \<noteq> 0 \<longleftrightarrow> b < 64 \<and> bit w b"
proof -
  have "w AND push_bit b 1 = 0 \<longleftrightarrow> (\<forall>n < 64. \<not> bit (w AND push_bit b 1) n)"
    by (auto intro!: bit_word_eqI)
  then show ?thesis by (auto simp: bit_simps)
qed

lemma is_seq_marked_at: "is_seq_marked m seq \<longleftrightarrow> marked_at m (unat seq mod 1024)"
  unfolding is_seq_marked_def marked_at_def Let_def and_single_bit by simp

lemma idx_words: "(i :: nat) < 1024 \<Longrightarrow> i div 64 < 16"
  by (simp add: less_mult_imp_div_less)

lemma idx_eq: "(i :: nat) = j \<longleftrightarrow> i div 64 = j div 64 \<and> i mod 64 = j mod 64"
  by (metis div_mult_mod_eq)

lemma marked_at_mark_seq:
  assumes "merger_inv m" "i < 1024"
  shows "marked_at (mark_seq m seq) i \<longleftrightarrow> i = unat seq mod 1024 \<or> marked_at m i"
  using assms idx_words [of i] idx_words [of "unat seq mod 1024"] idx_eq [of i "unat seq mod 1024"]
  by (cases "i div 64 = unat seq mod 1024 div 64")
    (auto simp: marked_at_def mark_seq_def merger_inv_def Let_def bit_simps)

lemma marked_at_unmark_seq:
  assumes "merger_inv m" "i < 1024"
  shows "marked_at (unmark_seq m seq) i \<longleftrightarrow> i \<noteq> unat seq mod 1024 \<and> marked_at m i"
  using assms idx_words [of i] idx_words [of "unat seq mod 1024"] idx_eq [of i "unat seq mod 1024"]
  by (cases "i div 64 = unat seq mod 1024 div 64")
    (auto simp: marked_at_def unmark_seq_def merger_inv_def Let_def bit_simps)

lemma marked_at_clear [simp]: "i < 1024 \<Longrightarrow> \<not> marked_at (clear_bitmap m) i"
  by (simp add: marked_at_def clear_bitmap_def idx_words)

lemma marked_at_updates [simp]:
  "marked_at (m\<lparr>m_highest_seq := h\<rparr>) i = marked_at m i"
  "marked_at (m\<lparr>packets_emitted := a\<rparr>) i = marked_at m i"
  "marked_at (m\<lparr>duplicates_dropped := b\<rparr>) i = marked_at m i"
  "marked_at (m\<lparr>late_dropped := c\<rparr>) i = marked_at m i"
  by (simp_all add: marked_at_def)

lemma merger_inv_ops [simp]:
  "merger_inv merger_new"
  "merger_inv m \<Longrightarrow> merger_inv (mark_seq m seq)"
  "merger_inv m \<Longrightarrow> merger_inv (unmark_seq m seq)"
  "merger_inv (clear_bitmap m)"
  "merger_inv (m\<lparr>m_highest_seq := h\<rparr>) = merger_inv m"
  "merger_inv (m\<lparr>packets_emitted := a\<rparr>) = merger_inv m"
  "merger_inv (m\<lparr>duplicates_dropped := b\<rparr>) = merger_inv m"
  "merger_inv (m\<lparr>late_dropped := c\<rparr>) = merger_inv m"
  by (simp_all add: merger_inv_def merger_new_def mark_seq_def unmark_seq_def clear_bitmap_def Let_def)

lemma fields_of_marks [simp]:
  "m_highest_seq (mark_seq m seq) = m_highest_seq m" "m_highest_seq (clear_bitmap m) = m_highest_seq m"
  "packets_emitted (mark_seq m seq) = packets_emitted m"
  "packets_emitted (clear_bitmap m) = packets_emitted m"
  by (simp_all add: mark_seq_def clear_bitmap_def Let_def)

lemma unmark_all:
  "merger_inv m \<Longrightarrow> merger_inv (foldl unmark_seq m qs)
     \<and> (\<forall>i < 1024. marked_at (foldl unmark_seq m qs) i \<longleftrightarrow>
          i \<notin> (\<lambda>q. unat q mod 1024) ` set qs \<and> marked_at m i)"
  by (induction qs arbitrary: m) (auto simp: marked_at_unmark_seq)

lemma merger_inv_advance [simp]: "merger_inv m \<Longrightarrow> merger_inv (advance_window m a)"
  by (auto simp: advance_window_def Let_def unmark_all)

lemma merger_inv_process: "merger_inv m \<Longrightarrow> merger_inv (fst (merger_process m seq d))"
  by (auto simp: merger_process_def Let_def split: option.splits)

section \<open>The merger on unwrapped sequence numbers\<close>

text \<open>
  A stream numbers its packets \<open>0, 1, 2, \<dots>\<close> without bound and puts the number modulo 65536 on
  the wire. Copies arrive over several paths, in any order, as the list of their unwrapped
  numbers; the merger sees the wire numbers.
\<close>

fun merger_run :: "BondingMerger \<Rightarrow> (u16 \<times> bytes) list \<Rightarrow> bytes option list" where
  "merger_run m [] = []"
| "merger_run m ((seq, d) # ps) = (let (m', out) = merger_process m seq d in out # merger_run m' ps)"

text \<open>What the state knows of the numbers \<open>p\<close> seen so far.\<close>

definition merger_tracks :: "BondingMerger \<Rightarrow> nat list \<Rightarrow> bool" where
  "merger_tracks m p \<longleftrightarrow> merger_inv m \<and> p \<noteq> [] \<and> m_highest_seq m = Some (of_nat (Max (set p)))
     \<and> (\<forall>u. u \<le> Max (set p) \<longrightarrow> Max (set p) < u + 1024 \<longrightarrow> (marked_at m (u mod 1024) \<longleftrightarrow> u \<in> set p))"

lemma wire_index: "unat (of_nat v :: u16) mod 1024 = v mod 1024"
  by (simp add: unat_of_nat mod_mod_cancel)

lemma residue_inj:
  fixes u v :: nat
  assumes "u \<le> v" "v < u + 1024"
  shows "u mod 1024 = v mod 1024 \<longleftrightarrow> u = v"
proof
  assume "u mod 1024 = v mod 1024"
  then have "1024 dvd v - u" using assms(1) by (metis mod_eq_dvd_iff_nat)
  then show "u = v" using assms by (auto dest: dvd_imp_le)
qed simp

lemma marked_after_advance:
  assumes "merger_inv m" "m_highest_seq m = Some (of_nat h)" "h < v" "u \<le> v" "v < u + 1024"
  shows "marked_at (advance_window m (v - h)) (u mod 1024) \<longleftrightarrow> u \<le> h \<and> marked_at m (u mod 1024)"
proof (cases "v - h \<ge> 1024")
  case True
  with assms have "\<not> u \<le> h" by linarith
  with True show ?thesis by (simp add: advance_window_def)
next
  case False
  let ?qs = "map (\<lambda>i. of_nat h + of_nat i :: u16) [1..<v - h + 1]"
  have "(\<lambda>q. unat q mod 1024) ` set ?qs = (\<lambda>w. w mod 1024) ` {h + 1..v}"
  proof -
    have "unat (of_nat h + of_nat i :: u16) mod 1024 = (h + i) mod 1024" for i
      using wire_index [of "h + i"] by simp
    then have "(\<lambda>q. unat q mod 1024) ` set ?qs = (\<lambda>i. (h + i) mod 1024) ` {1..<v - h + 1}"
      by (simp add: image_image del: upt_Suc)
    also have "\<dots> = (\<lambda>w. w mod 1024) ` ((\<lambda>i. h + i) ` {1..<v - h + 1})"
      by (simp only: image_image)
    also have "(\<lambda>i. h + i) ` {1..<v - h + 1} = {h + 1..v}"
      using assms(3) by (simp add: atLeastLessThanSuc_atLeastAtMost)
    finally show ?thesis .
  qed
  moreover have "u mod 1024 \<in> (\<lambda>w. w mod 1024) ` {h + 1..v} \<longleftrightarrow> h < u"
  proof
    assume "u mod 1024 \<in> (\<lambda>w. w mod 1024) ` {h + 1..v}"
    then obtain w where w: "u mod 1024 = w mod 1024" "h < w" "w \<le> v" by auto
    have "u < w + 1024" "w < u + 1024" using w assms False by linarith+
    with w(1) have "u = w" using residue_inj [of u w] residue_inj [of w u] by (cases "u \<le> w") auto
    with w show "h < u" by simp
  qed (use assms in auto)
  ultimately show ?thesis
    using False assms unmark_all [OF assms(1), of ?qs] by (auto simp: advance_window_def)
qed

lemma unat_scast_of_nat:
  assumes "n < 32768"
  shows "unat (scast (of_nat n :: u16) :: u64) = n"
proof -
  have "(scast (of_nat n :: u16) :: u64) = of_nat n"
    unfolding scast_eq sint_of_nat_u16 [OF assms] by simp
  then show ?thesis using assms by (simp add: unat_of_nat)
qed

lemma wire_diff_unsigned:
  assumes "v < h" "h - v < 32768"
  shows "unat (scast (- (of_nat v - of_nat h :: u16)) :: u64) = h - v"
proof -
  have "- (of_nat v - of_nat h :: u16) = of_nat (h - v)" using assms by (simp add: of_nat_diff)
  then show ?thesis using unat_scast_of_nat [OF assms(2)] by simp
qed

lemma Max_snoc: "p \<noteq> [] \<Longrightarrow> Max (set (p @ [v])) = max (Max (set p)) (v :: nat)"
  by (simp add: max.commute)

lemma merger_tracks_snocI:
  assumes "p \<noteq> []" "h = Max (set p)" "t = max h v" "merger_inv m" "m_highest_seq m = Some (of_nat t)"
    and "\<And>u. u \<le> t \<Longrightarrow> t < u + 1024 \<Longrightarrow> marked_at m (u mod 1024) \<longleftrightarrow> u = v \<or> u \<in> set p"
  shows "merger_tracks m (p @ [v])"
  unfolding merger_tracks_def Max_snoc [OF assms(1)] using assms by simp

text \<open>One arrival, \<open>h\<close> being the highest number so far: ahead of it, or behind it.\<close>

lemma merger_tracksD:
  assumes "merger_tracks m p" "h = Max (set p)"
  shows "merger_inv m" "p \<noteq> []" "m_highest_seq m = Some (of_nat h)"
    "\<And>u. u \<le> h \<Longrightarrow> h < u + 1024 \<Longrightarrow> marked_at m (u mod 1024) \<longleftrightarrow> u \<in> set p"
    "\<And>u. u \<in> set p \<Longrightarrow> u \<le> h"
  using assms by (auto simp: merger_tracks_def)

lemma merger_step_ahead:
  assumes tr: "merger_tracks m p" "h = Max (set p)" and v: "h < v" "v < h + 32768"
    and r: "merger_process m (of_nat v) d = (m', out)"
  shows "merger_tracks m' (p @ [v]) \<and> out = Some d"
proof -
  note inv = merger_tracksD [OF tr]
  have inv': "merger_inv m'" using merger_inv_process [OF inv(1), of "of_nat v" d] r by simp
  have "0 < sint (of_nat v - of_nat h :: u16)" "nat (sint (of_nat v - of_nat h :: u16)) = v - h"
    using wire_diff_ahead [of h v] v by simp_all
  with r inv(3) have m': "m' = (mark_seq ((advance_window m (v - h))\<lparr>m_highest_seq := Some (of_nat v)\<rparr>) (of_nat v))
      \<lparr>packets_emitted := packets_emitted m' \<rparr>" "out = Some d"
    by (auto simp: merger_process_def Let_def)
  have "marked_at m' (u mod 1024) \<longleftrightarrow> u = v \<or> u \<in> set p" if "u \<le> v" "v < u + 1024" for u
    using that v(1) inv(4) [of u] inv(5) [of u] residue_inj [OF that]
    by (subst m'(1)) (auto simp: marked_at_mark_seq inv(1) wire_index marked_after_advance [OF inv(1,3)])
  moreover have "m_highest_seq m' = Some (of_nat v)" by (subst m'(1)) simp
  ultimately have "merger_tracks m' (p @ [v])"
    using v(1) inv' by (intro merger_tracks_snocI [OF inv(2) tr(2), of v]) simp_all
  with m'(2) show ?thesis by simp
qed

lemma merger_step_behind:
  assumes tr: "merger_tracks m p" "h = Max (set p)" and v: "v < h" "h < v + 32768"
    and r: "merger_process m (of_nat v) d = (m', out)"
  shows "merger_tracks m' (p @ [v]) \<and> out = (if v \<notin> set p \<and> h < v + 1024 then Some d else None)"
proof -
  note inv = merger_tracksD [OF tr]
  note tracksI = merger_tracks_snocI [OF inv(2) tr(2), of h]
  have inv': "merger_inv m'" using merger_inv_process [OF inv(1), of "of_nat v" d] r by simp
  have b: "unat (scast (- (of_nat v - of_nat h :: u16)) :: u64) = h - v" "sint (of_nat v - of_nat h :: u16) < 0"
    using v by (intro wire_diff_unsigned wire_diff_behind; simp)+
  have near: "h < v + 1024 \<longleftrightarrow> \<not> 1024 \<le> h - v" using v(1) by linarith
  have uniq: "u mod 1024 = v mod 1024 \<longleftrightarrow> u = v" if "u \<le> h" "h < u + 1024" "h < v + 1024" for u
    using that v(1) residue_inj [of u v] residue_inj [of v u] by (cases "u \<le> v") auto
  have seen: "is_seq_marked m (of_nat v) \<longleftrightarrow> v \<in> set p" if "h < v + 1024"
    using that v(1) inv(4) [of v] by (simp add: is_seq_marked_at wire_index)
  show ?thesis
  proof (cases "h < v + 1024 \<and> v \<notin> set p")
    case True
    with r b inv(3) seen have m': "m' = (mark_seq m (of_nat v))\<lparr>packets_emitted := packets_emitted m + 1\<rparr>"
      "out = Some d" by (auto simp: merger_process_def Let_def near)
    have "merger_tracks m' (p @ [v])"
      using True v(1) inv inv' by (intro tracksI) (simp_all add: m' marked_at_mark_seq wire_index uniq)
    with True m'(2) show ?thesis by simp
  next
    case False
    with r b inv(3) seen have m': "out = None" "bitmap m' = bitmap m" "m_highest_seq m' = m_highest_seq m"
      by (auto simp: merger_process_def Let_def near split: if_splits)
    have "merger_tracks m' (p @ [v])"
      using False v(1) inv inv' by (intro tracksI) (auto simp: m' marked_at_def)
    with False m'(1) show ?thesis by auto
  qed
qed

lemma merger_step:
  assumes tr: "merger_tracks m p" "h = Max (set p)" and "v < h + 32768" "h < v + 32768"
    and r: "merger_process m (of_nat v) d = (m', out)"
  shows "merger_tracks m' (p @ [v]) \<and> out = (if v \<notin> set p \<and> h < v + 1024 then Some d else None)"
proof -
  note inv = merger_tracksD [OF tr]
  consider "h < v" | "v = h" | "v < h" by linarith
  then show ?thesis
  proof cases
    case 1
    with merger_step_ahead [OF tr 1 assms(3) r] inv(5) [of v] show ?thesis by auto
  next
    case 2
    with r inv(3) have m': "m' = m\<lparr>duplicates_dropped := duplicates_dropped m + 1\<rparr>" "out = None"
      by (auto simp: merger_process_def)
    moreover have "v \<in> set p" using 2 tr(2) inv(2) by simp
    moreover have "merger_tracks m' (p @ [v])"
      using 2 inv m' calculation by (intro merger_tracks_snocI [OF inv(2) tr(2), of h]) auto
    ultimately show ?thesis by simp
  next
    case 3
    from merger_step_behind [OF tr 3 assms(4) r] show ?thesis .
  qed
qed

lemma merger_first:
  assumes "m_highest_seq m = None" "merger_process m (of_nat v) d = (m', out)"
  shows "merger_tracks m' [v] \<and> out = Some d"
proof -
  have "marked_at m' (u mod 1024) \<longleftrightarrow> u = v" if "u \<le> v" "v < u + 1024" for u
    using assms residue_inj [OF that] by (auto simp: merger_process_def Let_def marked_at_mark_seq wire_index)
  with assms show ?thesis by (auto simp: merger_process_def Let_def merger_tracks_def)
qed

lemma merger_run_tracks:
  assumes "merger_tracks m p"
    and "\<And>i. i < length vs \<Longrightarrow> vs ! i < Max (set (p @ take i vs)) + 32768
           \<and> Max (set (p @ take i vs)) < vs ! i + 32768"
    and "i < length vs"
  shows "merger_run m (map (\<lambda>v. (of_nat v, f v)) vs) ! i =
    (if vs ! i \<notin> set (p @ take i vs) \<and> Max (set (p @ take i vs)) < vs ! i + 1024
     then Some (f (vs ! i)) else None)"
  using assms
proof (induction vs arbitrary: m p i)
  case (Cons v vs)
  obtain m' out where pr: "merger_process m (of_nat v) (f v) = (m', out)" by fastforce
  from merger_step [OF Cons.prems(1) refl _ _ pr] Cons.prems(2) [of 0]
  have st: "merger_tracks m' (p @ [v])"
    "out = (if v \<notin> set p \<and> Max (set p) < v + 1024 then Some (f v) else None)" by auto
  have near: "vs ! j < Max (set ((p @ [v]) @ take j vs)) + 32768
      \<and> Max (set ((p @ [v]) @ take j vs)) < vs ! j + 32768" if "j < length vs" for j
    using Cons.prems(2) [of "Suc j"] that by simp
  show ?case
  proof (cases i)
    case 0
    with pr st show ?thesis by simp
  next
    case (Suc j)
    with Cons.prems(3) have "j < length vs" by simp
    from Cons.IH [OF st(1) near this] pr Suc show ?thesis by simp
  qed
qed simp

text \<open>
  C26: The merger emits each packet exactly once. For copies of a stream's packets arriving over
  any number of paths in any order, each within half the sequence space of the highest number
  so far, the \<open>i\<close>-th arrival is emitted exactly when no copy of it came before and it is less
  than 1024 behind the highest number that came before; the wire numbers may wrap any number
  of times.
\<close>

theorem merger_emits_first_copies:
  assumes near: "\<And>i. 0 < i \<Longrightarrow> i < length vs \<Longrightarrow>
      vs ! i < Max (set (take i vs)) + 32768 \<and> Max (set (take i vs)) < vs ! i + 32768"
    and "i < length vs"
  shows "merger_run merger_new (map (\<lambda>v. (of_nat v, f v)) vs) ! i =
    (if vs ! i \<notin> set (take i vs) \<and> (i = 0 \<or> Max (set (take i vs)) < vs ! i + 1024)
     then Some (f (vs ! i)) else None)"
proof (cases vs)
  case (Cons v us)
  obtain m' out where pr: "merger_process merger_new (of_nat v) (f v) = (m', out)" by fastforce
  have st: "merger_tracks m' [v]" "out = Some (f v)"
    using merger_first [OF _ pr] by (auto simp: merger_new_def)
  have near': "us ! j < Max (set ([v] @ take j us)) + 32768
      \<and> Max (set ([v] @ take j us)) < us ! j + 32768" if "j < length us" for j
    using near [of "Suc j"] that Cons by simp
  show ?thesis
  proof (cases i)
    case 0
    with pr st Cons show ?thesis by simp
  next
    case (Suc j)
    with assms(2) Cons have "j < length us" by simp
    with merger_run_tracks [OF st(1), of us j f] near' pr Suc Cons show ?thesis by simp
  qed
qed (use assms in simp)

theorem merger_emits_first_copies_witness:
  "merger_run merger_new (map (\<lambda>v. (of_nat v, [of_nat v])) [65535, 65537, 65536, 65535, 65537]) ! 2 = Some [0]"
proof -
  let ?vs = "[65535, 65537, 65536, 65535, 65537] :: nat list"
  have "?vs ! i < Max (set (take i ?vs)) + 32768 \<and> Max (set (take i ?vs)) < ?vs ! i + 32768"
    if "0 < i" "i < length ?vs" for i
  proof -
    have "0 < i" "i < 5" using that by simp_all
    then consider "i = 1" | "i = 2" | "i = 3" | "i = 4" by linarith
    then show ?thesis by cases simp_all
  qed
  from merger_emits_first_copies [of ?vs 2 "\<lambda>v. [of_nat v]", OF this] show ?thesis by simp
qed

text \<open>Every packet is counted once: emitted, duplicate or late.\<close>

lemma advance_window_counts [simp]:
  "packets_emitted (advance_window m a) = packets_emitted m"
  "duplicates_dropped (advance_window m a) = duplicates_dropped m"
  "late_dropped (advance_window m a) = late_dropped m"
proof -
  have "packets_emitted (foldl unmark_seq m qs) = packets_emitted m
    \<and> duplicates_dropped (foldl unmark_seq m qs) = duplicates_dropped m
    \<and> late_dropped (foldl unmark_seq m qs) = late_dropped m" for qs
    by (induction qs arbitrary: m) (simp_all add: unmark_seq_def Let_def)
  then show "packets_emitted (advance_window m a) = packets_emitted m"
    "duplicates_dropped (advance_window m a) = duplicates_dropped m"
    "late_dropped (advance_window m a) = late_dropped m"
    by (simp_all add: advance_window_def clear_bitmap_def Let_def)
qed

lemma merger_process_counts:
  assumes "merger_process m seq d = (m', out)"
  shows "packets_emitted m' + duplicates_dropped m' + late_dropped m'
      = packets_emitted m + duplicates_dropped m + late_dropped m + 1"
  using assms
  by (auto simp: merger_process_def Let_def mark_seq_def clear_bitmap_def
      split: option.splits if_splits)

end
