(* ===== verification/Rist_Profile.thy ===== *)
theory Rist_Profile
  imports Rist_Config Rist_Bonding
begin

text \<open>
  The data of the parts that are not wired up yet: the configuration and statistics of the protocol
  crate (\<open>config.rs\<close>, \<open>stats.rs\<close>), their collector and the bonding state of a receiver
  (\<open>stats_poller.rs\<close>, \<open>bonding_task.rs\<close>), and the Main Profile types (\<open>gre/\<close>, \<open>crypto/\<close>, \<open>tunnel.rs\<close>,
  \<open>null_delete.rs\<close>, \<open>tunnel_task.rs\<close>, \<open>dtls_channel.rs\<close>). The defaults agree with those of the sockets
  and with the ranges the comments give.
\<close>

section \<open>Protocol configuration and statistics\<close>

datatype RistProfile = Simple | Main

record RistConfig =
  rc_profile :: RistProfile
  rc_buffer_size :: duration
  rc_max_nack_retries :: u32
  rc_rtcp_interval :: duration
  rc_rtcp_bandwidth_fraction :: rat
  rc_cname :: "bytes option"
  rc_retransmit_buffer_capacity :: nat
  rc_rtt_echo_enabled :: bool
  rc_null_packet_deletion :: bool

text \<open>The literal \<open>0.05\<close> is the nearest double.\<close>

definition rist_config_default :: RistConfig where
  "rist_config_default =
     \<lparr>rc_profile = Simple, rc_buffer_size = 1000000000, rc_max_nack_retries = 10, rc_rtcp_interval = 100000000,
      rc_rtcp_bandwidth_fraction = f64_round (5 / 100), rc_cname = None, rc_retransmit_buffer_capacity = 2048,
      rc_rtt_echo_enabled = True, rc_null_packet_deletion = False\<rparr>"

record RistStats =
  rs_packets_sent :: u64
  rs_packets_received :: u64
  rs_bytes_sent :: u64
  rs_bytes_received :: u64
  rs_packets_retransmitted :: u64
  rs_nacks_sent :: u64
  rs_nacks_received :: u64
  rs_packets_lost :: u64
  rs_packets_recovered :: u64
  rs_rtt :: "duration option"
  rs_loss_fraction :: rat
  rs_jitter :: rat
  rs_bonding_switches :: u64

definition rist_stats_default :: RistStats where
  "rist_stats_default =
     \<lparr>rs_packets_sent = 0, rs_packets_received = 0, rs_bytes_sent = 0, rs_bytes_received = 0,
      rs_packets_retransmitted = 0, rs_nacks_sent = 0, rs_nacks_received = 0, rs_packets_lost = 0,
      rs_packets_recovered = 0, rs_rtt = None, rs_loss_fraction = 0, rs_jitter = 0, rs_bonding_switches = 0\<rparr>"

record StatsCollector = sc_stats :: RistStats

definition stats_collector_new :: StatsCollector where
  "stats_collector_new = \<lparr>sc_stats = rist_stats_default\<rparr>"

definition collector_snapshot :: "StatsCollector \<Rightarrow> RistStats" where
  "collector_snapshot c = sc_stats c"

section \<open>Bonding of a receiver\<close>

record BondingConfig = additional_paths :: "SocketAddr list"

record ReceiverBonding = rb_merger :: BondingMerger

definition receiver_bonding_new :: ReceiverBonding where
  "receiver_bonding_new = \<lparr>rb_merger = merger_new\<rparr>"

section \<open>Main Profile\<close>

definition VSF_ETHERTYPE :: u16 where [simp]: "VSF_ETHERTYPE = 0xCCE0"
definition LEGACY_REDUCED_ETHERTYPE :: u16 where [simp]: "LEGACY_REDUCED_ETHERTYPE = 0x88B6"
definition LEGACY_KEEPALIVE_ETHERTYPE :: u16 where [simp]: "LEGACY_KEEPALIVE_ETHERTYPE = 0x88B5"

text \<open>The version with its discriminants.\<close>

datatype RistVersion = V2020 | V2021 | V2022

fun rist_version_code :: "RistVersion \<Rightarrow> nat" where
  "rist_version_code V2020 = 0"
| "rist_version_code V2021 = 1"
| "rist_version_code V2022 = 2"

record GreHeader =
  c_flag :: bool
  k_flag :: bool
  s_flag :: bool
  h_bit :: bool
  gre_rist_version :: RistVersion
  gre_protocol_type :: u16
  gre_key :: "u32 option"
  gre_sequence :: "u32 option"

record VsfPacketHeader =
  vsf_protocol_type :: u16
  vsf_protocol_subtype :: u16

record ReducedUdpHeader =
  source_port :: u16
  dest_port :: u16

record KeepAlivePayload =
  ka_version :: bytes
  ka_profile :: bytes

datatype PskKeyLength = Aes128 | Aes256

record PskConfig =
  key_length :: PskKeyLength
  passphrase :: bytes

datatype DtlsAuthMode = Certificate (cert_path: bytes) (key_path: bytes) | Srp (username: bytes) (password: bytes)

record DtlsConfig = auth_mode :: DtlsAuthMode

record DtlsChannelConfig = dtls_enabled :: bool

datatype TunnelState = Disconnected | Establishing | Connected

record TunnelConfig =
  keepalive_interval :: duration
  tunnel_timeout :: duration
  initial_keepalive_count :: u8
  tn_reduced_overhead :: bool

definition tunnel_config_default :: TunnelConfig where
  "tunnel_config_default =
     \<lparr>keepalive_interval = 5000000000, tunnel_timeout = 60000000000, initial_keepalive_count = 5, tn_reduced_overhead = True\<rparr>"

record TunnelTaskConfig =
  tunnel_port :: u16
  tt_reduced_overhead :: bool

definition TS_NULL_PID :: u16 where [simp]: "TS_NULL_PID = 0x1FFF"

record NullDeleteSender = nd_extended_seq :: u32
record NullDeleteReceiver = nd_last_extended_seq :: u32

section \<open>Defaults\<close>

text \<open>The two configurations agree wherever both have a setting.\<close>

lemma defaults_agree:
  "rc_buffer_size rist_config_default = buffer_size config_default
   \<and> rc_max_nack_retries rist_config_default = max_nack_retries config_default
   \<and> rc_rtcp_interval rist_config_default = rtcp_interval config_default
   \<and> rc_cname rist_config_default = cfg_cname config_default
   \<and> rc_retransmit_buffer_capacity rist_config_default = retransmit_buffer_capacity config_default
   \<and> rc_rtt_echo_enabled rist_config_default = rtt_echo_enabled config_default"
  by (simp add: rist_config_default_def config_default_def)

text \<open>
  The tunnel defaults lie in the ranges of the specification: keep-alives every 1 to 10 seconds,
  3 to 10 of them at first, and the tunnel outlives several missed ones.
\<close>

lemma tunnel_default_in_range:
  "keepalive_interval tunnel_config_default \<in> {1000000000..10000000000}
   \<and> unat (initial_keepalive_count tunnel_config_default) \<in> {3..10}
   \<and> unat (initial_keepalive_count tunnel_config_default) * keepalive_interval tunnel_config_default
     < tunnel_timeout tunnel_config_default"
  by (simp add: tunnel_config_default_def)

text \<open>The version fits the three bits of its field and can be read back.\<close>

lemma rist_version_code_field: "rist_version_code v < 2 ^ 3" "rist_version_code v = rist_version_code w \<longleftrightarrow> v = w"
  by (cases v; cases w; simp)+

end
