(* ===== verification/Rist_Rtp.thy ===== *)
theory Rist_Rtp
  imports Rist_Prelude
begin

text \<open>
  The RTP header and packet of \<open>packet/rtp.rs\<close>: parsing with every error branch,
  serialisation, the retransmit flag in the SSRC, and the header writer of the sender's hot
  path (\<open>sender.rs\<close>). The theorems show that parsing never panics, the round trips, and that
  the hot-path writer and the retransmit flag agree with the header type.
\<close>

unbundle bit_operations_syntax

section \<open>Header\<close>

definition RTP_HEADER_SIZE :: nat where
  [simp]: "RTP_HEADER_SIZE = 12"

record RtpHeader =
  version :: u8
  padding :: bool
  extension :: bool
  csrc_count :: u8
  marker :: bool
  payload_type :: u8
  sequence_number :: u16
  timestamp :: u32
  rtp_ssrc :: u32

definition is_retransmit :: "RtpHeader \<Rightarrow> bool" where
  "is_retransmit h \<longleftrightarrow> rtp_ssrc h AND 1 \<noteq> 0"

definition logical_ssrc :: "RtpHeader \<Rightarrow> u32" where
  "logical_ssrc h = rtp_ssrc h AND NOT 1"

text \<open>A single bit of a byte, \<open>(b >> i) & 0x01 != 0\<close>.\<close>

definition flag_bit :: "u8 \<Rightarrow> nat \<Rightarrow> bool" where
  "flag_bit b i \<longleftrightarrow> drop_bit i b AND 1 \<noteq> 0"

definition rtp_header_parse :: "bytes_api \<Rightarrow> bytes \<Rightarrow> (RtpHeader \<times> nat) res" where
  "rtp_header_parse B buf =
     (if length buf < RTP_HEADER_SIZE then Err (PacketTooShort RTP_HEADER_SIZE (length buf))
      else reading (get_u8 B buf) (\<lambda>first r.
        let ver = drop_bit 6 first AND 3 in
        if ver \<noteq> 2 then Err (InvalidRtpVersion ver)
        else
          let pad = flag_bit first 5; ext = flag_bit first 4; cc = first AND 0x0F in
          reading (get_u8 B r) (\<lambda>second r.
          let mk = flag_bit second 7; pt = second AND 0x7F in
          reading (get_u16 B r) (\<lambda>seq r.
          reading (get_u32 B r) (\<lambda>ts r.
          reading (get_u32 B r) (\<lambda>src r.
          let header_size = RTP_HEADER_SIZE + unat cc * 4 in
          if length buf < header_size then Err (PacketTooShort header_size (length buf))
          else Ok (\<lparr>version = ver, padding = pad, extension = ext, csrc_count = cc,
                    marker = mk, payload_type = pt, sequence_number = seq,
                    timestamp = ts, rtp_ssrc = src\<rparr>, header_size)))))))"

definition rtp_header_serialize :: "bytes_api \<Rightarrow> RtpHeader \<Rightarrow> bytes" where
  "rtp_header_serialize B h =
     (let buf = [];
          first = push_bit 6 (version h) OR push_bit 5 (of_bool (padding h))
                  OR push_bit 4 (of_bool (extension h)) OR (csrc_count h AND 0x0F);
          buf = put_u8 B buf first;
          second = push_bit 7 (of_bool (marker h)) OR (payload_type h AND 0x7F);
          buf = put_u8 B buf second;
          buf = put_u16 B buf (sequence_number h);
          buf = put_u32 B buf (timestamp h);
          buf = put_u32 B buf (rtp_ssrc h)
      in buf)"

definition new_ts :: "u32 \<Rightarrow> u16 \<Rightarrow> u32 \<Rightarrow> RtpHeader" where
  "new_ts src seq ts =
     \<lparr>version = 2, padding = False, extension = False, csrc_count = 0, marker = False,
      payload_type = 33, sequence_number = seq, timestamp = ts, rtp_ssrc = src\<rparr>"

section \<open>Packet\<close>

record RtpPacket =
  header :: RtpHeader
  payload :: bytes

definition rtp_packet_parse :: "bytes_api \<Rightarrow> bytes \<Rightarrow> RtpPacket res" where
  "rtp_packet_parse B buf =
     res_bind (rtp_header_parse B buf) (\<lambda>(hdr, header_size).
       let offset = header_size in
       res_bind
         (if extension hdr then
            if length buf < offset + 4 then Err (PacketTooShort (offset + 4) (length buf))
            else res_bind (byte_at buf (offset + 2)) (\<lambda>e2.
                 res_bind (byte_at buf (offset + 3)) (\<lambda>e3.
                 let ext_len_words = unat (u16_from_be_bytes e2 e3);
                     ext_total = 4 + ext_len_words * 4
                 in if length buf < offset + ext_total
                    then Err (PacketTooShort (offset + ext_total) (length buf))
                    else Ok (offset + ext_total)))
          else Ok offset)
         (\<lambda>offset. res_bind (slice_from buf offset)
            (\<lambda>pl. Ok \<lparr>header = hdr, payload = pl\<rparr>)))"

definition rtp_packet_serialize :: "bytes_api \<Rightarrow> RtpPacket \<Rightarrow> bytes" where
  "rtp_packet_serialize B p =
     (let header_bytes = rtp_header_serialize B (header p);
          buf = [];
          buf = extend_from_slice B buf header_bytes;
          buf = extend_from_slice B buf (payload p)
      in buf)"

section \<open>The sender's header writer\<close>

definition write_rtp_header :: "bytes_api \<Rightarrow> bytes \<Rightarrow> u32 \<Rightarrow> u16 \<Rightarrow> u32 \<Rightarrow> bytes" where
  "write_rtp_header B buf src seq ts =
     (let buf = put_u8 B buf 0x80;
          buf = put_u8 B buf 33;
          buf = put_u16 B buf seq;
          buf = put_u32 B buf ts;
          buf = put_u32 B buf src
      in buf)"

section \<open>Facts about the bits of the first two bytes\<close>

lemma flag_bit_iff: "flag_bit b i \<longleftrightarrow> bit b i"
  by (simp add: flag_bit_def and_one_eq bit_iff_odd_drop_bit odd_iff_mod_2_eq_one)

text \<open>A header the wire format can carry: version 2 and fields within their bit widths.\<close>

definition rtp_header_wf :: "RtpHeader \<Rightarrow> bool" where
  "rtp_header_wf h \<longleftrightarrow> version h = 2 \<and> unat (csrc_count h) < 16 \<and> unat (payload_type h) < 128"

lemma nibble_cases:
  assumes "unat (c :: u8) < 16"
  shows "c \<in> {0, 1, 2, 3, 4, 5, 6, 7, 8, 9, 10, 11, 12, 13, 14, 15}"
proof -
  have "unat c \<in> {0, 1, 2, 3, 4, 5, 6, 7, 8, 9, 10, 11, 12, 13, 14, 15}"
    using assms by (simp add: numeral_eq_Suc less_Suc_eq)
  then show ?thesis by (simp add: word_unat_eq_iff)
qed

lemma first_byte_decode:
  fixes c :: u8 and p x :: bool
  assumes "unat c < 16"
  defines "b \<equiv> push_bit 6 2 OR push_bit 5 (of_bool p) OR push_bit 4 (of_bool x) OR (c AND 0x0F)"
  shows "drop_bit 6 b AND 3 = 2" "flag_bit b 5 = p" "flag_bit b 4 = x" "b AND 0x0F = c"
  using nibble_cases [OF assms(1)] unfolding b_def flag_bit_def
  by (cases p; cases x; auto)+

lemma second_byte_decode:
  fixes t :: u8 and m :: bool
  assumes "unat t < 128"
  defines "b \<equiv> push_bit 7 (of_bool m) OR (t AND 0x7F)"
  shows "flag_bit b 7 = m" "b AND 0x7F = t"
proof -
  have m: "(0x7F :: u8) = mask 7" by (simp add: mask_eq_exp_minus_1)
  have t: "take_bit 7 t = t"
    using assms(1) by (simp add: word_unat_eq_iff unsigned_take_bit_eq take_bit_nat_eq_self)
  have b: "b = push_bit 7 (of_bool m) OR take_bit 7 t"
    unfolding b_def m by (simp add: take_bit_eq_mask)
  show "flag_bit b 7 = m" unfolding flag_bit_iff b by (auto simp: bit_simps)
  have "b AND 0x7F = take_bit 7 b" by (simp add: m take_bit_eq_mask)
  also have "\<dots> = t" unfolding b by (subst (2) t [symmetric]) (auto intro!: bit_word_eqI simp: bit_simps)
  finally show "b AND 0x7F = t" .
qed

section \<open>Parsing and serialising\<close>

context bytes_crate
begin

lemma rtp_header_parse_eq:
  "rtp_header_parse B buf =
     (if length buf < 12 then Err (PacketTooShort 12 (length buf))
      else if drop_bit 6 (buf ! 0) AND 3 \<noteq> 2 then Err (InvalidRtpVersion (drop_bit 6 (buf ! 0) AND 3))
      else if length buf < 12 + unat (buf ! 0 AND 0x0F) * 4
      then Err (PacketTooShort (12 + unat (buf ! 0 AND 0x0F) * 4) (length buf))
      else Ok (\<lparr>version = drop_bit 6 (buf ! 0) AND 3, padding = flag_bit (buf ! 0) 5,
                extension = flag_bit (buf ! 0) 4, csrc_count = buf ! 0 AND 0x0F,
                marker = flag_bit (buf ! 1) 7, payload_type = buf ! 1 AND 0x7F,
                sequence_number = u16_from_be_bytes (buf ! 2) (buf ! 3),
                timestamp = u32_from_be_bytes (buf ! 4) (buf ! 5) (buf ! 6) (buf ! 7),
                rtp_ssrc = u32_from_be_bytes (buf ! 8) (buf ! 9) (buf ! 10) (buf ! 11)\<rparr>,
               12 + unat (buf ! 0 AND 0x0F) * 4))"
proof (cases "length buf < 12")
  case True
  then show ?thesis by (simp add: rtp_header_parse_def)
next
  case False
  then have "buf \<noteq> []" "drop (Suc 0) buf \<noteq> []" by auto
  with False show ?thesis
    by (simp add: rtp_header_parse_def reads Let_def) (simp add: numeral_2_eq_2 numeral_3_eq_3)
qed

lemma rtp_header_parse_no_panic: "rtp_header_parse B buf \<noteq> Panic"
  by (simp add: rtp_header_parse_eq)

lemma rtp_packet_parse_no_panic: "rtp_packet_parse B buf \<noteq> Panic"
  by (auto simp: rtp_packet_parse_def rtp_header_parse_no_panic Let_def rtp_header_parse_eq
      split: if_splits)

lemma rtp_header_serialize_eq:
  "rtp_header_serialize B h =
     [push_bit 6 (version h) OR push_bit 5 (of_bool (padding h))
      OR push_bit 4 (of_bool (extension h)) OR (csrc_count h AND 0x0F),
      push_bit 7 (of_bool (marker h)) OR (payload_type h AND 0x7F)]
     @ u16_to_be_bytes (sequence_number h) @ u32_to_be_bytes (timestamp h)
     @ u32_to_be_bytes (rtp_ssrc h)"
  by (simp add: rtp_header_serialize_def writes Let_def)

lemma length_rtp_header_serialize [simp]: "length (rtp_header_serialize B h) = 12"
  by (simp add: rtp_header_serialize_eq)

lemma rtp_header_roundtrip:
  assumes "rtp_header_wf h" "4 * unat (csrc_count h) \<le> length rest"
  shows "rtp_header_parse B (rtp_header_serialize B h @ rest) = Ok (h, 12 + 4 * unat (csrc_count h))"
  using assms first_byte_decode [of "csrc_count h" "padding h" "extension h"]
    second_byte_decode [of "payload_type h" "marker h"]
  by (auto simp: rtp_header_parse_eq rtp_header_serialize_eq rtp_header_wf_def
      u16_to_be_bytes_def u32_to_be_bytes_def)

end

text \<open>
  C31: A packet without CSRC entries survives the wire: for a well-formed header (version 2, a
  payload type of seven bits, a CSRC count of four) without extension and with CSRC count 0, parsing
  the serialised packet yields the header and payload that were serialised, and the parsed header
  length is 12, where the payload starts. With a CSRC count of \<open>cc\<close> the code writes the count but no
  entries, so parsing takes the first \<open>4 * cc\<close> bytes of the payload for them: the packet that comes
  back lacks these bytes, and a shorter payload is refused as too short.
\<close>

theorem rtp_packet_roundtrip:
  assumes "bytes_crate B" and "rtp_header_wf (header p)" and "\<not> extension (header p)"
  shows "(csrc_count (header p) = 0 \<longrightarrow> rtp_packet_parse B (rtp_packet_serialize B p) = Ok p
      \<and> rtp_header_parse B (rtp_packet_serialize B p) = Ok (header p, 12))
    \<and> rtp_packet_parse B (rtp_packet_serialize B p) =
       (let n = 4 * unat (csrc_count (header p)) in
        if n \<le> length (payload p) then Ok (p\<lparr>payload := drop n (payload p)\<rparr>)
        else Err (PacketTooShort (12 + n) (12 + length (payload p))))"
proof -
  let ?n = "4 * unat (csrc_count (header p))"
  have ser: "rtp_packet_serialize B p = rtp_header_serialize B (header p) @ payload p"
    using assms(1) by (simp add: rtp_packet_serialize_def bytes_crate.writes Let_def)
  note len = bytes_crate.length_rtp_header_serialize [OF assms(1)]
  have hdr: "rtp_header_parse B (rtp_header_serialize B (header p) @ payload p) = Ok (header p, 12 + ?n)" if "?n \<le> length (payload p)"
    using bytes_crate.rtp_header_roundtrip [OF assms(1,2) that] .
  have short: "rtp_header_parse B (rtp_header_serialize B (header p) @ payload p)
      = Err (PacketTooShort (12 + ?n) (12 + length (payload p)))" if "\<not> ?n \<le> length (payload p)"
    using that assms(2) first_byte_decode [of "csrc_count (header p)" "padding (header p)" "extension (header p)"]
    by (auto simp: bytes_crate.rtp_header_parse_eq [OF assms(1)] bytes_crate.rtp_header_serialize_eq [OF assms(1)]
        rtp_header_wf_def u16_to_be_bytes_def u32_to_be_bytes_def mult.commute)
  show ?thesis
    using hdr short assms(3) by (cases "csrc_count (header p) = 0"; cases "?n \<le> length (payload p)") (simp_all add: ser rtp_packet_parse_def len Let_def)
qed

theorem rtp_packet_roundtrip_witness:
  "rtp_packet_parse be_bytes_api
     (rtp_packet_serialize be_bytes_api \<lparr>header = new_ts 0xAABBCCDC 100 90000, payload = [0x47, 0, 0, 0x10]\<rparr>)
   = Ok \<lparr>header = new_ts 0xAABBCCDC 100 90000, payload = [0x47, 0, 0, 0x10]\<rparr>
   \<and> rtp_packet_parse be_bytes_api
     (rtp_packet_serialize be_bytes_api \<lparr>header = (new_ts 0xAABBCCDC 100 90000)\<lparr>csrc_count := 1\<rparr>, payload = [0x47, 0, 0, 0x10, 9]\<rparr>)
   = Ok \<lparr>header = (new_ts 0xAABBCCDC 100 90000)\<lparr>csrc_count := 1\<rparr>, payload = [9]\<rparr>"
  using rtp_packet_roundtrip [OF be.bytes_crate_axioms,
      of "\<lparr>header = new_ts 0xAABBCCDC 100 90000, payload = [0x47, 0, 0, 0x10]\<rparr>"]
    rtp_packet_roundtrip [OF be.bytes_crate_axioms,
      of "\<lparr>header = (new_ts 0xAABBCCDC 100 90000)\<lparr>csrc_count := 1\<rparr>, payload = [0x47, 0, 0, 0x10, 9]\<rparr>"]
  by (simp add: rtp_header_wf_def new_ts_def)

text \<open>The hot-path writer produces exactly the bytes of the header type's serialisation.\<close>

lemma write_rtp_header_eq:
  assumes "bytes_crate B"
  shows "write_rtp_header B buf src seq ts = buf @ rtp_header_serialize B (new_ts src seq ts)"
  using assms
  by (simp add: write_rtp_header_def new_ts_def bytes_crate.rtp_header_serialize_eq
      bytes_crate.writes Let_def)

text \<open>The retransmit flag and the logical SSRC split the SSRC into its low bit and the rest.\<close>

lemma is_retransmit_iff: "is_retransmit h \<longleftrightarrow> odd (rtp_ssrc h)"
  by (simp add: is_retransmit_def and_one_eq odd_iff_mod_2_eq_one)

lemma logical_ssrc_flagged: "logical_ssrc (h\<lparr>rtp_ssrc := s OR 1\<rparr>) = logical_ssrc (h\<lparr>rtp_ssrc := s\<rparr>)"
  by (auto intro!: bit_word_eqI simp: logical_ssrc_def bit_simps)

lemma logical_ssrc_even: "even (rtp_ssrc h) \<Longrightarrow> logical_ssrc h = rtp_ssrc h"
  by (auto intro!: bit_word_eqI simp: logical_ssrc_def bit_simps bit_0)

end
