(* ===== verification/Rist_Reports.thy ===== *)
theory Rist_Reports
  imports Rist_Prelude
begin

text \<open>
  The RTCP sender report (\<open>packet/rtcp_sr.rs\<close>) and receiver report (\<open>packet/rtcp_rr.rs\<close>) with
  its report blocks. Parsers take the bytes after the common header; serialisers write the whole
  sub-packet. The lemmas give each parser's closed form, its freedom from panics, and the round
  trips, including the sign extension of the 24-bit cumulative loss.
\<close>

unbundle bit_operations_syntax

section \<open>Sender report\<close>

definition RTCP_PT_SR :: u8 where
  [simp]: "RTCP_PT_SR = 200"

record SenderReport =
  sr_ssrc :: u32
  ntp_msw :: u32
  ntp_lsw :: u32
  rtp_timestamp :: u32
  sender_packet_count :: u32
  sender_octet_count :: u32

definition sr_parse :: "bytes_api \<Rightarrow> bytes \<Rightarrow> SenderReport res" where
  "sr_parse B buf =
     (if length buf < 24 then Err (PacketTooShort 24 (length buf))
      else
        reading (get_u32 B buf) (\<lambda>src r.
        reading (get_u32 B r) (\<lambda>msw r.
        reading (get_u32 B r) (\<lambda>lsw r.
        reading (get_u32 B r) (\<lambda>ts r.
        reading (get_u32 B r) (\<lambda>pc r.
        reading (get_u32 B r) (\<lambda>oc r.
        Ok \<lparr>sr_ssrc = src, ntp_msw = msw, ntp_lsw = lsw, rtp_timestamp = ts,
            sender_packet_count = pc, sender_octet_count = oc\<rparr>)))))))"

definition sr_serialize :: "bytes_api \<Rightarrow> SenderReport \<Rightarrow> bytes" where
  "sr_serialize B sr =
     (let buf = [];
          buf = put_u8 B buf 0x80;
          buf = put_u8 B buf RTCP_PT_SR;
          buf = put_u16 B buf 6;
          buf = put_u32 B buf (sr_ssrc sr);
          buf = put_u32 B buf (ntp_msw sr);
          buf = put_u32 B buf (ntp_lsw sr);
          buf = put_u32 B buf (rtp_timestamp sr);
          buf = put_u32 B buf (sender_packet_count sr);
          buf = put_u32 B buf (sender_octet_count sr)
      in buf)"

text \<open>The middle 32 bits of the NTP timestamp, echoed in a receiver report's LSR field.\<close>

definition compact_ntp :: "SenderReport \<Rightarrow> u32" where
  "compact_ntp sr = push_bit 16 (ntp_msw sr AND 0xFFFF) OR (drop_bit 16 (ntp_lsw sr) AND 0xFFFF)"

section \<open>Receiver report\<close>

definition RTCP_PT_RR :: u8 where
  [simp]: "RTCP_PT_RR = 201"

text \<open>\<open>cumulative_lost\<close> is an \<open>i32\<close>: its 32 bits, read with \<open>sint\<close>.\<close>

record ReportBlock =
  rb_ssrc :: u32
  fraction_lost :: u8
  cumulative_lost :: u32
  extended_highest_seq :: u32
  rb_jitter :: u32
  last_sr :: u32
  delay_since_last_sr :: u32

definition REPORT_BLOCK_SIZE :: nat where
  [simp]: "REPORT_BLOCK_SIZE = 24"

definition report_block_parse :: "bytes_api \<Rightarrow> bytes \<Rightarrow> ReportBlock res" where
  "report_block_parse B buf =
     (if length buf < REPORT_BLOCK_SIZE
      then Err (PacketTooShort REPORT_BLOCK_SIZE (length buf))
      else
        reading (get_u32 B buf) (\<lambda>src r.
        reading (get_u32 B r) (\<lambda>lost_word r.
        let fraction = ucast (drop_bit 24 lost_word);
            cumulative_raw = lost_word AND 0x00FFFFFF;
            cumulative = (if cumulative_raw AND 0x800000 \<noteq> 0
                          then cumulative_raw OR NOT 0x00FFFFFF else cumulative_raw)
        in
        reading (get_u32 B r) (\<lambda>high r.
        reading (get_u32 B r) (\<lambda>jit r.
        reading (get_u32 B r) (\<lambda>lsr r.
        reading (get_u32 B r) (\<lambda>dlsr r.
        Ok \<lparr>rb_ssrc = src, fraction_lost = fraction, cumulative_lost = cumulative,
            extended_highest_seq = high, rb_jitter = jit, last_sr = lsr,
            delay_since_last_sr = dlsr\<rparr>)))))))"

definition report_block_serialize :: "bytes_api \<Rightarrow> bytes \<Rightarrow> ReportBlock \<Rightarrow> bytes" where
  "report_block_serialize B buf rb =
     (let buf = put_u32 B buf (rb_ssrc rb);
          lost_word = push_bit 24 (ucast (fraction_lost rb)) OR (cumulative_lost rb AND 0x00FFFFFF);
          buf = put_u32 B buf lost_word;
          buf = put_u32 B buf (extended_highest_seq rb);
          buf = put_u32 B buf (rb_jitter rb);
          buf = put_u32 B buf (last_sr rb);
          buf = put_u32 B buf (delay_since_last_sr rb)
      in buf)"

record ReceiverReport =
  rr_ssrc :: u32
  reports :: "ReportBlock list"

text \<open>The loop \<open>for _ in 0..rc\<close> over the blocks, from \<open>offset\<close> on.\<close>

fun rr_parse_blocks :: "bytes_api \<Rightarrow> bytes \<Rightarrow> nat \<Rightarrow> nat \<Rightarrow> ReportBlock list res" where
  "rr_parse_blocks B buf offset 0 = Ok []"
| "rr_parse_blocks B buf offset (Suc n) =
     res_bind (slice_from buf offset) (\<lambda>s.
     res_bind (report_block_parse B s) (\<lambda>block.
     res_bind (rr_parse_blocks B buf (offset + REPORT_BLOCK_SIZE) n) (\<lambda>blocks.
     Ok (block # blocks))))"

definition rr_parse :: "bytes_api \<Rightarrow> bytes \<Rightarrow> u8 \<Rightarrow> ReceiverReport res" where
  "rr_parse B buf rc =
     (if length buf < 4 then Err (PacketTooShort 4 (length buf))
      else reading (get_u32 B buf) (\<lambda>src r.
        res_bind (rr_parse_blocks B buf 4 (unat rc)) (\<lambda>blocks.
        Ok \<lparr>rr_ssrc = src, reports = blocks\<rparr>)))"

definition rr_serialize :: "bytes_api \<Rightarrow> ReceiverReport \<Rightarrow> bytes" where
  "rr_serialize B rr =
     (let rc = of_nat (length (reports rr)) :: u8;
          len = 1 + (ucast rc :: u16) * 6;
          buf = [];
          buf = put_u8 B buf (0x80 OR (rc AND 0x1F));
          buf = put_u8 B buf RTCP_PT_RR;
          buf = put_u16 B buf len;
          buf = put_u32 B buf (rr_ssrc rr)
      in foldl (report_block_serialize B) buf (reports rr))"

definition rr_empty :: "u32 \<Rightarrow> ReceiverReport" where
  "rr_empty src = \<lparr>rr_ssrc = src, reports = []\<rparr>"

section \<open>The 24-bit signed field\<close>

text \<open>A loss count the 24-bit field can carry.\<close>

definition rb_wf :: "ReportBlock \<Rightarrow> bool" where
  "rb_wf rb \<longleftrightarrow> - 8388608 \<le> sint (cumulative_lost rb) \<and> sint (cumulative_lost rb) \<le> 8388607"

definition sign_extend24 :: "u32 \<Rightarrow> u32" where
  "sign_extend24 w =
     (let raw = w AND 0x00FFFFFF in if raw AND 0x800000 \<noteq> 0 then raw OR NOT 0x00FFFFFF else raw)"

lemma mask24: "(0x00FFFFFF :: u32) = mask 24"
  by (simp add: mask_eq_exp_minus_1)

lemma sign_extend24_eq: "sign_extend24 w = signed_take_bit 23 w"
proof -
  have e: "(0x800000 :: u32) = 2 ^ 23" by simp
  have "sign_extend24 w = (if bit w 23 then (w AND mask 24) OR NOT (mask 24) else w AND mask 24)"
    unfolding sign_extend24_def Let_def mask24 e
    by (simp only: and_exp_eq_0_iff_not_bit) (simp add: bit_simps)
  also have "\<dots> = signed_take_bit 23 w"
  proof (rule bit_word_eqI)
    fix n assume "n < LENGTH(32)"
    then consider "n < 23" | "n = 23" | "23 < n" "n < 32" by fastforce
    then show "bit (if bit w 23 then (w AND mask 24) OR NOT (mask 24) else w AND mask 24) n
        = bit (signed_take_bit 23 w) n"
      by cases (auto simp: bit_simps min_def)
  qed
  finally show ?thesis .
qed

lemma bit_sint_iff_below: "n < 32 \<Longrightarrow> bit (sint (c :: u32)) n \<longleftrightarrow> bit c n"
  by (simp add: bit_sint_iff)

text \<open>Counts within 24 bits are fixed by the sign extension.\<close>

lemma sign_extend24_fixed:
  assumes "- 8388608 \<le> sint (c :: u32)" "sint c \<le> 8388607"
  shows "sign_extend24 c = c"
proof -
  have "signed_take_bit 23 (sint c) = sint c"
    using assms by (intro signed_take_bit_int_eq_self) auto
  then have "bit (sint c) (min 23 n) = bit (sint c) n" for n
    by (metis bit_signed_take_bit_iff possible_bit_int min.commute)
  then have "bit c (min 23 n) = bit c n" if "n < 32" for n
    using that by (metis bit_sint_iff_below min_less_iff_disj)
  then show ?thesis
    unfolding sign_extend24_eq by (intro bit_word_eqI) (simp add: bit_simps)
qed

lemma lost_word_decode:
  fixes f :: u8 and c :: u32
  defines "w \<equiv> push_bit 24 (ucast f) OR (c AND 0x00FFFFFF)"
  shows "ucast (drop_bit 24 w) = f" "sign_extend24 w = sign_extend24 c"
proof -
  show "ucast (drop_bit 24 w) = f"
    unfolding w_def mask24 by (rule bit_word_eqI) (auto simp: bit_simps)
  have "w AND 0x00FFFFFF = c AND 0x00FFFFFF"
    unfolding w_def mask24 by (rule bit_word_eqI) (auto simp: bit_simps)
  then show "sign_extend24 w = sign_extend24 c"
    by (simp add: sign_extend24_def)
qed

section \<open>Closed forms and round trips\<close>

context bytes_crate
begin

lemma sr_parse_long: "24 \<le> length buf \<Longrightarrow> \<exists>sr. sr_parse B buf = Ok sr"
  by (simp add: sr_parse_def reads)

lemma sr_parse_no_panic: "sr_parse B buf \<noteq> Panic"
  using sr_parse_long [of buf] by (cases "length buf < 24") (auto simp: sr_parse_def [of B buf])

lemma sr_serialize_eq:
  "sr_serialize B sr = [0x80, RTCP_PT_SR] @ u16_to_be_bytes 6 @ u32_to_be_bytes (sr_ssrc sr)
     @ u32_to_be_bytes (ntp_msw sr) @ u32_to_be_bytes (ntp_lsw sr)
     @ u32_to_be_bytes (rtp_timestamp sr) @ u32_to_be_bytes (sender_packet_count sr)
     @ u32_to_be_bytes (sender_octet_count sr)"
  by (simp add: sr_serialize_def writes Let_def)

lemma length_sr_serialize [simp]: "length (sr_serialize B sr) = 28"
  by (simp add: sr_serialize_eq)

lemma sr_roundtrip: "sr_parse B (drop 4 (sr_serialize B sr)) = Ok sr"
proof -
  have "drop 4 (sr_serialize B sr) =  u32_to_be_bytes (sr_ssrc sr)
     @ u32_to_be_bytes (ntp_msw sr) @ u32_to_be_bytes (ntp_lsw sr)
     @ u32_to_be_bytes (rtp_timestamp sr) @ u32_to_be_bytes (sender_packet_count sr)
     @ u32_to_be_bytes (sender_octet_count sr) @ []"
    by (simp add: sr_serialize_eq u16_to_be_bytes_def)
  then show ?thesis by (simp add: sr_parse_def read_back del: append_Nil2)
qed

lemma report_block_parse_long:
  "24 \<le> length buf \<Longrightarrow> \<exists>rb. report_block_parse B buf = Ok rb"
  by (simp add: report_block_parse_def reads Let_def)

lemma report_block_parse_short:
  "length buf < 24 \<Longrightarrow> report_block_parse B buf = Err (PacketTooShort 24 (length buf))"
  by (simp add: report_block_parse_def)

lemma rr_parse_blocks_no_panic:
  "offset \<le> length buf \<Longrightarrow> rr_parse_blocks B buf offset n \<noteq> Panic"
proof (induction n arbitrary: offset)
  case (Suc n)
  then show ?case
    using report_block_parse_long [of "drop offset buf"] report_block_parse_short [of "drop offset buf"]
    by (cases "length (drop offset buf) < 24") auto
qed simp

lemma rr_parse_no_panic: "rr_parse B buf rc \<noteq> Panic"
  by (simp add: rr_parse_def reads rr_parse_blocks_no_panic)

lemma report_block_serialize_eq:
  "report_block_serialize B buf rb = buf @ report_block_serialize B [] rb"
  by (simp add: report_block_serialize_def writes Let_def)

lemma length_report_block_serialize [simp]:
  "length (report_block_serialize B buf rb) = length buf + 24"
  by (simp add: report_block_serialize_def writes Let_def)

lemma report_block_roundtrip:
  assumes "rb_wf rb"
  shows "report_block_parse B (report_block_serialize B [] rb @ rest) = Ok rb"
  using assms lost_word_decode [of "fraction_lost rb" "cumulative_lost rb"]
    sign_extend24_fixed [of "cumulative_lost rb"]
  by (simp add: report_block_parse_def report_block_serialize_def writes read_back
      rb_wf_def sign_extend24_def Let_def)

lemma rr_serialize_fold:
  "foldl (report_block_serialize B) buf bs
   = buf @ concat (map (report_block_serialize B []) bs)"
proof (induction bs arbitrary: buf)
  case (Cons b bs)
  show ?case
    by (subst foldl_Cons, subst Cons.IH) (simp add: report_block_serialize_eq [of buf b])
qed simp

lemma rr_parse_blocks_roundtrip:
  assumes "\<forall>rb \<in> set bs. rb_wf rb"
  shows "rr_parse_blocks B (pre @ concat (map (report_block_serialize B []) bs)) (length pre) (length bs) = Ok bs"
  using assms
proof (induction bs arbitrary: pre)
  case (Cons b bs)
  have "rr_parse_blocks B ((pre @ report_block_serialize B [] b) @ concat (map (report_block_serialize B []) bs))
      (length (pre @ report_block_serialize B [] b)) (length bs) = Ok bs"
    by (rule Cons.IH) (use Cons.prems in simp)
  then show ?case
    using Cons.prems by (simp add: report_block_roundtrip add.commute)
qed simp

lemma rr_serialize_eq:
  "rr_serialize B rr =
     [0x80 OR (of_nat (length (reports rr)) AND 0x1F), RTCP_PT_RR]
     @ u16_to_be_bytes (1 + ucast (of_nat (length (reports rr)) :: u8) * 6)
     @ u32_to_be_bytes (rr_ssrc rr) @ concat (map (report_block_serialize B []) (reports rr))"
  by (simp add: rr_serialize_def rr_serialize_fold writes Let_def)

lemma rr_roundtrip:
  assumes "\<forall>rb \<in> set (reports rr). rb_wf rb" "length (reports rr) < 256"
  shows "rr_parse B (drop 4 (rr_serialize B rr)) (of_nat (length (reports rr))) = Ok rr"
proof -
  have body: "drop 4 (rr_serialize B rr) =
      u32_to_be_bytes (rr_ssrc rr) @ concat (map (report_block_serialize B []) (reports rr))"
    by (simp add: rr_serialize_eq u16_to_be_bytes_def)
  have "rr_parse_blocks B (drop 4 (rr_serialize B rr)) 4 (length (reports rr)) = Ok (reports rr)"
    using rr_parse_blocks_roundtrip [OF assms(1), of "u32_to_be_bytes (rr_ssrc rr)"]
    by (simp add: body)
  with assms(2) show ?thesis
    unfolding rr_parse_def body by (simp add: read_back unat_of_nat)
qed

lemma length_rr_serialize:
  "length (rr_serialize B rr) = 8 + 24 * length (reports rr)"
proof -
  have "length (concat (map (report_block_serialize B []) bs)) = 24 * length bs" for bs
    by (induction bs) auto
  then show ?thesis by (simp add: rr_serialize_eq)
qed

end

end
