(* ===== verification/Rist_Sdes.thy ===== *)
theory Rist_Sdes
  imports Rist_Prelude
begin

text \<open>
  The RTCP source description of \<open>packet/rtcp_sdes.rs\<close>: one chunk with one CNAME item. A Rust
  \<open>String\<close> is its UTF-8 bytes; \<open>String::from_utf8_lossy\<close> of the standard library is modelled
  byte for byte, replacing each maximal ill-formed prefix by U+FFFD. The lemmas show alignment
  of the packet, the round trip for names of up to 255 bytes, and what longer names become.
\<close>

unbundle bit_operations_syntax

section \<open>Lossy UTF-8 decoding\<close>

text \<open>A byte past the end reads as 0, as in the library's decoder.\<close>

definition safe_get :: "bytes \<Rightarrow> nat \<Rightarrow> u8" where
  "safe_get s i = (if i < length s then s ! i else 0)"

definition is_cont :: "u8 \<Rightarrow> bool" where
  "is_cont b \<longleftrightarrow> 0x80 \<le> b \<and> b \<le> 0xBF"

definition utf8_char_width :: "u8 \<Rightarrow> nat" where
  "utf8_char_width b =
     (if b < 0x80 then 1
      else if 0xC2 \<le> b \<and> b \<le> 0xDF then 2
      else if 0xE0 \<le> b \<and> b \<le> 0xEF then 3
      else if 0xF0 \<le> b \<and> b \<le> 0xF4 then 4
      else 0)"

definition second_of_3 :: "u8 \<Rightarrow> u8 \<Rightarrow> bool" where
  "second_of_3 b c \<longleftrightarrow>
     (b = 0xE0 \<and> 0xA0 \<le> c \<and> c \<le> 0xBF) \<or> (0xE1 \<le> b \<and> b \<le> 0xEC \<and> is_cont c)
     \<or> (b = 0xED \<and> 0x80 \<le> c \<and> c \<le> 0x9F) \<or> (0xEE \<le> b \<and> b \<le> 0xEF \<and> is_cont c)"

definition second_of_4 :: "u8 \<Rightarrow> u8 \<Rightarrow> bool" where
  "second_of_4 b c \<longleftrightarrow>
     (b = 0xF0 \<and> 0x90 \<le> c \<and> c \<le> 0xBF) \<or> (0xF1 \<le> b \<and> b \<le> 0xF3 \<and> is_cont c)
     \<or> (b = 0xF4 \<and> 0x80 \<le> c \<and> c \<le> 0x8F)"

text \<open>
  One step on a non-empty input: whether it starts with a well-formed sequence, and how many
  bytes that sequence (or the ill-formed prefix) has.
\<close>

definition utf8_seq :: "bytes \<Rightarrow> bool \<times> nat" where
  "utf8_seq s =
     (let b = safe_get s 0; w = utf8_char_width b in
      if w = 1 then (True, 1)
      else if w = 2 then (if is_cont (safe_get s 1) then (True, 2) else (False, 1))
      else if w = 3 then
        (if \<not> second_of_3 b (safe_get s 1) then (False, 1)
         else if \<not> is_cont (safe_get s 2) then (False, 2) else (True, 3))
      else if w = 4 then
        (if \<not> second_of_4 b (safe_get s 1) then (False, 1)
         else if \<not> is_cont (safe_get s 2) then (False, 2)
         else if \<not> is_cont (safe_get s 3) then (False, 3) else (True, 4))
      else (False, 1))"

lemma utf8_seq_pos: "0 < snd (utf8_seq s)"
  by (simp add: utf8_seq_def Let_def)

lemma utf8_seq_shortens: "s \<noteq> [] \<Longrightarrow> (ok, n) = utf8_seq s \<Longrightarrow> length s - n < length s"
  using utf8_seq_pos [of s] by (cases "utf8_seq s") simp

function from_utf8_lossy :: "bytes \<Rightarrow> bytes" where
  "from_utf8_lossy s =
     (if s = [] then []
      else let (ok, n) = utf8_seq s
           in (if ok then take n s else [0xEF, 0xBF, 0xBD]) @ from_utf8_lossy (drop n s))"
  by pat_completeness auto
termination
  by (relation "measure length") (auto simp: utf8_seq_shortens)

function utf8_valid :: "bytes \<Rightarrow> bool" where
  "utf8_valid s =
     (if s = [] then True
      else let (ok, n) = utf8_seq s in if ok then utf8_valid (drop n s) else False)"
  by pat_completeness auto
termination
  by (relation "measure length") (auto simp: utf8_seq_shortens)

declare from_utf8_lossy.simps [simp del] utf8_valid.simps [simp del]

section \<open>Packet\<close>

definition RTCP_PT_SDES :: u8 where
  [simp]: "RTCP_PT_SDES = 202"

definition SDES_CNAME :: u8 where
  [simp]: "SDES_CNAME = 1"

record Sdes =
  sdes_ssrc :: u32
  cname :: bytes

text \<open>Decimal rendering, for the formatted error message.\<close>

fun show_nat :: "nat \<Rightarrow> string" where
  "show_nat n = (if n < 10 then [char_of (48 + n)] else show_nat (n div 10) @ [char_of (48 + n mod 10)])"

declare show_nat.simps [simp del]

definition sdes_parse :: "bytes \<Rightarrow> Sdes res" where
  "sdes_parse buf =
     (if length buf < 6 then Err (PacketTooShort 6 (length buf))
      else
        res_bind (byte_at buf 0) (\<lambda>b0. res_bind (byte_at buf 1) (\<lambda>b1.
        res_bind (byte_at buf 2) (\<lambda>b2. res_bind (byte_at buf 3) (\<lambda>b3.
        let src = u32_from_be_bytes b0 b1 b2 b3 in
        res_bind (byte_at buf 4) (\<lambda>item_type.
        if item_type \<noteq> SDES_CNAME
        then Err (Other (''expected SDES CNAME (type 1), got type '' @ show_nat (unat item_type)))
        else res_bind (byte_at buf 5) (\<lambda>len_byte.
          let name_len = unat len_byte in
          if length buf < 6 + name_len then Err (PacketTooShort (6 + name_len) (length buf))
          else res_bind (slice_range buf 6 (6 + name_len)) (\<lambda>name.
            Ok \<lparr>sdes_ssrc = src, cname = from_utf8_lossy name\<rparr>))))))))"

definition sdes_serialize :: "bytes_api \<Rightarrow> Sdes \<Rightarrow> bytes" where
  "sdes_serialize B sdes =
     (let cname_bytes = cname sdes;
          name_len = length cname_bytes;
          chunk_len = 4 + 2 + name_len;
          padding_needed = (4 - chunk_len mod 4) mod 4;
          padding_needed = (if padding_needed = 0 then 4 else padding_needed);
          total_chunk_len = chunk_len + padding_needed;
          length_words = (4 + total_chunk_len) div 4 - 1;
          buf = [];
          buf = put_u8 B buf 0x81;
          buf = put_u8 B buf RTCP_PT_SDES;
          buf = put_u16 B buf (of_nat length_words);
          buf = put_u32 B buf (sdes_ssrc sdes);
          buf = put_u8 B buf SDES_CNAME;
          buf = put_u8 B buf (of_nat name_len);
          buf = put_slice B buf cname_bytes
      in foldl (\<lambda>buf _. put_u8 B buf 0) buf [0..<padding_needed])"

section \<open>Facts about decoding\<close>

lemma from_utf8_lossy_Nil [simp]: "from_utf8_lossy [] = []" and utf8_valid_Nil [simp]: "utf8_valid []"
  by (simp_all add: from_utf8_lossy.simps utf8_valid.simps)

lemma from_utf8_lossy_valid: "utf8_valid s \<Longrightarrow> from_utf8_lossy s = s"
proof (induction s rule: from_utf8_lossy.induct)
  case (1 s)
  then show ?case
    by (cases "s = []") (auto simp: from_utf8_lossy.simps [of s] utf8_valid.simps [of s]
        split: prod.splits if_splits)
qed

text \<open>ASCII names, such as the rendered socket address the tasks use by default, are valid.\<close>

lemma utf8_valid_ascii: "\<forall>b \<in> set s. b < 0x80 \<Longrightarrow> utf8_valid s"
proof (induction s)
  case (Cons b s)
  then have "utf8_seq (b # s) = (True, 1)"
    by (simp add: utf8_seq_def utf8_char_width_def safe_get_def)
  with Cons show ?case by (simp add: utf8_valid.simps [of "b # s"])
qed simp

section \<open>Closed form and round trip\<close>

lemma sdes_parse_no_panic: "sdes_parse buf \<noteq> Panic"
  by (auto simp: sdes_parse_def byte_at_def Let_def)

definition sdes_padding :: "nat \<Rightarrow> nat" where
  "sdes_padding name_len = 4 - (2 + name_len) mod 4"

text \<open>A name the one-byte length field can carry.\<close>

definition sdes_wf :: "Sdes \<Rightarrow> bool" where
  "sdes_wf sdes \<longleftrightarrow> length (cname sdes) \<le> 255 \<and> utf8_valid (cname sdes)"

lemma sdes_padding_bounds: "1 \<le> sdes_padding n" "sdes_padding n \<le> 4"
  by (auto simp: sdes_padding_def Suc_le_eq)

lemma sdes_padding_eq:
  "(let p = (4 - (4 + 2 + n) mod 4) mod 4 in if p = 0 then 4 else p) = sdes_padding n"
proof -
  have "(4 + 2 + n) mod 4 = (2 + n) mod 4" by presburger
  moreover have "(let p = (4 - r) mod 4 in if p = 0 then 4 else p) = 4 - r" if "r < 4" for r :: nat
    using that by (cases "r = 0") (auto simp: Let_def)
  ultimately show ?thesis by (simp add: sdes_padding_def)
qed

lemma foldl_append_const: "foldl (\<lambda>buf _. buf @ [z]) buf xs = buf @ replicate (length xs) z"
  by (induction xs arbitrary: buf) simp_all

lemma sdes_total_aligned: "(10 + n + sdes_padding n) mod 4 = 0"
  unfolding sdes_padding_def by presburger

context bytes_crate
begin

lemma sdes_serialize_eq:
  "sdes_serialize B sdes =
     [0x81, RTCP_PT_SDES]
     @ u16_to_be_bytes (of_nat ((10 + length (cname sdes) + sdes_padding (length (cname sdes))) div 4 - 1))
     @ u32_to_be_bytes (sdes_ssrc sdes) @ [SDES_CNAME, of_nat (length (cname sdes))] @ cname sdes
     @ replicate (sdes_padding (length (cname sdes))) 0"
  unfolding sdes_serialize_def
  using sdes_padding_eq [of "length (cname sdes)"]
  by (simp add: foldl_append_const writes Let_def add.assoc)

lemma length_sdes_serialize:
  "length (sdes_serialize B sdes) = 10 + length (cname sdes) + sdes_padding (length (cname sdes))"
  by (simp add: sdes_serialize_eq)

text \<open>For a name of any length, the parser sees the name cut to its length modulo 256.\<close>

lemma sdes_parse_serialize:
  "sdes_parse (drop 4 (sdes_serialize B sdes)) =
     Ok \<lparr>sdes_ssrc = sdes_ssrc sdes,
         cname = from_utf8_lossy (take (length (cname sdes) mod 256) (cname sdes))\<rparr>"
proof -
  have "drop 4 (sdes_serialize B sdes) = u32_to_be_bytes (sdes_ssrc sdes)
      @ SDES_CNAME # of_nat (length (cname sdes)) # cname sdes
      @ replicate (sdes_padding (length (cname sdes))) 0"
    by (simp add: sdes_serialize_eq u16_to_be_bytes_def)
  moreover have "length (cname sdes) mod 256 \<le> length (cname sdes)" by simp
  ultimately show ?thesis
    by (simp add: sdes_parse_def u32_to_be_bytes_def unat_of_nat Let_def)
qed

lemma sdes_roundtrip: "sdes_wf sdes \<Longrightarrow> sdes_parse (drop 4 (sdes_serialize B sdes)) = Ok sdes"
  by (simp add: sdes_parse_serialize sdes_wf_def from_utf8_lossy_valid)

end

text \<open>
  A name of 256 bytes or more does not survive: its length field keeps the length modulo 256,
  so the peer reads only that many bytes of the name.
\<close>

lemma sdes_long_name_truncated:
  assumes "bytes_crate B" and "utf8_valid (take (length (cname s) mod 256) (cname s))"
    and "256 \<le> length (cname s)"
  shows "sdes_parse (drop 4 (sdes_serialize B s)) =
      Ok (s\<lparr>cname := take (length (cname s) mod 256) (cname s)\<rparr>)
    \<and> sdes_parse (drop 4 (sdes_serialize B s)) \<noteq> Ok s"
proof -
  have eq: "sdes_parse (drop 4 (sdes_serialize B s)) = Ok (s\<lparr>cname := take (length (cname s) mod 256) (cname s)\<rparr>)"
    using bytes_crate.sdes_parse_serialize [OF assms(1), of s] assms(2)
    by (cases s) (simp add: from_utf8_lossy_valid)
  have "length (take (length (cname s) mod 256) (cname s)) < 256" by (simp add: min_less_iff_disj)
  with assms(3) have "take (length (cname s) mod 256) (cname s) \<noteq> cname s" by auto
  with eq show ?thesis by (cases s) simp
qed

end
