(* ===== verification/Rist_Nack.thy ===== *)
theory Rist_Nack
  imports Rist_Prelude
begin

text \<open>
  The PT=205 NACK packets of \<open>packet/rtcp_nack.rs\<close>: bitmask and range entries, parsing,
  serialisation, and the builder that packs lost sequence numbers. The lemmas show that an
  encoded request names exactly the numbers it was built from, and the round trips.
\<close>

unbundle bit_operations_syntax

section \<open>Entries\<close>

definition RTCP_PT_RTPFB :: u8 where
  [simp]: "RTCP_PT_RTPFB = 205"

definition NACK_FMT_GENERIC :: u8 where
  [simp]: "NACK_FMT_GENERIC = 1"

definition NACK_FMT_RANGE :: u8 where
  [simp]: "NACK_FMT_RANGE = 15"

record BitmaskNack =
  pid :: u16
  blp :: u16

definition bitmask_lost_seqs :: "BitmaskNack \<Rightarrow> u16 list" where
  "bitmask_lost_seqs n =
     pid n # List.map_filter
       (\<lambda>i. if blp n AND push_bit i 1 \<noteq> 0 then Some (pid n + (of_nat i + 1)) else None) [0..<16]"

record RangeNack =
  start :: u16
  extra :: u16

definition range_lost_seqs :: "RangeNack \<Rightarrow> u16 list" where
  "range_lost_seqs n = (let count = unat (extra n) + 1 in map (\<lambda>i. start n + of_nat i) [0..<count])"

datatype NackEntries = Bitmask "BitmaskNack list" | Range "RangeNack list"

record NackPacket =
  nack_sender_ssrc :: u32
  nack_media_ssrc :: u32
  entries :: NackEntries

text \<open>The sequence numbers a whole packet names, in the order the sender walks them.\<close>

fun nack_lost_seqs :: "NackEntries \<Rightarrow> u16 list" where
  "nack_lost_seqs (Bitmask v) = concat (map bitmask_lost_seqs v)"
| "nack_lost_seqs (Range v) = concat (map range_lost_seqs v)"

section \<open>Wire format\<close>

text \<open>The entry loop of both formats: \<open>num_entries\<close> pairs of 16-bit words.\<close>

fun read_u16_pairs :: "bytes_api \<Rightarrow> bytes \<Rightarrow> nat \<Rightarrow> (u16 \<times> u16) list res" where
  "read_u16_pairs B r 0 = Ok []"
| "read_u16_pairs B r (Suc n) =
     reading (get_u16 B r) (\<lambda>a r. reading (get_u16 B r) (\<lambda>b r.
     res_bind (read_u16_pairs B r n) (\<lambda>ps. Ok ((a, b) # ps))))"

definition nack_parse :: "bytes_api \<Rightarrow> bytes \<Rightarrow> u8 \<Rightarrow> nat \<Rightarrow> NackPacket res" where
  "nack_parse B buf fmt payload_len =
     (if length buf < 8 then Err (PacketTooShort 8 (length buf))
      else
        reading (get_u32 B buf) (\<lambda>sender r.
        reading (get_u32 B r) (\<lambda>media r.
        let fci_len = payload_len - 8; num_entries = fci_len div 4 in
        res_bind
          (if fmt = NACK_FMT_GENERIC then
             res_bind (read_u16_pairs B r num_entries) (\<lambda>ps.
               Ok (Bitmask (map (\<lambda>(p, b). \<lparr>pid = p, blp = b\<rparr>) ps)))
           else if fmt = NACK_FMT_RANGE then
             res_bind (read_u16_pairs B r num_entries) (\<lambda>ps.
               Ok (Range (map (\<lambda>(s, e). \<lparr>start = s, extra = e\<rparr>) ps)))
           else Err (InvalidNackFormat fmt))
          (\<lambda>es. Ok \<lparr>nack_sender_ssrc = sender, nack_media_ssrc = media, entries = es\<rparr>))))"

fun nack_fmt_count :: "NackEntries \<Rightarrow> u8 \<times> nat" where
  "nack_fmt_count (Bitmask v) = (NACK_FMT_GENERIC, length v)"
| "nack_fmt_count (Range v) = (NACK_FMT_RANGE, length v)"

fun put_nack_entries :: "bytes_api \<Rightarrow> bytes \<Rightarrow> NackEntries \<Rightarrow> bytes" where
  "put_nack_entries B buf (Bitmask v) =
     foldl (\<lambda>buf n. put_u16 B (put_u16 B buf (pid n)) (blp n)) buf v"
| "put_nack_entries B buf (Range v) =
     foldl (\<lambda>buf n. put_u16 B (put_u16 B buf (start n)) (extra n)) buf v"

definition nack_serialize :: "bytes_api \<Rightarrow> NackPacket \<Rightarrow> bytes" where
  "nack_serialize B p =
     (let (fmt, entry_count) = nack_fmt_count (entries p);
          length_words = 2 + entry_count;
          buf = [];
          buf = put_u8 B buf (0x80 OR (fmt AND 0x1F));
          buf = put_u8 B buf RTCP_PT_RTPFB;
          buf = put_u16 B buf (of_nat length_words);
          buf = put_u32 B buf (nack_sender_ssrc p);
          buf = put_u32 B buf (nack_media_ssrc p)
      in put_nack_entries B buf (entries p))"

section \<open>Builder\<close>

record NackListBuilder =
  b_sender_ssrc :: u32
  b_media_ssrc :: u32

text \<open>
  The inner loop of \<open>build_bitmask\<close>: extend the mask while the next number is 1 to 16 after
  the packet id; the unread suffix of the input is returned.
\<close>

fun bitmask_extend :: "u16 \<Rightarrow> u16 \<Rightarrow> u16 list \<Rightarrow> u16 \<times> u16 list" where
  "bitmask_extend p m [] = (m, [])"
| "bitmask_extend p m (x # xs) =
     (let diff = x - p in
      if 1 \<le> diff \<and> diff \<le> 16 then bitmask_extend p (m OR push_bit (unat (diff - 1)) 1) xs
      else (m, x # xs))"

lemma bitmask_extend_length: "length (snd (bitmask_extend p m xs)) \<le> length xs"
  by (induction p m xs rule: bitmask_extend.induct) (auto simp: Let_def)

function bitmask_groups :: "u16 list \<Rightarrow> BitmaskNack list" where
  "bitmask_groups [] = []"
| "bitmask_groups (p # xs) =
     (case bitmask_extend p 0 xs of (m, rest) \<Rightarrow> \<lparr>pid = p, blp = m\<rparr> # bitmask_groups rest)"
  by pat_completeness auto
termination
proof (relation "measure length", goal_cases)
  case (2 p xs m rest)
  then show ?case
    using bitmask_extend_length [of p 0 xs] by (metis in_measure le_imp_less_Suc length_Cons snd_conv)
qed simp

definition build_bitmask :: "NackListBuilder \<Rightarrow> u16 list \<Rightarrow> NackPacket" where
  "build_bitmask b lost_seqs =
     \<lparr>nack_sender_ssrc = b_sender_ssrc b, nack_media_ssrc = b_media_ssrc b,
      entries = Bitmask (bitmask_groups lost_seqs)\<rparr>"

text \<open>The inner loop of \<open>build_range\<close>, and the outer one.\<close>

fun range_extend :: "u16 \<Rightarrow> u16 \<Rightarrow> u16 list \<Rightarrow> u16 \<times> u16 list" where
  "range_extend s e [] = (e, [])"
| "range_extend s e (x # xs) =
     (if x = s + (e + 1) then range_extend s (e + 1) xs else (e, x # xs))"

lemma range_extend_length: "length (snd (range_extend s e xs)) \<le> length xs"
  by (induction s e xs rule: range_extend.induct) auto

function range_groups :: "u16 list \<Rightarrow> RangeNack list" where
  "range_groups [] = []"
| "range_groups (s # xs) =
     (case range_extend s 0 xs of (e, rest) \<Rightarrow> \<lparr>start = s, extra = e\<rparr> # range_groups rest)"
  by pat_completeness auto
termination
proof (relation "measure length", goal_cases)
  case (2 s xs e rest)
  then show ?case
    using range_extend_length [of s 0 xs] by (metis in_measure le_imp_less_Suc length_Cons snd_conv)
qed simp

definition build_range :: "NackListBuilder \<Rightarrow> u16 list \<Rightarrow> NackPacket" where
  "build_range b lost_seqs =
     \<lparr>nack_sender_ssrc = b_sender_ssrc b, nack_media_ssrc = b_media_ssrc b,
      entries = Range (range_groups lost_seqs)\<rparr>"

section \<open>What the builders name\<close>

lemma bitmask_lost_seqs_eq:
  "bitmask_lost_seqs n = pid n # map (\<lambda>i. pid n + of_nat (Suc i)) (filter (bit (blp n)) [0..<16])"
proof -
  have "List.map_filter (\<lambda>i. if blp n AND push_bit i 1 \<noteq> 0 then Some (pid n + (of_nat i + 1)) else None) xs
      = map (\<lambda>i. pid n + of_nat (Suc i)) (filter (bit (blp n)) xs)" for xs
    by (induction xs) (simp_all add: and_exp_eq_0_iff_not_bit add.commute add.left_commute)
  then show ?thesis by (simp add: bitmask_lost_seqs_def)
qed

lemma set_bitmask_lost_seqs:
  "set (bitmask_lost_seqs n) = insert (pid n) {pid n + of_nat (Suc i) | i. i < 16 \<and> bit (blp n) i}"
  unfolding bitmask_lost_seqs_eq by auto

lemma bitmask_lost_seqs_extend:
  assumes "1 \<le> x - p" "x - p \<le> (16 :: u16)"
  shows "set (bitmask_lost_seqs \<lparr>pid = p, blp = m OR 2 ^ unat (x - p - 1)\<rparr>)
    = insert x (set (bitmask_lost_seqs \<lparr>pid = p, blp = m\<rparr>))"
proof -
  define k where "k = unat (x - p - 1)"
  have "unat (x - p) = Suc k" "k < 16"
    using assms unfolding k_def by (auto simp: word_le_nat_alt unat_sub)
  then have x: "p + of_nat (Suc k) = x" using u16_eq_plus_offset [of x p] by simp
  have "bit (m OR 2 ^ k) i \<longleftrightarrow> bit m i \<or> i = k" if "i < 16" for i
    using that \<open>k < 16\<close> by (auto simp: bit_simps)
  then have "{p + of_nat (Suc i) | i. i < 16 \<and> bit (m OR 2 ^ k) i}
      = insert (p + of_nat (Suc k)) {p + of_nat (Suc i) | i. i < 16 \<and> bit m i}"
    using \<open>k < 16\<close> by (auto cong: conj_cong)
  then show ?thesis
    unfolding set_bitmask_lost_seqs x k_def [symmetric] by (simp add: insert_commute)
qed

lemma set_bitmask_extend:
  "bitmask_extend p m xs = (m', rest) \<Longrightarrow>
     set (bitmask_lost_seqs \<lparr>pid = p, blp = m'\<rparr>) \<union> set rest
     = set (bitmask_lost_seqs \<lparr>pid = p, blp = m\<rparr>) \<union> set xs"
proof (induction p m xs rule: bitmask_extend.induct)
  case (2 p m x xs)
  show ?case
  proof (cases "1 \<le> x - p \<and> x - p \<le> 16")
    case True
    with 2 have "set (bitmask_lost_seqs \<lparr>pid = p, blp = m'\<rparr>) \<union> set rest
        = set (bitmask_lost_seqs \<lparr>pid = p, blp = m OR 2 ^ unat (x - p - 1)\<rparr>) \<union> set xs"
      by (simp add: Let_def)
    with True show ?thesis by (simp add: bitmask_lost_seqs_extend)
  next
    case False
    with "2.prems" show ?thesis by (auto simp: Let_def)
  qed
qed simp

lemma bitmask_lost_seqs_single: "set (bitmask_lost_seqs \<lparr>pid = p, blp = 0\<rparr>) = {p}"
  by (simp add: set_bitmask_lost_seqs)

lemma set_bitmask_groups: "set (concat (map bitmask_lost_seqs (bitmask_groups ls))) = set ls"
proof (induction ls rule: bitmask_groups.induct)
  case (2 p xs)
  obtain m rest where ext: "bitmask_extend p 0 xs = (m, rest)" by fastforce
  with 2 have "set (concat (map bitmask_lost_seqs (bitmask_groups rest))) = set rest" by simp
  with ext set_bitmask_extend [OF ext] show ?case by (simp add: bitmask_lost_seqs_single)
qed simp

lemma length_bitmask_groups: "length (bitmask_groups ls) \<le> length ls"
proof (induction ls rule: bitmask_groups.induct)
  case (2 p xs)
  then show ?case using bitmask_extend_length [of p 0 xs]
    by (auto split: prod.splits)
qed simp

lemma range_extend_append:
  "range_extend s e xs = (e', rest) \<Longrightarrow> unat e + length xs < 65536 \<Longrightarrow>
     range_lost_seqs \<lparr>start = s, extra = e'\<rparr> @ rest = range_lost_seqs \<lparr>start = s, extra = e\<rparr> @ xs"
proof (induction s e xs rule: range_extend.induct)
  case (2 s e x xs)
  show ?case
  proof (cases "x = s + (e + 1)")
    case True
    have e1: "unat (e + 1) = unat e + 1"
      using "2.prems"(2) by (simp add: unat_word_ariths)
    have "range_lost_seqs \<lparr>start = s, extra = e + 1\<rparr> = range_lost_seqs \<lparr>start = s, extra = e\<rparr> @ [x]"
      by (simp add: range_lost_seqs_def e1 True add.assoc)
    moreover have "range_lost_seqs \<lparr>start = s, extra = e'\<rparr> @ rest
        = range_lost_seqs \<lparr>start = s, extra = e + 1\<rparr> @ xs"
      using 2 True e1 by simp
    ultimately show ?thesis by simp
  next
    case False
    with "2.prems" show ?thesis by auto
  qed
qed simp

lemma range_lost_seqs_single: "range_lost_seqs \<lparr>start = s, extra = 0\<rparr> = [s]"
  by (simp add: range_lost_seqs_def)

lemma range_groups_exact: "length ls < 65536 \<Longrightarrow> concat (map range_lost_seqs (range_groups ls)) = ls"
proof (induction ls rule: range_groups.induct)
  case (2 s xs)
  obtain e rest where ext: "range_extend s 0 xs = (e, rest)" by fastforce
  with range_extend_length [of s 0 xs] 2 have "concat (map range_lost_seqs (range_groups rest)) = rest"
    by simp
  with ext range_extend_append [OF ext] "2.prems" show ?case by (simp add: range_lost_seqs_single)
qed simp

text \<open>
  C30: The bitmask builder asks for exactly the packets that are missing: for any list of lost
  sequence numbers, in any order and across the wrap-around, the entries of the built packet
  name each number of the list and no other, in no more entries than there are numbers.
\<close>

theorem build_bitmask_names_exactly:
  "set (nack_lost_seqs (entries (build_bitmask b ls))) = set ls
   \<and> snd (nack_fmt_count (entries (build_bitmask b ls))) \<le> length ls"
  using set_bitmask_groups [of ls] length_bitmask_groups [of ls] by (simp add: build_bitmask_def)

text \<open>
  The range builder is exact and keeps the order: the expansion of the built ranges is the
  input list itself, for lists of fewer than 65536 numbers (the run length is 16 bits).
\<close>

lemma build_range_expands_to_input:
  assumes "length ls < 65536"
  shows "nack_lost_seqs (entries (build_range b ls)) = ls"
  using range_groups_exact [OF assms] by (simp add: build_range_def)

section \<open>Round trips\<close>

text \<open>A packet the PT=205 length field can carry.\<close>

definition nack_wf :: "NackPacket \<Rightarrow> bool" where
  "nack_wf p \<longleftrightarrow> snd (nack_fmt_count (entries p)) + 2 < 65536"

fun entry_pairs :: "NackEntries \<Rightarrow> (u16 \<times> u16) list" where
  "entry_pairs (Bitmask v) = map (\<lambda>n. (pid n, blp n)) v"
| "entry_pairs (Range v) = map (\<lambda>n. (start n, extra n)) v"

definition pairs_bytes :: "(u16 \<times> u16) list \<Rightarrow> bytes" where
  "pairs_bytes ps = concat (map (\<lambda>(a, b). u16_to_be_bytes a @ u16_to_be_bytes b) ps)"

lemma pairs_bytes_simps [simp]:
  "pairs_bytes [] = []"
  "pairs_bytes ((a, b) # ps) = u16_to_be_bytes a @ u16_to_be_bytes b @ pairs_bytes ps"
  by (simp_all add: pairs_bytes_def)

lemma length_pairs_bytes [simp]: "length (pairs_bytes ps) = 4 * length ps"
  by (induction ps) auto

lemma nack_record_eta [simp]:
  "\<lparr>pid = pid m, blp = blp m\<rparr> = m" "\<lparr>start = start r, extra = extra r\<rparr> = r"
  "\<lparr>nack_sender_ssrc = nack_sender_ssrc p, nack_media_ssrc = nack_media_ssrc p, entries = entries p\<rparr> = p"
  by (cases m; cases r; cases p; simp)+

lemma length_entry_pairs [simp]: "length (entry_pairs es) = snd (nack_fmt_count es)"
  by (cases es) auto

context bytes_crate
begin

lemma read_u16_pairs_back: "read_u16_pairs B (pairs_bytes ps @ rest) (length ps) = Ok ps"
  by (induction ps) (auto simp: read_back)

lemma read_u16_pairs_no_panic: "4 * n \<le> length r \<Longrightarrow> read_u16_pairs B r n \<noteq> Panic"
  by (induction n arbitrary: r) (auto simp: reads)

lemma nack_parse_no_panic: "payload_len \<le> length buf \<Longrightarrow> nack_parse B buf fmt payload_len \<noteq> Panic"
  by (auto simp: nack_parse_def reads Let_def read_u16_pairs_no_panic)

lemma put_pairs:
  "foldl (\<lambda>buf n. put_u16 B (put_u16 B buf (f n)) (g n)) buf v
   = buf @ pairs_bytes (map (\<lambda>n. (f n, g n)) v)"
  by (induction v arbitrary: buf) (auto simp: writes)

lemma put_nack_entries_eq: "put_nack_entries B buf es = buf @ pairs_bytes (entry_pairs es)"
  by (cases es) (simp_all add: put_pairs)

lemma nack_serialize_eq:
  "nack_serialize B p =
     [0x80 OR (fst (nack_fmt_count (entries p)) AND 0x1F), RTCP_PT_RTPFB]
     @ u16_to_be_bytes (of_nat (2 + snd (nack_fmt_count (entries p))))
     @ u32_to_be_bytes (nack_sender_ssrc p) @ u32_to_be_bytes (nack_media_ssrc p)
     @ pairs_bytes (entry_pairs (entries p))"
  by (simp add: nack_serialize_def put_nack_entries_eq writes Let_def split: prod.splits)

lemma length_nack_serialize:
  "length (nack_serialize B p) = 12 + 4 * snd (nack_fmt_count (entries p))"
  by (simp add: nack_serialize_eq)

lemma nack_roundtrip:
  "nack_parse B (drop 4 (nack_serialize B p)) (fst (nack_fmt_count (entries p)))
     (8 + 4 * snd (nack_fmt_count (entries p))) = Ok p"
proof -
  have body: "drop 4 (nack_serialize B p) =
      u32_to_be_bytes (nack_sender_ssrc p) @ u32_to_be_bytes (nack_media_ssrc p)
      @ pairs_bytes (entry_pairs (entries p))"
    by (simp add: nack_serialize_eq u16_to_be_bytes_def)
  have "read_u16_pairs B (pairs_bytes (entry_pairs (entries p))) (snd (nack_fmt_count (entries p)))
      = Ok (entry_pairs (entries p))"
    using read_u16_pairs_back [of "entry_pairs (entries p)" "[]"] by simp
  then have "nack_parse B (drop 4 (nack_serialize B p)) (fst (nack_fmt_count (entries p)))
      (8 + 4 * snd (nack_fmt_count (entries p))) = Ok \<lparr>nack_sender_ssrc = nack_sender_ssrc p,
        nack_media_ssrc = nack_media_ssrc p, entries = entries p\<rparr>"
    by (cases "entries p") (simp_all add: body nack_parse_def read_back Let_def o_def)
  then show ?thesis by (simp only: nack_record_eta)
qed

end

text \<open>The groups of distinct numbers name no number twice.\<close>

lemma distinct_bitmask_lost_seqs: "distinct (bitmask_lost_seqs n)"
proof -
  have inj: "inj_on (\<lambda>i. pid n + of_nat (Suc i)) {0..<16 :: nat}"
    by (rule inj_onI) (auto simp: word_of_nat_eq_iff take_bit_eq_mod)
  have "of_nat (Suc i) \<noteq> (0 :: u16)" if "i < 16" for i :: nat
  proof -
    have "unat (of_nat (Suc i) :: u16) = Suc i" using that by (simp add: unat_of_nat del: of_nat_Suc)
    then show ?thesis by (metis nat.distinct(1) unat_0)
  qed
  with inj show ?thesis unfolding bitmask_lost_seqs_eq by (auto simp: distinct_map inj_on_def)
qed

text \<open>An entry takes a prefix of what is left of the list.\<close>

lemma bitmask_extend_prefix:
  "bitmask_extend p m xs = (m', rest) \<Longrightarrow> \<exists>ys. xs = ys @ rest
     \<and> set (bitmask_lost_seqs \<lparr>pid = p, blp = m'\<rparr>) = set (bitmask_lost_seqs \<lparr>pid = p, blp = m\<rparr>) \<union> set ys"
proof (induction p m xs rule: bitmask_extend.induct)
  case (2 p m x xs)
  show ?case
  proof (cases "1 \<le> x - p \<and> x - p \<le> 16")
    case True
    with 2 obtain ys where "xs = ys @ rest" "set (bitmask_lost_seqs \<lparr>pid = p, blp = m'\<rparr>)
        = set (bitmask_lost_seqs \<lparr>pid = p, blp = m OR 2 ^ unat (x - p - 1)\<rparr>) \<union> set ys" by (auto simp: Let_def)
    with True show ?thesis by (intro exI [of _ "x # ys"]) (simp add: bitmask_lost_seqs_extend)
  next
    case False
    with "2.prems" show ?thesis by (intro exI [of _ "[]"]) (auto simp: Let_def)
  qed
qed simp

lemma distinct_bitmask_groups: "distinct ls \<Longrightarrow> distinct (concat (map bitmask_lost_seqs (bitmask_groups ls)))"
proof (induction ls rule: bitmask_groups.induct)
  case (2 p xs)
  obtain m rest where ext: "bitmask_extend p 0 xs = (m, rest)" by fastforce
  from bitmask_extend_prefix [OF ext] obtain ys where ys: "xs = ys @ rest"
    "set (bitmask_lost_seqs \<lparr>pid = p, blp = m\<rparr>) = insert p (set ys)" by (auto simp: bitmask_lost_seqs_single)
  have "distinct (concat (map bitmask_lost_seqs (bitmask_groups rest)))" using 2 ext ys(1) by simp
  moreover have "set (bitmask_lost_seqs \<lparr>pid = p, blp = m\<rparr>) \<inter> set rest = {}" using "2.prems" ys by auto
  ultimately show ?case using ext set_bitmask_groups [of rest] distinct_bitmask_lost_seqs by simp
qed simp

end
