(* ===== verification/Rist_App.thy ===== *)
theory Rist_App
  imports Rist_Nack
begin

text \<open>
  The PT=204 APP packets of \<open>packet/rtcp_app.rs\<close>: RTT echo request and response, the librist
  range NACK with its entry cap, and unknown subtypes kept as raw bytes. The lemmas show that the
  parser never panics, that the entry cap holds, and the round trips.
\<close>

unbundle bit_operations_syntax

definition RTCP_PT_APP :: u8 where
  [simp]: "RTCP_PT_APP = 204"

definition RIST_APP_RANGE_NACK :: u8 where
  [simp]: "RIST_APP_RANGE_NACK = 0"

definition RTT_ECHO_REQUEST :: u8 where
  [simp]: "RTT_ECHO_REQUEST = 2"

definition RTT_ECHO_RESPONSE :: u8 where
  [simp]: "RTT_ECHO_RESPONSE = 3"

text \<open>The four ASCII bytes of the name field.\<close>

definition RIST_APP_NAME :: bytes where
  "RIST_APP_NAME = [0x52, 0x49, 0x53, 0x54]"

definition MAX_RANGE_NACK_ENTRIES :: nat where
  "MAX_RANGE_NACK_ENTRIES = 512"

record RttEchoRequest =
  req_ssrc :: u32
  req_timestamp_msw :: u32
  req_timestamp_lsw :: u32

record RttEchoResponse =
  resp_ssrc :: u32
  resp_timestamp_msw :: u32
  resp_timestamp_lsw :: u32
  processing_delay_us :: u32

record AppRangeNack =
  app_media_ssrc :: u32
  app_entries :: "(u16 \<times> u16) list"

datatype RistApp =
    RttEchoRequest RttEchoRequest
  | RttEchoResponse RttEchoResponse
  | RangeNack AppRangeNack
  | UnknownApp u8 bytes

text \<open>The entry loop of the range NACK: while four bytes remain and the cap is not reached.\<close>

function app_read_entries :: "bytes_api \<Rightarrow> bytes \<Rightarrow> (u16 \<times> u16) list \<Rightarrow> (u16 \<times> u16) list res" where
  "app_read_entries B r acc =
     (if 4 \<le> length r \<and> length acc < MAX_RANGE_NACK_ENTRIES then
        reading (get_u16 B r) (\<lambda>s r. reading (get_u16 B r) (\<lambda>e r.
          app_read_entries B r (acc @ [(s, e)])))
      else Ok acc)"
  by pat_completeness auto
termination
  by (relation "measure (\<lambda>(B, r, acc). MAX_RANGE_NACK_ENTRIES - length acc)") auto

declare app_read_entries.simps [simp del]

definition app_parse :: "bytes_api \<Rightarrow> bytes \<Rightarrow> u8 \<Rightarrow> RistApp res" where
  "app_parse B buf subtype =
     (if length buf < 8 then Err (PacketTooShort 8 (length buf))
      else
        reading (get_u32 B buf) (\<lambda>src r.
        reading (copy_to_slice B 4 r) (\<lambda>name r.
        if name \<noteq> RIST_APP_NAME then Ok (UnknownApp subtype buf)
        else if subtype = RIST_APP_RANGE_NACK then
          res_bind (app_read_entries B r []) (\<lambda>es.
            Ok (RangeNack \<lparr>app_media_ssrc = src, app_entries = es\<rparr>))
        else if subtype = RTT_ECHO_REQUEST then
          if length r < 8 then Err (PacketTooShort 16 (length buf))
          else reading (get_u32 B r) (\<lambda>msw r. reading (get_u32 B r) (\<lambda>lsw r.
            Ok (RttEchoRequest \<lparr>req_ssrc = src, req_timestamp_msw = msw, req_timestamp_lsw = lsw\<rparr>)))
        else if subtype = RTT_ECHO_RESPONSE then
          if length r < 12 then Err (PacketTooShort 20 (length buf))
          else reading (get_u32 B r) (\<lambda>msw r. reading (get_u32 B r) (\<lambda>lsw r.
            reading (get_u32 B r) (\<lambda>delay r.
            Ok (RttEchoResponse \<lparr>resp_ssrc = src, resp_timestamp_msw = msw,
                resp_timestamp_lsw = lsw, processing_delay_us = delay\<rparr>))))
        else Ok (UnknownApp subtype buf))))"

fun app_serialize :: "bytes_api \<Rightarrow> RistApp \<Rightarrow> bytes" where
  "app_serialize B (RttEchoRequest req) =
     (let buf = put_u8 B [] (0x80 OR RTT_ECHO_REQUEST);
          buf = put_u8 B buf RTCP_PT_APP;
          buf = put_u16 B buf 4;
          buf = put_u32 B buf (req_ssrc req);
          buf = put_slice B buf RIST_APP_NAME;
          buf = put_u32 B buf (req_timestamp_msw req);
          buf = put_u32 B buf (req_timestamp_lsw req)
      in buf)"
| "app_serialize B (RttEchoResponse resp) =
     (let buf = put_u8 B [] (0x80 OR RTT_ECHO_RESPONSE);
          buf = put_u8 B buf RTCP_PT_APP;
          buf = put_u16 B buf 5;
          buf = put_u32 B buf (resp_ssrc resp);
          buf = put_slice B buf RIST_APP_NAME;
          buf = put_u32 B buf (resp_timestamp_msw resp);
          buf = put_u32 B buf (resp_timestamp_lsw resp);
          buf = put_u32 B buf (processing_delay_us resp)
      in buf)"
| "app_serialize B (RangeNack nack) =
     (let total = 12 + 4 * length (app_entries nack);
          length_words = total div 4 - 1;
          buf = put_u8 B [] (0x80 OR RIST_APP_RANGE_NACK);
          buf = put_u8 B buf RTCP_PT_APP;
          buf = put_u16 B buf (of_nat length_words);
          buf = put_u32 B buf (app_media_ssrc nack);
          buf = put_slice B buf RIST_APP_NAME
      in foldl (\<lambda>buf (s, e). put_u16 B (put_u16 B buf s) e) buf (app_entries nack))"
| "app_serialize B (UnknownApp subtype data) =
     (let total = 4 + length data;
          length_words = total div 4 - 1;
          buf = put_u8 B [] (0x80 OR (subtype AND 0x1F));
          buf = put_u8 B buf RTCP_PT_APP;
          buf = put_u16 B buf (of_nat length_words);
          buf = put_slice B buf data
      in buf)"

declare app_serialize.simps [simp del]

text \<open>The sequence numbers a range NACK names, in the order the sender walks them.\<close>

definition app_lost_seqs :: "AppRangeNack \<Rightarrow> u16 list" where
  "app_lost_seqs n =
     concat (map (\<lambda>(s, e). map (\<lambda>i. s + of_nat i) [0..<unat e + 1]) (app_entries n))"

section \<open>Closed forms and round trips\<close>

lemma length_RIST_APP_NAME [simp]: "length RIST_APP_NAME = 4"
  by (simp add: RIST_APP_NAME_def)

text \<open>
  Packets that survive the wire: range NACKs within the cap, and raw packets that the parser
  would again keep raw, with a whole number of words.
\<close>

fun app_wf :: "RistApp \<Rightarrow> bool" where
  "app_wf (RangeNack n) \<longleftrightarrow> length (app_entries n) \<le> MAX_RANGE_NACK_ENTRIES"
| "app_wf (UnknownApp subtype data) \<longleftrightarrow>
     unat subtype < 32 \<and> 8 \<le> length data \<and> length data mod 4 = 0 \<and> length data div 4 < 65536
     \<and> (take 4 (drop 4 data) \<noteq> RIST_APP_NAME \<or> subtype \<notin> {0, 2, 3})"
| "app_wf _ \<longleftrightarrow> True"

fun app_subtype :: "RistApp \<Rightarrow> u8" where
  "app_subtype (RttEchoRequest _) = RTT_ECHO_REQUEST"
| "app_subtype (RttEchoResponse _) = RTT_ECHO_RESPONSE"
| "app_subtype (RangeNack _) = RIST_APP_RANGE_NACK"
| "app_subtype (UnknownApp s _) = s"

context bytes_crate
begin

lemma app_read_entries_step:
  "4 \<le> length r \<Longrightarrow> length acc < MAX_RANGE_NACK_ENTRIES \<Longrightarrow>
     app_read_entries B r acc = app_read_entries B (drop 4 r)
       (acc @ [(u16_from_be_bytes (r ! 0) (r ! 1), u16_from_be_bytes (r ! 2) (r ! 3))])"
  by (subst app_read_entries.simps) (simp add: reads, simp add: numeral_3_eq_3 numeral_2_eq_2)

lemma app_read_entries_stop:
  "length r < 4 \<or> MAX_RANGE_NACK_ENTRIES \<le> length acc \<Longrightarrow> app_read_entries B r acc = Ok acc"
  by (subst app_read_entries.simps) auto

lemma app_read_entries_Ok:
  "\<exists>es. app_read_entries B r acc = Ok (acc @ es)
     \<and> length (acc @ es) = min (length acc + length r div 4) (max (length acc) MAX_RANGE_NACK_ENTRIES)"
proof (induction "length r" arbitrary: r acc rule: less_induct)
  case less
  show ?case
  proof (cases "4 \<le> length r \<and> length acc < MAX_RANGE_NACK_ENTRIES")
    case True
    define x where "x = (u16_from_be_bytes (r ! 0) (r ! 1), u16_from_be_bytes (r ! 2) (r ! 3))"
    have "length (drop 4 r) < length r" using True by (cases r) auto
    from less [OF this, of "acc @ [x]"] obtain es where
      es: "app_read_entries B (drop 4 r) (acc @ [x]) = Ok ((acc @ [x]) @ es)"
        "length ((acc @ [x]) @ es)
         = min (length (acc @ [x]) + length (drop 4 r) div 4) (max (length (acc @ [x])) MAX_RANGE_NACK_ENTRIES)"
      by blast
    have "length r div 4 = Suc ((length r - 4) div 4)" using True by (simp add: le_div_geq)
    moreover have "app_read_entries B r acc = app_read_entries B (drop 4 r) (acc @ [x])"
      unfolding x_def using True by (intro app_read_entries_step) auto
    ultimately show ?thesis using True es by (intro exI [of _ "x # es"]) auto
  next
    case False
    then show ?thesis by (auto simp: app_read_entries_stop)
  qed
qed

lemma app_read_entries_back:
  "length acc + length ps \<le> MAX_RANGE_NACK_ENTRIES \<Longrightarrow>
     app_read_entries B (pairs_bytes ps) acc = Ok (acc @ ps)"
proof (induction ps arbitrary: acc)
  case Nil
  then show ?case by (simp add: app_read_entries_stop)
next
  case (Cons p ps)
  then show ?case
    by (cases p) (simp add: app_read_entries_step u16_to_be_bytes_def)
qed

lemma app_parse_no_panic: "app_parse B buf subtype \<noteq> Panic"
proof -
  have "app_read_entries B r [] \<noteq> Panic" for r
    using app_read_entries_Ok [of r "[]"] by auto
  then show ?thesis by (auto simp: app_parse_def reads)
qed

text \<open>The entries kept are the ones on the wire, up to the cap.\<close>

lemma app_parse_entry_count:
  assumes "app_parse B buf subtype = Ok (RangeNack n)"
  shows "length (app_entries n) = min ((length buf - 8) div 4) MAX_RANGE_NACK_ENTRIES"
proof -
  from assms have len: "8 \<le> length buf" by (auto simp: app_parse_def split: if_splits)
  with assms have "app_read_entries B (drop 8 buf) [] = Ok (app_entries n)"
    by (auto simp: app_parse_def reads split: if_splits)
  with app_read_entries_Ok [of "drop 8 buf" "[]"] show ?thesis by auto
qed

lemma app_serialize_eq:
  "app_serialize B (RttEchoRequest q) = [0x82, RTCP_PT_APP] @ u16_to_be_bytes 4
     @ u32_to_be_bytes (req_ssrc q) @ RIST_APP_NAME
     @ u32_to_be_bytes (req_timestamp_msw q) @ u32_to_be_bytes (req_timestamp_lsw q)"
  "app_serialize B (RttEchoResponse p) = [0x83, RTCP_PT_APP] @ u16_to_be_bytes 5
     @ u32_to_be_bytes (resp_ssrc p) @ RIST_APP_NAME
     @ u32_to_be_bytes (resp_timestamp_msw p) @ u32_to_be_bytes (resp_timestamp_lsw p)
     @ u32_to_be_bytes (processing_delay_us p)"
  "app_serialize B (RangeNack n) = [0x80, RTCP_PT_APP]
     @ u16_to_be_bytes (of_nat (2 + length (app_entries n)))
     @ u32_to_be_bytes (app_media_ssrc n) @ RIST_APP_NAME @ pairs_bytes (app_entries n)"
  "app_serialize B (UnknownApp s d) = [0x80 OR (s AND 0x1F), RTCP_PT_APP]
     @ u16_to_be_bytes (of_nat ((4 + length d) div 4 - 1)) @ d"
proof -
  have "foldl (\<lambda>buf (s, e). put_u16 B (put_u16 B buf s) e) buf es = buf @ pairs_bytes es" for buf es
    by (induction es arbitrary: buf) (auto simp: writes)
  then show "app_serialize B (RangeNack n) = [0x80, RTCP_PT_APP]
     @ u16_to_be_bytes (of_nat (2 + length (app_entries n)))
     @ u32_to_be_bytes (app_media_ssrc n) @ RIST_APP_NAME @ pairs_bytes (app_entries n)"
    by (simp add: app_serialize.simps Let_def put_u8_law put_slice_law put_u32_law) (simp add: put_u16_law)
qed (simp_all add: app_serialize.simps writes Let_def)

lemma app_roundtrip:
  assumes "app_wf a"
  shows "app_parse B (drop 4 (app_serialize B a)) (app_subtype a) = Ok a"
proof (cases a)
  case (RangeNack n)
  with assms have "app_read_entries B (pairs_bytes (app_entries n)) [] = Ok (app_entries n)"
    by (simp add: app_read_entries_back)
  with RangeNack show ?thesis
    by (cases n) (simp add: app_serialize_eq app_parse_def read_back read_slice u16_to_be_bytes_def)
next
  case (UnknownApp s d)
  then show ?thesis
    using assms by (auto simp: app_serialize_eq app_parse_def reads u16_to_be_bytes_def)
next
  case (RttEchoRequest q)
  then show ?thesis
    by (cases q) (simp add: app_serialize_eq app_parse_def read_back read_slice u16_to_be_bytes_def
        read_back(3) [where r = "[]", simplified])
next
  case (RttEchoResponse p)
  then show ?thesis
    by (cases p) (simp add: app_serialize_eq app_parse_def read_back read_slice u16_to_be_bytes_def
        read_back(3) [where r = "[]", simplified])
qed

end

end
