(* ===== verification/Rist_Compound.thy ===== *)
theory Rist_Compound
  imports Rist_Reports Rist_Sdes Rist_App
begin

text \<open>
  Compound RTCP of \<open>packet/rtcp.rs\<close>: the common header, the dispatch on the packet type with its
  lenient fallback, the bounded sub-packet loop, and serialisation. The sub-packet formats are
  clients of one interface, the locale \<open>rtcp_codec\<close>: what a format promises to the loop is
  stated there once, the loop's step on it is proved there once, and each of the five formats is
  an instance.
\<close>

unbundle bit_operations_syntax

section \<open>Common header\<close>

record RtcpCommonHeader =
  hdr_version :: u8
  hdr_padding :: bool
  hdr_count :: u8
  hdr_packet_type :: u8
  hdr_length :: u16

definition common_header_parse :: "bytes_api \<Rightarrow> bytes \<Rightarrow> RtcpCommonHeader res" where
  "common_header_parse B buf =
     (if length buf < 4 then Err (PacketTooShort 4 (length buf))
      else reading (get_u8 B buf) (\<lambda>first r.
        let ver = drop_bit 6 first AND 3 in
        if ver \<noteq> 2 then Err (InvalidRtpVersion ver)
        else
          let pad = (drop_bit 5 first AND 1 \<noteq> 0); cnt = first AND 0x1F in
          reading (get_u8 B r) (\<lambda>pt r.
          reading (get_u16 B r) (\<lambda>len r.
          Ok \<lparr>hdr_version = ver, hdr_padding = pad, hdr_count = cnt,
              hdr_packet_type = pt, hdr_length = len\<rparr>))))"

definition packet_size :: "RtcpCommonHeader \<Rightarrow> nat" where
  "packet_size h = (unat (hdr_length h) + 1) * 4"

section \<open>Compound packets\<close>

datatype RtcpPacket =
    SenderReport SenderReport
  | ReceiverReport ReceiverReport
  | Sdes Sdes
  | Nack NackPacket
  | App RistApp
  | Unknown u8 bytes

definition MAX_RTCP_SUB_PACKETS :: nat where
  "MAX_RTCP_SUB_PACKETS = 64"

record RtcpCompound =
  packets :: "RtcpPacket list"

text \<open>\<open>.map(C).unwrap_or_else(|_| Unknown ...)\<close>: an error demotes the sub-packet.\<close>

fun lenient :: "('a \<Rightarrow> RtcpPacket) \<Rightarrow> RtcpPacket \<Rightarrow> 'a res \<Rightarrow> RtcpPacket res" where
  "lenient C u (Ok x) = Ok (C x)"
| "lenient C u (Err e) = Ok u"
| "lenient C u Panic = Panic"

definition parse_sub_packet :: "bytes_api \<Rightarrow> RtcpCommonHeader \<Rightarrow> bytes \<Rightarrow> RtcpPacket res" where
  "parse_sub_packet B h payload =
     (let pt = hdr_packet_type h; unknown = Unknown pt payload in
      if pt = RTCP_PT_SR then lenient SenderReport unknown (sr_parse B payload)
      else if pt = RTCP_PT_RR then lenient ReceiverReport unknown (rr_parse B payload (hdr_count h))
      else if pt = RTCP_PT_SDES then lenient Sdes unknown (sdes_parse payload)
      else if pt = RTCP_PT_RTPFB
        then lenient Nack unknown (nack_parse B payload (hdr_count h) (length payload))
      else if pt = RTCP_PT_APP then lenient App unknown (app_parse B payload (hdr_count h))
      else Ok unknown)"

function compound_loop :: "bytes_api \<Rightarrow> bytes \<Rightarrow> nat \<Rightarrow> RtcpPacket list \<Rightarrow> RtcpPacket list res" where
  "compound_loop B buf offset pkts =
     (if offset + 4 \<le> length buf \<and> length pkts < MAX_RTCP_SUB_PACKETS then
        res_bind (slice_from buf offset) (\<lambda>s.
        res_bind (common_header_parse B s) (\<lambda>h.
        let pkt_size = packet_size h in
        if offset + pkt_size > length buf then Ok pkts
        else
          res_bind (slice_range buf (offset + 4) (offset + pkt_size)) (\<lambda>payload.
          res_bind (parse_sub_packet B h payload) (\<lambda>pkt.
          compound_loop B buf (offset + pkt_size) (pkts @ [pkt])))))
      else Ok pkts)"
  by pat_completeness auto
termination
  by (relation "measure (\<lambda>(B, buf, offset, pkts). MAX_RTCP_SUB_PACKETS - length pkts)") auto

declare compound_loop.simps [simp del]

definition compound_parse :: "bytes_api \<Rightarrow> bytes \<Rightarrow> RtcpCompound res" where
  "compound_parse B buf = res_bind (compound_loop B buf 0 []) (\<lambda>pkts. Ok \<lparr>packets = pkts\<rparr>)"

fun serialize_sub_packet :: "bytes_api \<Rightarrow> bytes \<Rightarrow> RtcpPacket \<Rightarrow> bytes" where
  "serialize_sub_packet B buf (SenderReport sr) = extend_from_slice B buf (sr_serialize B sr)"
| "serialize_sub_packet B buf (ReceiverReport rr) = extend_from_slice B buf (rr_serialize B rr)"
| "serialize_sub_packet B buf (Sdes sdes) = extend_from_slice B buf (sdes_serialize B sdes)"
| "serialize_sub_packet B buf (Nack nack) = extend_from_slice B buf (nack_serialize B nack)"
| "serialize_sub_packet B buf (App app) = extend_from_slice B buf (app_serialize B app)"
| "serialize_sub_packet B buf (Unknown _ _) = buf"

definition compound_serialize :: "bytes_api \<Rightarrow> RtcpCompound \<Rightarrow> bytes" where
  "compound_serialize B c = foldl (serialize_sub_packet B) [] (packets c)"

section \<open>The loop on arbitrary bytes\<close>

lemma count_byte_decode:
  assumes "unat (c :: u8) < 32"
  shows "drop_bit 6 (0x80 OR c) AND 3 = 2" "(0x80 OR c) AND 0x1F = c"
proof -
  have "list_all (\<lambda>n. drop_bit 6 (0x80 OR of_nat n :: u8) AND 3 = 2
      \<and> (0x80 OR of_nat n :: u8) AND 0x1F = of_nat n) [0..<32]"
    by code_simp
  with assms have "drop_bit 6 (0x80 OR of_nat (unat c) :: u8) AND 3 = 2
      \<and> (0x80 OR of_nat (unat c) :: u8) AND 0x1F = of_nat (unat c)"
    unfolding list_all_iff by (metis atLeastLessThan_iff le0 set_upt)
  then show "drop_bit 6 (0x80 OR c) AND 3 = 2" "(0x80 OR c) AND 0x1F = c" by simp_all
qed

lemma lenient_no_panic: "m \<noteq> Panic \<Longrightarrow> \<exists>p. lenient C u m = Ok p"
  by (cases m) auto

context bytes_crate
begin

lemma common_header_parse_eq:
  "4 \<le> length s \<Longrightarrow> common_header_parse B s =
     (if drop_bit 6 (s ! 0) AND 3 \<noteq> 2 then Err (InvalidRtpVersion (drop_bit 6 (s ! 0) AND 3))
      else Ok \<lparr>hdr_version = drop_bit 6 (s ! 0) AND 3, hdr_padding = (drop_bit 5 (s ! 0) AND 1 \<noteq> 0),
               hdr_count = s ! 0 AND 0x1F, hdr_packet_type = s ! 1,
               hdr_length = u16_from_be_bytes (s ! 2) (s ! 3)\<rparr>)"
  by (cases s; cases "tl s")
    (auto simp: common_header_parse_def reads Let_def numeral_2_eq_2 numeral_3_eq_3)

lemma parse_sub_packet_total: "\<exists>p. parse_sub_packet B h payload = Ok p"
  by (auto simp: parse_sub_packet_def Let_def sr_parse_no_panic rr_parse_no_panic
      sdes_parse_no_panic nack_parse_no_panic app_parse_no_panic intro!: lenient_no_panic)

lemma compound_loop_stop:
  "length buf < offset + 4 \<or> MAX_RTCP_SUB_PACKETS \<le> length pkts \<Longrightarrow>
     compound_loop B buf offset pkts = Ok pkts"
  by (subst compound_loop.simps) auto

lemma compound_loop_safe:
  "length pkts \<le> MAX_RTCP_SUB_PACKETS \<Longrightarrow>
     (\<exists>out. compound_loop B buf offset pkts = Ok out \<and> length out \<le> MAX_RTCP_SUB_PACKETS)
     \<or> (\<exists>v. compound_loop B buf offset pkts = Err (InvalidRtpVersion v))"
proof (induction "MAX_RTCP_SUB_PACKETS - length pkts" arbitrary: offset pkts rule: less_induct)
  case less
  show ?case
  proof (cases "offset + 4 \<le> length buf \<and> length pkts < MAX_RTCP_SUB_PACKETS")
    case False
    with less.prems show ?thesis by (auto simp: compound_loop_stop)
  next
    case True
    then have len: "4 \<le> length (drop offset buf)" by auto
    show ?thesis
    proof (cases "common_header_parse B (drop offset buf)")
      case (Ok h)
      have size: "4 \<le> packet_size h" by (simp add: packet_size_def)
      obtain p where "parse_sub_packet B h (take (packet_size h - 4) (drop (offset + 4) buf)) = Ok p"
        using parse_sub_packet_total by blast
      with True Ok size less.hyps [of "pkts @ [p]" "offset + packet_size h"] show ?thesis
        by (subst compound_loop.simps, subst (2) compound_loop.simps) (auto simp: Let_def)
    qed (use True common_header_parse_eq [OF len] in
        \<open>auto simp: compound_loop.simps [of B buf offset pkts] split: if_splits\<close>)
  qed
qed

end

section \<open>The interface of a sub-packet format\<close>

text \<open>
  \<open>ser\<close> writes a whole sub-packet, \<open>par\<close> reads its payload given the count field, \<open>cnt\<close> is
  the count field \<open>ser\<close> writes, \<open>inj\<close> the constructor and \<open>pt\<close> the packet type. The laws: the
  framing, the length field, and that the dispatch hands payloads of type \<open>pt\<close> to \<open>par\<close>.
\<close>

locale rtcp_codec = bytes_crate B for B :: bytes_api +
  fixes ser :: "'a \<Rightarrow> bytes" and par :: "u8 \<Rightarrow> bytes \<Rightarrow> 'a res" and inj :: "'a \<Rightarrow> RtcpPacket"
    and wf :: "'a \<Rightarrow> bool" and cnt :: "'a \<Rightarrow> u8" and pt :: u8
  assumes frame: "wf x \<Longrightarrow> take 4 (ser x) = (0x80 OR cnt x) # pt
      # u16_to_be_bytes (of_nat (length (ser x) div 4 - 1))"
    and aligned: "wf x \<Longrightarrow> length (ser x) mod 4 = 0"
    and fits: "wf x \<Longrightarrow> 4 \<le> length (ser x) \<and> length (ser x) div 4 \<le> 65536"
    and count_small: "wf x \<Longrightarrow> unat (cnt x) < 32"
    and decode: "wf x \<Longrightarrow> par (cnt x) (drop 4 (ser x)) = Ok x"
    and dispatch: "hdr_packet_type h = pt \<Longrightarrow>
      parse_sub_packet B h pl = lenient inj (Unknown pt pl) (par (hdr_count h) pl)"
begin

lemma header_of_ser:
  assumes "wf x"
  shows "\<exists>h. common_header_parse B (ser x @ rest) = Ok h \<and> hdr_packet_type h = pt
    \<and> hdr_count h = cnt x \<and> packet_size h = length (ser x)"
proof -
  define n where "n = length (ser x) div 4 - 1"
  have n: "4 * Suc n = length (ser x)" "n < 65536"
    using aligned [OF assms] fits [OF assms] by (auto simp: n_def)
  obtain body where ser: "ser x = (0x80 OR cnt x) # pt # u16_to_be_bytes (of_nat n) @ body"
    using frame [OF assms] append_take_drop_id [of 4 "ser x"] unfolding n_def by (metis append_Cons)
  have first: "drop_bit 6 (0x80 OR cnt x) AND 3 = 2" "(0x80 OR cnt x) AND 0x1F = cnt x"
    using count_byte_decode [OF count_small [OF assms]] .
  have "4 \<le> length (ser x @ rest)" using fits [OF assms] by simp
  from common_header_parse_eq [OF this] first n show ?thesis
    by (simp add: ser u16_to_be_bytes_def packet_size_def unat_of_nat)
qed

lemma loop_step:
  assumes "wf x" and "length pkts < MAX_RTCP_SUB_PACKETS"
  shows "compound_loop B (pre @ ser x @ rest) (length pre) pkts
    = compound_loop B (pre @ ser x @ rest) (length pre + length (ser x)) (pkts @ [inj x])"
proof -
  obtain h where h: "common_header_parse B (ser x @ rest) = Ok h" "hdr_packet_type h = pt"
      "hdr_count h = cnt x" "packet_size h = length (ser x)"
    using header_of_ser [OF assms(1)] by blast
  have "take (length (ser x) - 4) (drop 4 (ser x) @ rest') = drop 4 (ser x)" for rest'
    by simp
  moreover have "drop (length pre + 4) (pre @ ser x @ rest) = drop 4 (ser x) @ rest"
    using fits [OF assms(1)] by simp
  ultimately show ?thesis
    using assms(2) h fits [OF assms(1)] dispatch [OF h(2)] decode [OF assms(1)]
    by (subst compound_loop.simps) (simp add: Let_def)
qed

end

sublocale bytes_crate \<subseteq> sr: rtcp_codec B "sr_serialize B" "\<lambda>_. sr_parse B" SenderReport
  "\<lambda>_. True" "\<lambda>_. 0" RTCP_PT_SR
  by unfold_locales
    (simp_all add: sr_roundtrip parse_sub_packet_def Let_def, simp add: sr_serialize_eq u16_to_be_bytes_def)

sublocale bytes_crate \<subseteq> sdes: rtcp_codec B "sdes_serialize B" "\<lambda>_. sdes_parse" Sdes
  sdes_wf "\<lambda>_. 1" RTCP_PT_SDES
proof unfold_locales
  fix x assume wf: "sdes_wf x"
  show "length (sdes_serialize B x) mod 4 = 0"
    using sdes_total_aligned by (simp add: length_sdes_serialize)
  show "4 \<le> length (sdes_serialize B x) \<and> length (sdes_serialize B x) div 4 \<le> 65536"
    using wf sdes_padding_bounds [of "length (cname x)"] by (auto simp: length_sdes_serialize sdes_wf_def)
  show "take 4 (sdes_serialize B x) = (0x80 OR 1) # RTCP_PT_SDES
      # u16_to_be_bytes (of_nat (length (sdes_serialize B x) div 4 - 1))"
    by (simp add: length_sdes_serialize) (simp add: sdes_serialize_eq u16_to_be_bytes_def)
qed (simp_all add: sdes_roundtrip parse_sub_packet_def Let_def)

text \<open>A receiver report the five-bit count can carry.\<close>

definition rr_wf :: "ReceiverReport \<Rightarrow> bool" where
  "rr_wf rr \<longleftrightarrow> length (reports rr) < 32 \<and> (\<forall>rb \<in> set (reports rr). rb_wf rb)"

lemma and_1F_small: "n < 32 \<Longrightarrow> (of_nat n :: u8) AND 0x1F = of_nat n"
proof -
  assume "n < 32"
  moreover have "list_all (\<lambda>n. (of_nat n :: u8) AND 0x1F = of_nat n) [0..<32]" by code_simp
  ultimately show ?thesis unfolding list_all_iff by (metis atLeastLessThan_iff le0 set_upt)
qed

sublocale bytes_crate \<subseteq> rr: rtcp_codec B "rr_serialize B" "\<lambda>c pl. rr_parse B pl c" ReceiverReport
  rr_wf "\<lambda>rr. of_nat (length (reports rr))" RTCP_PT_RR
proof unfold_locales
  fix x assume wf: "rr_wf x"
  then have len: "length (reports x) < 32" by (simp add: rr_wf_def)
  have "ucast (of_nat (length (reports x)) :: u8) = (of_nat (length (reports x)) :: u16)"
    using len by (simp add: word_unat_eq_iff unat_of_nat unsigned_ucast_eq take_bit_eq_mod)
  then show "take 4 (rr_serialize B x) = (0x80 OR of_nat (length (reports x))) # RTCP_PT_RR
      # u16_to_be_bytes (of_nat (length (rr_serialize B x) div 4 - 1))"
    using len
    by (simp add: length_rr_serialize) (simp add: rr_serialize_eq u16_to_be_bytes_def and_1F_small mult.commute)
  show "length (rr_serialize B x) mod 4 = 0" by (simp add: length_rr_serialize mod_mult_right_eq)
  show "4 \<le> length (rr_serialize B x) \<and> length (rr_serialize B x) div 4 \<le> 65536"
    using len by (simp add: length_rr_serialize)
  show "unat (of_nat (length (reports x)) :: u8) < 32" using len by (simp add: unat_of_nat)
  show "rr_parse B (drop 4 (rr_serialize B x)) (of_nat (length (reports x))) = Ok x"
    using wf by (simp add: rr_roundtrip rr_wf_def)
qed (simp add: parse_sub_packet_def Let_def)

sublocale bytes_crate \<subseteq> nack: rtcp_codec B "nack_serialize B" "\<lambda>c pl. nack_parse B pl c (length pl)" Nack
  nack_wf "\<lambda>p. fst (nack_fmt_count (entries p))" RTCP_PT_RTPFB
proof unfold_locales
  fix x assume wf: "nack_wf x"
  have cnt: "fst (nack_fmt_count (entries x)) AND 0x1F = fst (nack_fmt_count (entries x))"
    "unat (fst (nack_fmt_count (entries x))) < 32"
    by (cases "entries x"; simp)+
  then show "take 4 (nack_serialize B x) = (0x80 OR fst (nack_fmt_count (entries x))) # RTCP_PT_RTPFB
      # u16_to_be_bytes (of_nat (length (nack_serialize B x) div 4 - 1))"
    by (simp add: length_nack_serialize) (simp add: nack_serialize_eq u16_to_be_bytes_def)
  show "unat (fst (nack_fmt_count (entries x))) < 32" by fact
  show "length (nack_serialize B x) mod 4 = 0" by (simp add: length_nack_serialize)
  show "4 \<le> length (nack_serialize B x) \<and> length (nack_serialize B x) div 4 \<le> 65536"
    using wf by (simp add: length_nack_serialize nack_wf_def)
  show "nack_parse B (drop 4 (nack_serialize B x)) (fst (nack_fmt_count (entries x)))
      (length (drop 4 (nack_serialize B x))) = Ok x"
    using nack_roundtrip [of x] by (simp add: length_nack_serialize)
qed (simp add: parse_sub_packet_def Let_def)

sublocale bytes_crate \<subseteq> app: rtcp_codec B "app_serialize B" "\<lambda>c pl. app_parse B pl c" App
  app_wf app_subtype RTCP_PT_APP
proof unfold_locales
  fix x assume wf: "app_wf x"
  show cnt: "unat (app_subtype x) < 32" using wf by (cases x) auto
  have len: "length (app_serialize B x) = 4 * Suc (length (app_serialize B x) div 4 - 1)
      \<and> length (app_serialize B x) div 4 \<le> 65536
      \<and> take 4 (app_serialize B x) = (0x80 OR app_subtype x) # RTCP_PT_APP
      # u16_to_be_bytes (of_nat (length (app_serialize B x) div 4 - 1))"
  proof (cases x)
    case (RangeNack n)
    with wf show ?thesis
      by (simp add: app_serialize_eq MAX_RANGE_NACK_ENTRIES_def u16_to_be_bytes_def)
  next
    case (UnknownApp s d)
    with wf have "length d = 4 * (length d div 4)" "s AND 0x1F = s"
      using and_1F_small [of "unat s"] by auto
    moreover have "(4 + length d) div 4 - 1 = length d div 4" by simp
    ultimately show ?thesis
      using wf UnknownApp by (auto simp: app_serialize_eq u16_to_be_bytes_def)
  qed (simp_all add: app_serialize_eq u16_to_be_bytes_def)
  then show "take 4 (app_serialize B x) = (0x80 OR app_subtype x) # RTCP_PT_APP
      # u16_to_be_bytes (of_nat (length (app_serialize B x) div 4 - 1))" by blast
  from len show "length (app_serialize B x) mod 4 = 0" by (metis mod_mult_self1_is_0)
  from len show "4 \<le> length (app_serialize B x) \<and> length (app_serialize B x) div 4 \<le> 65536" by linarith
qed (simp_all add: app_roundtrip parse_sub_packet_def Let_def)

section \<open>Compound round trip\<close>

fun is_known :: "RtcpPacket \<Rightarrow> bool" where
  "is_known (Unknown _ _) \<longleftrightarrow> False"
| "is_known _ \<longleftrightarrow> True"

fun packet_wf :: "RtcpPacket \<Rightarrow> bool" where
  "packet_wf (SenderReport sr) \<longleftrightarrow> True"
| "packet_wf (ReceiverReport rr) \<longleftrightarrow> rr_wf rr"
| "packet_wf (Sdes sdes) \<longleftrightarrow> sdes_wf sdes"
| "packet_wf (Nack nack) \<longleftrightarrow> nack_wf nack"
| "packet_wf (App app) \<longleftrightarrow> app_wf app"
| "packet_wf (Unknown _ _) \<longleftrightarrow> True"

context bytes_crate
begin

lemma serialize_sub_packet_append:
  "serialize_sub_packet B buf p = buf @ serialize_sub_packet B [] p"
  by (cases p) (simp_all add: writes)

lemma foldl_serialize_append:
  "foldl (serialize_sub_packet B) buf ps = buf @ concat (map (serialize_sub_packet B []) ps)"
proof (induction ps arbitrary: buf)
  case (Cons p ps)
  show ?case
    by (subst foldl_Cons, subst Cons.IH) (simp add: serialize_sub_packet_append [of buf p])
qed simp

lemma compound_serialize_eq: "compound_serialize B c = concat (map (serialize_sub_packet B []) (packets c))"
  by (simp add: compound_serialize_def foldl_serialize_append)

lemma loop_step_packet:
  assumes "packet_wf p" "is_known p" "length pkts < MAX_RTCP_SUB_PACKETS"
  shows "compound_loop B (pre @ serialize_sub_packet B [] p @ rest) (length pre) pkts
    = compound_loop B (pre @ serialize_sub_packet B [] p @ rest)
        (length pre + length (serialize_sub_packet B [] p)) (pkts @ [p])"
  using assms by (cases p)
    (simp_all add: writes sr.loop_step rr.loop_step sdes.loop_step nack.loop_step app.loop_step)

lemma compound_loop_run:
  assumes "\<forall>p \<in> set ps. packet_wf p"
    and "length pkts + length (filter is_known ps) \<le> MAX_RTCP_SUB_PACKETS"
  shows "compound_loop B (pre @ concat (map (serialize_sub_packet B []) ps) @ tail) (length pre) pkts
    = compound_loop B (pre @ concat (map (serialize_sub_packet B []) ps) @ tail)
        (length (pre @ concat (map (serialize_sub_packet B []) ps))) (pkts @ filter is_known ps)"
  using assms
proof (induction ps arbitrary: pre pkts)
  case (Cons p ps)
  show ?case
  proof (cases "is_known p")
    case False
    with Cons show ?thesis by (cases p) auto
  next
    case True
    let ?s = "serialize_sub_packet B [] p" and ?rest = "concat (map (serialize_sub_packet B []) ps)"
    have "compound_loop B (pre @ ?s @ ?rest @ tail) (length pre) pkts
        = compound_loop B ((pre @ ?s) @ ?rest @ tail) (length (pre @ ?s)) (pkts @ [p])"
      using loop_step_packet [of p pkts pre "?rest @ tail"] Cons.prems True by simp
    also have "\<dots> = compound_loop B ((pre @ ?s) @ ?rest @ tail) (length ((pre @ ?s) @ ?rest))
        ((pkts @ [p]) @ filter is_known ps)"
      by (rule Cons.IH) (use Cons.prems True in auto)
    finally show ?thesis using True by (simp add: add.assoc)
  qed
qed simp

lemma compound_loop_roundtrip:
  assumes "\<forall>p \<in> set ps. packet_wf p" and "length (filter is_known ps) \<le> MAX_RTCP_SUB_PACKETS"
  shows "compound_loop B (concat (map (serialize_sub_packet B []) ps)) 0 [] = Ok (filter is_known ps)"
  using compound_loop_run [OF assms(1), of "[]" "[]" "[]"] assms(2) by (simp add: compound_loop_stop)

lemma compound_loop_bad_version:
  assumes "\<forall>p \<in> set ps. packet_wf p" and "length (filter is_known ps) < MAX_RTCP_SUB_PACKETS"
    and "4 \<le> length tail" and "drop_bit 6 (tail ! 0) AND 3 \<noteq> 2"
  shows "compound_loop B (concat (map (serialize_sub_packet B []) ps) @ tail) 0 []
    = Err (InvalidRtpVersion (drop_bit 6 (tail ! 0) AND 3))"
proof -
  let ?buf = "concat (map (serialize_sub_packet B []) ps) @ tail"
  have "compound_loop B ?buf (length (concat (map (serialize_sub_packet B []) ps))) (filter is_known ps)
      = Err (InvalidRtpVersion (drop_bit 6 (tail ! 0) AND 3))"
    using assms(2-4) by (subst compound_loop.simps) (simp add: common_header_parse_eq)
  then show ?thesis
    using compound_loop_run [OF assms(1), of "[]" "[]" tail] assms(2) by simp
qed

end

text \<open>
  A reading of the datagram without the loop: the sub-packets that lie whole in it, each by its
  header and payload, up to a number of them, and the version of the first header that is not one.
\<close>

definition wire_version :: "bytes \<Rightarrow> u8" where
  "wire_version s = drop_bit 6 (s ! 0) AND 3"

definition wire_size :: "bytes \<Rightarrow> nat" where
  "wire_size s = (unat (u16_from_be_bytes (s ! 2) (s ! 3)) + 1) * 4"

fun bad_version :: "nat \<Rightarrow> bytes \<Rightarrow> u8 option" where
  "bad_version 0 s = None"
| "bad_version (Suc k) s =
     (if length s < 4 then None
      else if wire_version s \<noteq> 2 then Some (wire_version s)
      else if length s < wire_size s then None
      else bad_version k (drop (wire_size s) s))"

fun whole_packets :: "nat \<Rightarrow> bytes \<Rightarrow> bytes list" where
  "whole_packets 0 s = []"
| "whole_packets (Suc k) s =
     (if length s < 4 \<or> length s < wire_size s then []
      else take (wire_size s) s # whole_packets k (drop (wire_size s) s))"

lemma length_whole_packets: "length (whole_packets k s) \<le> k"
  by (induction k s rule: whole_packets.induct) auto

text \<open>A sub-packet decodes by the type and the count in its own first bytes.\<close>

definition decodes_as :: "bytes_api \<Rightarrow> bytes \<Rightarrow> RtcpPacket \<Rightarrow> bool" where
  "decodes_as B s p \<longleftrightarrow> parse_sub_packet B
     \<lparr>hdr_version = 2, hdr_padding = (drop_bit 5 (s ! 0) AND 1 \<noteq> 0), hdr_count = s ! 0 AND 0x1F, hdr_packet_type = s ! 1,
      hdr_length = u16_from_be_bytes (s ! 2) (s ! 3)\<rparr> (drop 4 s) = Ok p"

context bytes_crate
begin

text \<open>One round of the loop, by what lies at the offset.\<close>

lemma compound_loop_round:
  fixes buf :: bytes and offset :: nat
  defines "s \<equiv> drop offset buf"
  assumes run: "4 \<le> length s" "length pkts < MAX_RTCP_SUB_PACKETS"
  shows "wire_version s \<noteq> 2 \<Longrightarrow> compound_loop B buf offset pkts = Err (InvalidRtpVersion (wire_version s))"
    and "wire_version s = 2 \<Longrightarrow> length s < wire_size s \<Longrightarrow> compound_loop B buf offset pkts = Ok pkts"
    and "wire_version s = 2 \<Longrightarrow> wire_size s \<le> length s \<Longrightarrow> \<exists>p. decodes_as B (take (wire_size s) s) p
      \<and> compound_loop B buf offset pkts = compound_loop B buf (offset + wire_size s) (pkts @ [p])"
proof -
  let ?h = "\<lparr>hdr_version = 2, hdr_padding = (drop_bit 5 (s ! 0) AND 1 \<noteq> 0), hdr_count = s ! 0 AND 0x1F,
    hdr_packet_type = s ! 1, hdr_length = u16_from_be_bytes (s ! 2) (s ! 3)\<rparr>"
  have room: "offset + 4 \<le> length buf \<and> length pkts < MAX_RTCP_SUB_PACKETS" using run by (auto simp: s_def)
  note hdr = common_header_parse_eq [OF run(1), folded wire_version_def]
  have h: "common_header_parse B s = Ok ?h" if "wire_version s = 2" using hdr that by simp
  have size: "packet_size ?h = wire_size s" "4 \<le> wire_size s" by (simp_all add: packet_size_def wire_size_def)
  have fit: "length buf < offset + wire_size s \<longleftrightarrow> length s < wire_size s" using room by (auto simp: s_def)
  show "compound_loop B buf offset pkts = Err (InvalidRtpVersion (wire_version s))" if "wire_version s \<noteq> 2"
    using room hdr that by (subst compound_loop.simps) (simp add: s_def)
  show "compound_loop B buf offset pkts = Ok pkts" if "wire_version s = 2" "length s < wire_size s"
    using room h [OF that(1)] size fit that by (subst compound_loop.simps) (simp add: Let_def flip: s_def)
  let ?pl = "take (wire_size s - 4) (drop (offset + 4) buf)"
  obtain p where p: "parse_sub_packet B ?h ?pl = Ok p" using parse_sub_packet_total by blast
  have "drop 4 (take (wire_size s) s) = ?pl" using size by (simp add: drop_take s_def add.commute)
  moreover have "take (wire_size s) s ! i = s ! i" if "i < 4" for i using that size by simp
  ultimately have "decodes_as B (take (wire_size s) s) p" using p by (simp add: decodes_as_def)
  moreover have "compound_loop B buf offset pkts = compound_loop B buf (offset + wire_size s) (pkts @ [p])"
    if "wire_version s = 2" "wire_size s \<le> length s"
    using room h [OF that(1)] size fit that p by (subst compound_loop.simps) (simp add: Let_def flip: s_def)
  ultimately show "\<exists>p. decodes_as B (take (wire_size s) s) p
      \<and> compound_loop B buf offset pkts = compound_loop B buf (offset + wire_size s) (pkts @ [p])"
    if "wire_version s = 2" "wire_size s \<le> length s" using that by blast
qed

lemma compound_loop_reads:
  assumes "length pkts + k = MAX_RTCP_SUB_PACKETS" "offset \<le> length buf"
  shows "case bad_version k (drop offset buf) of
      Some v \<Rightarrow> compound_loop B buf offset pkts = Err (InvalidRtpVersion v)
    | None \<Rightarrow> \<exists>ps. compound_loop B buf offset pkts = Ok (pkts @ ps) \<and> list_all2 (decodes_as B) (whole_packets k (drop offset buf)) ps"
  using assms
proof (induction k arbitrary: offset pkts)
  case 0
  then show ?case by (simp add: compound_loop_stop)
next
  case (Suc k)
  let ?s = "drop offset buf"
  have room: "length pkts < MAX_RTCP_SUB_PACKETS" using Suc.prems(1) by simp
  consider "length ?s < 4" | "4 \<le> length ?s" "wire_version ?s \<noteq> 2"
    | "4 \<le> length ?s" "wire_version ?s = 2" "length ?s < wire_size ?s"
    | "4 \<le> length ?s" "wire_version ?s = 2" "wire_size ?s \<le> length ?s" by linarith
  then show ?case
  proof cases
    case 1
    then have "length buf < offset + 4" by auto
    with 1 show ?thesis by (simp add: compound_loop_stop)
  next
    case 2
    with compound_loop_round(1) [OF 2(1) room] show ?thesis by simp
  next
    case 3
    with compound_loop_round(2) [OF 3(1) room] show ?thesis by simp
  next
    case 4
    obtain p where p: "decodes_as B (take (wire_size ?s) ?s) p"
      "compound_loop B buf offset pkts = compound_loop B buf (offset + wire_size ?s) (pkts @ [p])"
      using compound_loop_round(3) [OF 4(1) room 4(2,3)] by blast
    have "length (pkts @ [p]) + k = MAX_RTCP_SUB_PACKETS" "offset + wire_size ?s \<le> length buf" using Suc.prems 4 by auto
    from Suc.IH [OF this] p 4 show ?thesis by (auto simp: add.commute split: option.splits)
  qed
qed

end

text \<open>
  C22: Parsing a compound RTCP datagram is safe for every byte string and does what the bytes say. Walk
  the datagram by the length fields of its sub-packets, at most 64 of them, and stop at a remainder
  of less than four bytes or a sub-packet that does not lie whole in it. If a header met on the way
  has a version other than 2, parsing fails with that version; otherwise it yields one packet for
  each whole sub-packet, in order, each decoded from the type, count and bytes of its own. It never
  panics and has no other error.
\<close>

theorem compound_parse_bounded_and_safe:
  assumes "bytes_crate B"
  shows "case bad_version 64 buf of
      Some v \<Rightarrow> compound_parse B buf = Err (InvalidRtpVersion v)
    | None \<Rightarrow> \<exists>c. compound_parse B buf = Ok c \<and> length (packets c) \<le> 64
        \<and> list_all2 (decodes_as B) (whole_packets 64 buf) (packets c)"
proof (cases "bad_version 64 buf")
  case None
  then obtain ps where "compound_loop B buf 0 [] = Ok ps" "list_all2 (decodes_as B) (whole_packets 64 buf) ps"
    using bytes_crate.compound_loop_reads [OF assms, of "[]" 64 0 buf] by (auto simp: MAX_RTCP_SUB_PACKETS_def)
  with None length_whole_packets [of 64 buf] show ?thesis by (auto simp: compound_parse_def dest: list_all2_lengthD)
next
  case (Some v)
  with bytes_crate.compound_loop_reads [OF assms, of "[]" 64 0 buf] show ?thesis
    by (simp add: compound_parse_def MAX_RTCP_SUB_PACKETS_def)
qed

text \<open>A datagram with a whole sub-packet and a cut one, and one whose second header has version 1.\<close>

theorem compound_parse_bounded_and_safe_witness:
  "(\<exists>c p. compound_parse be_bytes_api [0x80, 204, 0, 0, 0x80, 204, 0, 9, 1] = Ok c \<and> packets c = [p]
      \<and> decodes_as be_bytes_api [0x80, 204, 0, 0] p)
    \<and> compound_parse be_bytes_api [0x80, 204, 0, 0, 0x40, 204, 0, 0] = Err (InvalidRtpVersion 1)"
proof
  have "bad_version 64 [0x80, 204, 0, 0, 0x80, 204, 0, 9, 1] = None"
    "whole_packets 64 [0x80, 204, 0, 0, 0x80, 204, 0, 9, 1] = [[0x80, 204, 0, 0]]" by code_simp+
  with compound_parse_bounded_and_safe [OF be.bytes_crate_axioms, of "[0x80, 204, 0, 0, 0x80, 204, 0, 9, 1]"]
  show "\<exists>c p. compound_parse be_bytes_api [0x80, 204, 0, 0, 0x80, 204, 0, 9, 1] = Ok c \<and> packets c = [p]
      \<and> decodes_as be_bytes_api [0x80, 204, 0, 0] p" by (auto simp: list_all2_Cons1)
  have "bad_version 64 [0x80, 204, 0, 0, 0x40, 204, 0, 0] = Some 1" by code_simp
  with compound_parse_bounded_and_safe [OF be.bytes_crate_axioms, of "[0x80, 204, 0, 0, 0x40, 204, 0, 0]"]
  show "compound_parse be_bytes_api [0x80, 204, 0, 0, 0x40, 204, 0, 0] = Err (InvalidRtpVersion 1)" by simp
qed

text \<open>
  C23: Compound RTCP round trip: serialising up to 64 well-formed sub-packets of any mix of kinds
  and parsing the datagram yields the same sub-packets in the same order; sub-packets kept as
  unknown are the ones serialisation skips.
\<close>

theorem compound_roundtrip:
  assumes "bytes_crate B" and "\<forall>p \<in> set (packets c). packet_wf p"
    and "length (filter is_known (packets c)) \<le> MAX_RTCP_SUB_PACKETS"
  shows "compound_parse B (compound_serialize B c) = Ok \<lparr>packets = filter is_known (packets c)\<rparr>"
  using bytes_crate.compound_loop_roundtrip [OF assms]
  by (simp add: compound_parse_def bytes_crate.compound_serialize_eq [OF assms(1)])

definition example_compound :: RtcpCompound where
  "example_compound = \<lparr>packets =
     [ReceiverReport (rr_empty 0x22222222),
      Sdes \<lparr>sdes_ssrc = 0x22222222, cname = [0x31, 0x30, 0x2E, 0x30]\<rparr>,
      Nack \<lparr>nack_sender_ssrc = 1, nack_media_ssrc = 2, entries = Bitmask [\<lparr>pid = 990, blp = 3\<rparr>]\<rparr>,
      App (RttEchoRequest \<lparr>req_ssrc = 7, req_timestamp_msw = 8, req_timestamp_lsw = 9\<rparr>)]\<rparr>"

theorem compound_roundtrip_witness:
  "compound_parse be_bytes_api (compound_serialize be_bytes_api example_compound) = Ok example_compound"
proof -
  have "utf8_valid [0x31, 0x30, 0x2E, 0x30]" by (rule utf8_valid_ascii) simp
  then have "\<forall>p \<in> set (packets example_compound). packet_wf p"
    by (simp add: example_compound_def rr_wf_def rr_empty_def sdes_wf_def nack_wf_def)
  from compound_roundtrip [OF be.bytes_crate_axioms this] show ?thesis
    by (simp add: example_compound_def MAX_RTCP_SUB_PACKETS_def)
qed

text \<open>
  C32: A trailing header of the wrong version discards everything before it: well-formed
  sub-packets followed by four or more bytes that do not start a version-2 header make the whole
  compound an error, so a NACK that precedes them is not served. (Errors inside a sub-packet, by
  contrast, only demote that sub-packet.)
\<close>

theorem compound_bad_version_discards_all:
  assumes "bytes_crate B" and "\<forall>p \<in> set (packets c). packet_wf p"
    and "length (filter is_known (packets c)) < MAX_RTCP_SUB_PACKETS"
    and "4 \<le> length tail" and "drop_bit 6 (tail ! 0) AND 3 \<noteq> 2"
  shows "compound_parse B (compound_serialize B c @ tail)
    = Err (InvalidRtpVersion (drop_bit 6 (tail ! 0) AND 3))"
  using bytes_crate.compound_loop_bad_version [OF assms]
  by (simp add: compound_parse_def bytes_crate.compound_serialize_eq [OF assms(1)])

theorem compound_bad_version_discards_all_witness:
  "compound_parse be_bytes_api
     (compound_serialize be_bytes_api \<lparr>packets = [Nack \<lparr>nack_sender_ssrc = 1, nack_media_ssrc = 2,
        entries = Bitmask [\<lparr>pid = 990, blp = 3\<rparr>]\<rparr>]\<rparr> @ [0, 0, 0, 0])
   = Err (InvalidRtpVersion 0)"
  using compound_bad_version_discards_all [OF be.bytes_crate_axioms, of "\<lparr>packets = [Nack \<lparr>nack_sender_ssrc = 1,
      nack_media_ssrc = 2, entries = Bitmask [\<lparr>pid = 990, blp = 3\<rparr>]\<rparr>]\<rparr>" "[0, 0, 0, 0]"]
  by (simp add: nack_wf_def MAX_RTCP_SUB_PACKETS_def)

end
