(* ===== verification/Rist_Retransmit.thy ===== *)
theory Rist_Retransmit
  imports Rist_Prelude
begin

text \<open>
  The sender's retransmit ring, \<open>RetransmitBuffer\<close> of \<open>protocol/nack_tracker.rs\<close>: a flat array
  of \<open>capacity\<close> slots indexed by \<open>seq & (capacity - 1)\<close>. What the sender relies on when it
  serves a NACK is stated as the locale \<open>packet_store\<close> and discharged for the ring: a lookup
  never returns the bytes of another packet, and of a run of consecutive packets the last
  \<open>capacity\<close> ones can be looked up.
\<close>

unbundle bit_operations_syntax

section \<open>The ring\<close>

record RetransmitSlot =
  rslot_seq :: u16
  rslot_data :: bytes

record RetransmitBuffer =
  rslots :: "RetransmitSlot option list"
  rcapacity :: nat

definition retransmit_new :: "nat \<Rightarrow> RetransmitBuffer" where
  "retransmit_new capacity =
     (let capacity = next_power_of_two capacity
      in \<lparr>rslots = replicate capacity None, rcapacity = capacity\<rparr>)"

definition retransmit_insert :: "RetransmitBuffer \<Rightarrow> u16 \<Rightarrow> bytes \<Rightarrow> RetransmitBuffer" where
  "retransmit_insert rb seq data =
     (let idx = ring_index (rcapacity rb) seq
      in rb\<lparr>rslots := (rslots rb)[idx := Some \<lparr>rslot_seq = seq, rslot_data = data\<rparr>]\<rparr>)"

definition retransmit_get :: "RetransmitBuffer \<Rightarrow> u16 \<Rightarrow> bytes option" where
  "retransmit_get rb seq =
     (let idx = ring_index (rcapacity rb) seq
      in case rslots rb ! idx of
           Some slot \<Rightarrow> if rslot_seq slot = seq then Some (rslot_data slot) else None
         | None \<Rightarrow> None)"

text \<open>The shape every operation keeps; it puts every index the operations use in range.\<close>

definition retransmit_inv :: "RetransmitBuffer \<Rightarrow> bool" where
  "retransmit_inv rb \<longleftrightarrow> is_pow2 (rcapacity rb) \<and> length (rslots rb) = rcapacity rb"

section \<open>What a store of sent packets promises\<close>

locale packet_store =
  fixes put :: "'s \<Rightarrow> u16 \<Rightarrow> 'd \<Rightarrow> 's"
    and get :: "'s \<Rightarrow> u16 \<Rightarrow> 'd option"
    and cap :: "'s \<Rightarrow> nat"
    and inv :: "'s \<Rightarrow> bool"
  assumes inv_put: "inv s \<Longrightarrow> inv (put s k d)"
    and cap_put: "cap (put s k d) = cap s"
    and get_put_same: "inv s \<Longrightarrow> get (put s k d) k = Some d"
    and get_put_other: "inv s \<Longrightarrow> k \<noteq> k' \<Longrightarrow> get (put s k d) k' = Some e \<Longrightarrow> get s k' = Some e"
    and get_put_near: "inv s \<Longrightarrow> 0 < unat (k - k') \<Longrightarrow> unat (k - k') < cap s \<Longrightarrow>
                       get (put s k d) k' = get s k'"
begin

text \<open>A history of stores, oldest first, and the history of a run of consecutive numbers.\<close>

definition put_all :: "'s \<Rightarrow> (u16 \<times> 'd) list \<Rightarrow> 's" where
  "put_all s ps = foldl (\<lambda>s (k, d). put s k d) s ps"

definition run_from :: "u16 \<Rightarrow> 'd list \<Rightarrow> (u16 \<times> 'd) list" where
  "run_from b ds = map (\<lambda>i. (b + of_nat i, ds ! i)) [0..<length ds]"

lemma put_all_snoc [simp]:
  "put_all s [] = s" "put_all s (ps @ [(k, d)]) = put (put_all s ps) k d"
  by (simp_all add: put_all_def)

lemma inv_put_all: "inv s \<Longrightarrow> inv (put_all s ps) \<and> cap (put_all s ps) = cap s"
  by (induction ps rule: rev_induct) (auto simp: inv_put cap_put)

lemma run_from_snoc: "run_from b (ds @ [d]) = run_from b ds @ [(b + of_nat (length ds), d)]"
  by (auto simp: run_from_def nth_append)

text \<open>A lookup returns the newest packet stored under the number, or nothing.\<close>

lemma get_sound:
  assumes "inv s" "\<And>k. get s k = None" "get (put_all s ps) k = Some d"
  shows "map_of (rev ps) k = Some d"
  using assms(3)
proof (induction ps rule: rev_induct)
  case Nil
  with assms(2) show ?case by simp
next
  case (snoc p ps)
  obtain k' d' where p: "p = (k', d')" by (cases p)
  have inv': "inv (put_all s ps)" using inv_put_all [OF assms(1)] by blast
  show ?case
  proof (cases "k' = k")
    case True
    with snoc.prems inv' p show ?thesis by (simp add: get_put_same)
  next
    case False
    with snoc.prems inv' p have "get (put_all s ps) k = Some d" by (auto dest: get_put_other)
    with snoc.IH False p show ?thesis by simp
  qed
qed

text \<open>Of a run of consecutive packets the last \<open>cap\<close> are all present.\<close>

lemma get_recent:
  assumes "inv s" "i < length ds" "length ds - i \<le> cap s" "length ds - i \<le> 65536"
  shows "get (put_all s (run_from b ds)) (b + of_nat i) = Some (ds ! i)"
  using assms(2-)
proof (induction ds rule: rev_induct)
  case Nil
  then show ?case by simp
next
  case (snoc d ds)
  let ?s = "put_all s (run_from b ds)"
  have inv': "inv ?s" "cap ?s = cap s" using inv_put_all [OF assms(1)] by blast+
  show ?case
  proof (cases "i = length ds")
    case True
    with inv' show ?thesis by (simp add: run_from_snoc get_put_same)
  next
    case False
    with snoc.prems have i: "i < length ds" by simp
    have "(b + of_nat (length ds)) - (b + of_nat i) = (of_nat (length ds - i) :: u16)"
      using i by (simp add: of_nat_diff)
    then have "unat ((b + of_nat (length ds)) - (b + of_nat i)) = length ds - i"
      using i snoc.prems by (metis (no_types, lifting) unat_of_nat_u16 Suc_diff_le length_append_singleton
          less_eq_Suc_le order_less_le_trans lessI less_imp_le_nat)
    then have "get (put ?s (b + of_nat (length ds)) d) (b + of_nat i) = get ?s (b + of_nat i)"
      using i snoc.prems inv' by (intro get_put_near) auto
    with snoc i show ?thesis by (simp add: run_from_snoc nth_append)
  qed
qed

end

section \<open>The ring is such a store\<close>

lemma retransmit_inv_new [simp]: "retransmit_inv (retransmit_new c)"
  by (simp add: retransmit_inv_def retransmit_new_def Let_def)

lemma retransmit_new_capacity [simp]: "rcapacity (retransmit_new c) = next_power_of_two c"
  by (simp add: retransmit_new_def Let_def)

lemma retransmit_index [simp]:
  "retransmit_inv rb \<Longrightarrow> ring_index (rcapacity rb) seq < length (rslots rb)"
  by (simp add: retransmit_inv_def)

lemma retransmit_get_new [simp]: "retransmit_get (retransmit_new c) k = None"
  by (simp add: retransmit_get_def retransmit_new_def Let_def)

interpretation ring: packet_store retransmit_insert retransmit_get rcapacity retransmit_inv
proof unfold_locales
  fix s k k' and d e :: bytes
  assume inv: "retransmit_inv s"
  show "retransmit_inv (retransmit_insert s k d)"
    using inv by (simp add: retransmit_inv_def retransmit_insert_def Let_def)
  show "retransmit_get (retransmit_insert s k d) k = Some d"
    using inv by (simp add: retransmit_get_def retransmit_insert_def Let_def)
  show "retransmit_get (retransmit_insert s k d) k' = retransmit_get s k'"
    if "0 < unat (k - k')" "unat (k - k') < rcapacity s"
    using inv ring_index_near [of "rcapacity s" k k'] that
    by (simp add: retransmit_get_def retransmit_insert_def Let_def retransmit_inv_def)
  show "retransmit_get s k' = Some e"
    if "k \<noteq> k'" "retransmit_get (retransmit_insert s k d) k' = Some e"
    using inv that
    by (cases "ring_index (rcapacity s) k = ring_index (rcapacity s) k'")
      (auto simp: retransmit_get_def retransmit_insert_def Let_def split: option.splits if_splits)
qed (simp add: retransmit_insert_def Let_def)

text \<open>The state of the ring after the sender has sent the given packets.\<close>

definition retransmit_after :: "nat \<Rightarrow> (u16 \<times> bytes) list \<Rightarrow> RetransmitBuffer" where
  "retransmit_after c ps = foldl (\<lambda>rb (k, d). retransmit_insert rb k d) (retransmit_new c) ps"

lemma retransmit_after_eq: "retransmit_after c ps = ring.put_all (retransmit_new c) ps"
  by (simp add: retransmit_after_def ring.put_all_def)

lemma retransmit_after_inv [simp]:
  "retransmit_inv (retransmit_after c ps)" "rcapacity (retransmit_after c ps) = next_power_of_two c"
  using ring.inv_put_all [OF retransmit_inv_new, of c ps]
  by (simp_all add: retransmit_after_eq)

text \<open>
  A retransmission is never the wrong packet: whatever packets the sender has stored, in
  whatever order, a lookup by sequence number returns the newest bytes stored under exactly
  that number, or nothing.
\<close>

lemma retransmit_get_sound:
  assumes "retransmit_get (retransmit_after c ps) seq = Some d"
  shows "map_of (rev ps) seq = Some d"
  using assms ring.get_sound [of "retransmit_new c" ps seq d]
  by (simp add: retransmit_after_eq)

text \<open>
  The ring serves every recent packet: after the sender has sent any run of consecutively
  numbered packets, across the wrap-around of the 16-bit number, each of the last
  \<open>next_power_of_two(capacity)\<close> of them (at most one lap of the number space) is found,
  with the bytes it was sent with.
\<close>

lemma retransmit_serves_recent:
  assumes "i < length ds" "length ds - i \<le> next_power_of_two c" "length ds - i \<le> 65536"
  shows "retransmit_get (retransmit_after c (map (\<lambda>j. (b + of_nat j, ds ! j)) [0..<length ds]))
           (b + of_nat i) = Some (ds ! i)"
  using ring.get_recent [of "retransmit_new c" i ds b] assms
  by (simp add: retransmit_after_eq ring.run_from_def)

end
