(* ===== verification/Rist_Rtt.thy ===== *)
theory Rist_Rtt
  imports Rist_Prelude
begin

text \<open>
  The round-trip estimator of \<open>protocol/rtt.rs\<close>: the time stamps of echo requests and the
  smoothed round-trip time the receiver derives its NACK delay from. Durations are nanoseconds;
  \<open>Duration / u32\<close> rounds down to whole nanoseconds as \<open>div\<close> does, and \<open>as_micros\<close> as division by
  1000. The lemmas bound the estimate by the samples, so that the products \<open>srtt * 7\<close> and
  \<open>rttvar * 3\<close> stay far below the range of \<open>Duration\<close> where they would panic.
\<close>

unbundle bit_operations_syntax

section \<open>State and operations\<close>

record RttEstimator =
  srtt :: "duration option"
  rttvar :: "duration option"
  last_request_time :: "instant option"
  last_request_timestamp :: "u64 option"
  request_interval :: duration
  next_request_at :: "instant option"

definition rtt_new :: "duration \<Rightarrow> RttEstimator" where
  "rtt_new interval = \<lparr>srtt = None, rttvar = None, last_request_time = None,
     last_request_timestamp = None, request_interval = interval, next_request_at = None\<rparr>"

definition as_micros :: "duration \<Rightarrow> nat" where
  "as_micros d = d div 1000"

definition generate_request :: "RttEstimator \<Rightarrow> instant \<Rightarrow> RttEstimator \<times> u32 \<times> u32" where
  "generate_request est now =
     (let elapsed = of_nat (as_micros (now - (case last_request_time est of Some t \<Rightarrow> t | None \<Rightarrow> now)));
          ts = (case last_request_timestamp est of Some t \<Rightarrow> t + elapsed | None \<Rightarrow> 0) :: u64
      in (est\<lparr>last_request_time := Some now, last_request_timestamp := Some ts,
             next_request_at := Some (now + request_interval est)\<rparr>,
          ucast (drop_bit 32 ts), ucast ts))"

text \<open>\<open>Duration::abs_diff\<close>.\<close>

definition abs_diff :: "duration \<Rightarrow> duration \<Rightarrow> duration" where
  "abs_diff a b = (if a < b then b - a else a - b)"

definition update_rtt :: "RttEstimator \<Rightarrow> duration \<Rightarrow> RttEstimator" where
  "update_rtt est sample =
     (case srtt est of
        None \<Rightarrow> est\<lparr>srtt := Some sample, rttvar := Some (sample div 2)\<rparr>
      | Some s \<Rightarrow>
          let v = (case rttvar est of Some v \<Rightarrow> v | None \<Rightarrow> sample div 2);
              diff = abs_diff sample s;
              new_rttvar = v * 3 div 4 + diff div 4;
              new_srtt = s * 7 div 8 + sample div 8
          in est\<lparr>srtt := Some new_srtt, rttvar := Some new_rttvar\<rparr>)"

text \<open>The echoed time stamp is an argument the source receives and does not use.\<close>

definition on_response :: "RttEstimator \<Rightarrow> instant \<Rightarrow> u32 \<Rightarrow> u32 \<Rightarrow> u32 \<Rightarrow> RttEstimator" where
  "on_response est now request_msw request_lsw processing_delay_us =
     (case last_request_time est of
        Some sent_time \<Rightarrow>
          let total_time = now - sent_time;
              processing = 1000 * unat processing_delay_us;
              rtt = total_time - processing
          in update_rtt est rtt
      | None \<Rightarrow> est)"

definition nack_delay :: "RttEstimator \<Rightarrow> duration option" where
  "nack_delay est = map_option (\<lambda>s. s div 2) (srtt est)"

definition should_send_request :: "RttEstimator \<Rightarrow> instant \<Rightarrow> bool" where
  "should_send_request est now \<longleftrightarrow> (case next_request_at est of None \<Rightarrow> True | Some next \<Rightarrow> now \<ge> next)"

section \<open>The estimate stays within the samples\<close>

text \<open>Both estimates lie within the bounds of the samples, up to the rounding of the divisions.\<close>

definition rtt_within :: "duration \<Rightarrow> duration \<Rightarrow> RttEstimator \<Rightarrow> bool" where
  "rtt_within lo hi est \<longleftrightarrow>
     (case srtt est of
        None \<Rightarrow> True
      | Some s \<Rightarrow> s \<le> hi \<and> lo \<le> s + 14 \<and> (\<exists>v. rttvar est = Some v \<and> v \<le> hi))"

lemma ewma_srtt:
  assumes "s \<le> hi" "lo \<le> s + 14" "lo \<le> r" "r \<le> hi"
  shows "s * 7 div 8 + r div 8 \<le> (hi :: nat)" "lo \<le> s * 7 div 8 + r div 8 + 14"
  using assms div_times_less_eq_dividend [of "s * 7" 8] div_times_less_eq_dividend [of r 8]
    dividend_less_div_times [of 8 "s * 7"] dividend_less_div_times [of 8 r] by linarith+

lemma ewma_rttvar:
  assumes "v \<le> hi" "d \<le> (hi :: nat)"
  shows "v * 3 div 4 + d div 4 \<le> hi"
  using assms div_times_less_eq_dividend [of "v * 3" 4] div_times_less_eq_dividend [of d 4] by linarith

lemma update_rtt_within:
  assumes "rtt_within lo hi est" "lo \<le> r" "r \<le> hi"
  shows "rtt_within lo hi (update_rtt est r)"
proof (cases "srtt est")
  case None
  with assms show ?thesis by (simp add: rtt_within_def update_rtt_def)
next
  case (Some s)
  then obtain v where v: "rttvar est = Some v" "v \<le> hi" "s \<le> hi" "lo \<le> s + 14"
    using assms(1) by (auto simp: rtt_within_def)
  have "abs_diff r s \<le> hi" using assms v by (auto simp: abs_diff_def)
  with Some v assms ewma_srtt [of s hi lo r] ewma_rttvar [of v hi "abs_diff r s"] show ?thesis
    by (simp add: rtt_within_def update_rtt_def Let_def)
qed

text \<open>
  C36: The smoothed round-trip time stays within the measured ones: after any sequence of samples
  between \<open>lo\<close> and \<open>hi\<close> nanoseconds the estimate is at most \<open>hi\<close> and at least \<open>lo\<close> less the 14
  nanoseconds the divisions can lose, and so is the NACK delay derived from it; the variation is
  at most \<open>hi\<close>.
\<close>

theorem srtt_within_samples:
  assumes "samples \<noteq> []" "\<forall>r \<in> set samples. lo \<le> r \<and> r \<le> hi"
  shows "\<exists>s v. srtt (foldl update_rtt (rtt_new i) samples) = Some s \<and> s \<le> hi \<and> lo \<le> s + 14
    \<and> rttvar (foldl update_rtt (rtt_new i) samples) = Some v \<and> v \<le> hi
    \<and> nack_delay (foldl update_rtt (rtt_new i) samples) = Some (s div 2)"
proof -
  have all: "rtt_within lo hi (foldl update_rtt est samples)" if "rtt_within lo hi est" for est
    using assms(2) that by (induction samples arbitrary: est) (auto intro: update_rtt_within)
  have "rtt_within lo hi (foldl update_rtt (rtt_new i) samples)"
    by (rule all) (simp add: rtt_within_def rtt_new_def)
  moreover have "srtt (foldl update_rtt (rtt_new i) samples) \<noteq> None"
    using assms(1) by (cases samples rule: rev_cases) (simp_all add: update_rtt_def Let_def split: option.splits)
  ultimately show ?thesis by (auto simp: rtt_within_def nack_delay_def)
qed

theorem srtt_within_samples_witness:
  "\<exists>s v. srtt (foldl update_rtt (rtt_new 1000) [100, 60, 80]) = Some s \<and> s \<le> 100 \<and> 60 \<le> s + 14
    \<and> rttvar (foldl update_rtt (rtt_new 1000) [100, 60, 80]) = Some v \<and> v \<le> 100
    \<and> nack_delay (foldl update_rtt (rtt_new 1000) [100, 60, 80]) = Some (s div 2)"
  by (rule srtt_within_samples) auto

text \<open>A request's two words hold its time stamp, and requests keep their distance.\<close>

lemma generate_request_words:
  assumes "generate_request est now = (est', msw, lsw)"
  shows "\<exists>ts. last_request_timestamp est' = Some ts \<and> push_bit 32 (ucast msw) OR ucast lsw = ts"
proof -
  have "push_bit 32 (ucast (ucast (drop_bit 32 ts) :: u32)) OR ucast (ucast ts :: u32) = (ts :: u64)" for ts
    by (rule bit_word_eqI) (auto simp: bit_simps not_less)
  with assms show ?thesis by (auto simp: generate_request_def Let_def)
qed

lemma generate_request_spacing:
  assumes "generate_request est now = (est', msw, lsw)"
  shows "should_send_request est' later \<longleftrightarrow> now + request_interval est \<le> later"
  using assms by (auto simp: generate_request_def should_send_request_def Let_def)

end
