(* ===== verification/Rist_Rtcp_State.thy ===== *)
theory Rist_Rtcp_State
  imports Rist_F64 Rist_Seq Rist_Reports Rist_Sdes
begin

text \<open>
  The state behind sender and receiver reports, \<open>protocol/rtcp_state.rs\<close>. A \<open>SystemTime\<close> is the
  number of nanoseconds since the Unix epoch, possibly negative; the readings of \<open>SystemTime::now()\<close>
  are arguments. Counters wrap at their width. The main lemmas relate the extended sequence number
  of the receiver to the unwrapped numbering of the stream, and bound the loss fields of its reports.
\<close>

unbundle bit_operations_syntax

type_synonym system_time = int

section \<open>Wall-clock time\<close>

definition NTP_EPOCH_OFFSET :: u64 where [simp]:
  "NTP_EPOCH_OFFSET = 2208988800"

text \<open>\<open>time.duration_since(UNIX_EPOCH).unwrap_or_default()\<close>.\<close>

definition since_unix_epoch :: "system_time \<Rightarrow> duration" where
  "since_unix_epoch time = nat time"

definition system_time_to_ntp :: "system_time \<Rightarrow> u32 \<times> u32" where
  "system_time_to_ntp time =
     (let unix_duration = since_unix_epoch time;
          secs = of_nat (unix_duration div 1000000000) + NTP_EPOCH_OFFSET;
          frac = push_bit 32 (of_nat (unix_duration mod 1000000000)) div 1000000000 :: u64
      in (ucast secs, ucast frac))"

section \<open>Sender state\<close>

record RtcpSenderState =
  s_ssrc :: u32
  s_cname :: bytes
  packet_count :: u32
  octet_count :: u32
  last_rtp_timestamp :: u32
  last_rtp_wallclock :: "instant option"
  rtp_ts_epoch :: instant
  rtp_ts_epoch_system :: system_time
  s_last_rtcp_time :: "instant option"
  s_rtcp_interval :: duration

definition sender_state_new ::
  "u32 \<Rightarrow> bytes \<Rightarrow> duration \<Rightarrow> instant \<Rightarrow> system_time \<Rightarrow> RtcpSenderState" where
  "sender_state_new ssrc name interval epoch epoch_system =
     \<lparr>s_ssrc = ssrc, s_cname = name, packet_count = 0, octet_count = 0, last_rtp_timestamp = 0,
      last_rtp_wallclock = None, rtp_ts_epoch = epoch, rtp_ts_epoch_system = epoch_system,
      s_last_rtcp_time = None, s_rtcp_interval = interval\<rparr>"

definition on_packet_sent :: "RtcpSenderState \<Rightarrow> nat \<Rightarrow> u32 \<Rightarrow> instant \<Rightarrow> RtcpSenderState" where
  "on_packet_sent st payload_size ts now =
     st\<lparr>packet_count := packet_count st + 1, octet_count := octet_count st + of_nat payload_size,
        last_rtp_timestamp := ts, last_rtp_wallclock := Some now\<rparr>"

definition sender_should_send_rtcp :: "RtcpSenderState \<Rightarrow> instant \<Rightarrow> bool" where
  "sender_should_send_rtcp st now \<longleftrightarrow>
     (case s_last_rtcp_time st of None \<Rightarrow> True | Some prev \<Rightarrow> now - prev \<ge> s_rtcp_interval st)"

definition generate_sr :: "RtcpSenderState \<Rightarrow> instant \<Rightarrow> system_time \<Rightarrow> RtcpSenderState \<times> SenderReport" where
  "generate_sr st now wall =
     (let (msw, lsw) = system_time_to_ntp wall;
          elapsed = now - rtp_ts_epoch st;
          epoch_unix = since_unix_epoch (rtp_ts_epoch_system st);
          ntp_us = (of_nat (epoch_unix div 1000) + NTP_EPOCH_OFFSET * 1000000) + of_nat (elapsed div 1000);
          ts = ucast (ntp_us * 90 div 1000)
      in (st\<lparr>s_last_rtcp_time := Some now\<rparr>,
          \<lparr>sr_ssrc = s_ssrc st, ntp_msw = msw, ntp_lsw = lsw, rtp_timestamp = ts,
           sender_packet_count = packet_count st, sender_octet_count = octet_count st\<rparr>))"

definition sender_generate_sdes :: "RtcpSenderState \<Rightarrow> Sdes" where
  "sender_generate_sdes st = \<lparr>sdes_ssrc = s_ssrc st, cname = s_cname st\<rparr>"

section \<open>Receiver state\<close>

record RtcpReceiverState =
  r_ssrc :: u32
  r_cname :: bytes
  sender_ssrc :: "u32 option"
  extended_max_seq :: u32
  seq_cycles :: u16
  max_seq :: u16
  first_packet_received :: bool
  r_base_seq :: u16
  packets_received :: u32
  expected_prior :: u32
  received_prior :: u32
  jitter :: rat
  last_transit :: rat
  last_sr_ntp :: u32
  last_sr_time :: "instant option"
  r_last_rtcp_time :: "instant option"
  r_rtcp_interval :: duration

definition receiver_state_new :: "u32 \<Rightarrow> bytes \<Rightarrow> duration \<Rightarrow> RtcpReceiverState" where
  "receiver_state_new ssrc name interval =
     \<lparr>r_ssrc = ssrc, r_cname = name, sender_ssrc = None, extended_max_seq = 0, seq_cycles = 0,
      max_seq = 0, first_packet_received = False, r_base_seq = 0, packets_received = 0,
      expected_prior = 0, received_prior = 0, jitter = 0, last_transit = 0, last_sr_ntp = 0,
      last_sr_time = None, r_last_rtcp_time = None, r_rtcp_interval = interval\<rparr>"

text \<open>The sequence part and the jitter part of \<open>on_packet_received\<close>, in the order of the source.\<close>

definition advance_max_seq :: "RtcpReceiverState \<Rightarrow> u16 \<Rightarrow> RtcpReceiverState" where
  "advance_max_seq st seq =
     (if \<not> first_packet_received st
      then st\<lparr>first_packet_received := True, r_base_seq := seq, max_seq := seq,
              extended_max_seq := ucast seq\<rparr>
      else if sint (seq - max_seq st) > 0
      then let cycles = (if seq < max_seq st then seq_cycles st + 1 else seq_cycles st)
           in st\<lparr>seq_cycles := cycles, max_seq := seq,
                 extended_max_seq := push_bit 16 (ucast cycles) OR ucast seq\<rparr>
      else st)"

definition update_jitter :: "RtcpReceiverState \<Rightarrow> u32 \<Rightarrow> u64 \<Rightarrow> RtcpReceiverState" where
  "update_jitter st ts arrival_time_us =
     (let arrival_rtp = of_nat (f64_to_nat (2 ^ 32 - 1)
            (f64_mul (f64_div (f64_of_nat (unat arrival_time_us)) 1000000) 90000)) :: u32;
          transit = f64_of_nat (unat (arrival_rtp - ts));
          d = \<bar>f64_sub transit (last_transit st)\<bar>
      in st\<lparr>jitter := (if last_transit st \<noteq> 0
                       then f64_add (jitter st) (f64_div (f64_sub d (jitter st)) 16) else jitter st),
            last_transit := transit\<rparr>)"

definition receiver_on_packet_received ::
  "RtcpReceiverState \<Rightarrow> u16 \<Rightarrow> u32 \<Rightarrow> u64 \<Rightarrow> bool \<Rightarrow> RtcpReceiverState" where
  "receiver_on_packet_received st seq ts arrival_time_us is_duplicate =
     (if is_duplicate then st
      else let st = advance_max_seq st seq;
               st = st\<lparr>packets_received := packets_received st + 1\<rparr>
           in update_jitter st ts arrival_time_us)"

definition on_sr_received :: "RtcpReceiverState \<Rightarrow> SenderReport \<Rightarrow> instant \<Rightarrow> RtcpReceiverState" where
  "on_sr_received st sr now =
     st\<lparr>sender_ssrc := Some (sr_ssrc sr), last_sr_ntp := compact_ntp sr, last_sr_time := Some now\<rparr>"

definition receiver_should_send_rtcp :: "RtcpReceiverState \<Rightarrow> instant \<Rightarrow> bool" where
  "receiver_should_send_rtcp st now \<longleftrightarrow>
     (case r_last_rtcp_time st of
        None \<Rightarrow> first_packet_received st | Some prev \<Rightarrow> now - prev \<ge> r_rtcp_interval st)"

definition clamp24 :: "int \<Rightarrow> int" where
  "clamp24 n = max (- 8388608) (min 8388607 n)"

definition generate_rr :: "RtcpReceiverState \<Rightarrow> instant \<Rightarrow> RtcpReceiverState \<times> ReceiverReport" where
  "generate_rr st now =
     (let st = st\<lparr>r_last_rtcp_time := Some now\<rparr>;
          source = (case sender_ssrc st of Some s \<Rightarrow> s | None \<Rightarrow> 0)
      in if \<not> first_packet_received st then (st, rr_empty (r_ssrc st))
         else
           let expected = extended_max_seq st - ucast (r_base_seq st) + 1;
               expected_interval = expected - expected_prior st;
               received_interval = packets_received st - received_prior st;
               fraction = (if expected_interval = 0 \<or> received_interval \<ge> expected_interval then 0
                 else let lost_interval = expected_interval - received_interval
                      in f64_to_nat 255 (f64_mul (f64_div (f64_of_nat (unat lost_interval))
                                                   (f64_of_nat (unat expected_interval))) 256));
               cumulative = clamp24 (int (unat expected) - int (unat (packets_received st)));
               delay = (case last_sr_time st of
                          Some sr_time \<Rightarrow> f64_to_nat (2 ^ 32 - 1) (f64_mul (as_secs_f64 (now - sr_time)) 65536)
                        | None \<Rightarrow> 0)
           in (st\<lparr>expected_prior := expected, received_prior := packets_received st\<rparr>,
               \<lparr>rr_ssrc = r_ssrc st,
                reports = [\<lparr>rb_ssrc = source, fraction_lost = of_nat fraction,
                            cumulative_lost = of_int cumulative,
                            extended_highest_seq = extended_max_seq st,
                            rb_jitter = of_nat (f64_to_nat (2 ^ 32 - 1) (jitter st)),
                            last_sr = last_sr_ntp st, delay_since_last_sr = of_nat delay\<rparr>]\<rparr>))"

definition receiver_generate_sdes :: "RtcpReceiverState \<Rightarrow> Sdes" where
  "receiver_generate_sdes st = \<lparr>sdes_ssrc = r_ssrc st, cname = r_cname st\<rparr>"

section \<open>The extended sequence number counts cycles\<close>

text \<open>
  The state after the packets with the unwrapped numbers \<open>p\<close>: the extended number is the wire
  number of the first packet plus the distance from it to the highest one.
\<close>

definition extended_of :: "nat list \<Rightarrow> nat" where
  "extended_of p = hd p mod 65536 + (Max (set p) - hd p)"

definition tracks_max :: "RtcpReceiverState \<Rightarrow> nat list \<Rightarrow> bool" where
  "tracks_max st p \<longleftrightarrow> first_packet_received st \<and> r_base_seq st = of_nat (hd p)
     \<and> max_seq st = of_nat (Max (set p)) \<and> seq_cycles st = of_nat (extended_of p div 65536)
     \<and> extended_max_seq st = of_nat (extended_of p)"

lemma join_halves:
  "push_bit 16 (ucast (of_nat (n div 65536) :: u16)) OR ucast (of_nat n :: u16) = (of_nat n :: u32)"
proof -
  have "ucast (of_nat n :: u16) = (take_bit 16 (of_nat n) :: u32)"
    by (rule bit_word_eqI) (auto simp: bit_simps)
  moreover have "push_bit 16 (ucast (of_nat (n div 65536) :: u16)) = (push_bit 16 (drop_bit 16 (of_nat n)) :: u32)"
  proof -
    have "n div 65536 = drop_bit 16 n" by (simp add: drop_bit_eq_div)
    then show ?thesis
      by (auto intro!: bit_word_eqI simp: bit_simps)
  qed
  ultimately show ?thesis by (auto intro!: bit_word_eqI simp: bit_simps)
qed

lemma extended_mod: "hd p \<le> Max (set p) \<Longrightarrow> extended_of p mod 65536 = Max (set p) mod 65536"
proof -
  assume "hd p \<le> Max (set p)"
  moreover have "(hd p mod 65536 + (Max (set p) - hd p)) mod 65536 = (hd p + (Max (set p) - hd p)) mod 65536"
    by (simp add: mod_simps)
  ultimately show ?thesis by (simp add: extended_of_def)
qed

text \<open>Adding less than a lap crosses a multiple of 65536 exactly when the remainder drops.\<close>

lemma lap_crossing:
  fixes e d :: nat
  assumes "0 < d" "d < 65536"
  shows "(e + d) div 65536 = e div 65536 + (if (e + d) mod 65536 < e mod 65536 then 1 else 0)"
proof -
  have e: "e = e div 65536 * 65536 + e mod 65536" by simp
  show ?thesis
  proof (cases "e mod 65536 + d < 65536")
    case True
    have "e + d = (e mod 65536 + d) + 65536 * (e div 65536)" using e by simp
    then have "(e + d) div 65536 = e div 65536" "(e + d) mod 65536 = e mod 65536 + d"
      using True by (metis add.right_neutral add_0 div_less div_mult_self2 zero_neq_numeral, metis True mod_less mod_mult_self2)
    then show ?thesis by simp
  next
    case False
    have "e + d = (e mod 65536 + d - 65536) + 65536 * (e div 65536 + 1)" using e False by simp
    moreover have "e mod 65536 + d - 65536 < 65536" using assms by simp
    ultimately have "(e + d) div 65536 = e div 65536 + 1" "(e + d) mod 65536 = e mod 65536 + d - 65536"
      by (metis add.right_neutral add_0 div_less div_mult_self2 zero_neq_numeral, metis mod_less mod_mult_self2)
    then show ?thesis using False assms by simp
  qed
qed

lemma of_nat_mod_u16: "(of_nat (n mod 65536) :: u16) = of_nat n"
  by (simp add: of_nat_mod word_of_nat_eq_iff take_bit_eq_mod)

lemma unat_of_nat_u32: "n < 2 ^ 32 \<Longrightarrow> unat (of_nat n :: u32) = n"
  by (simp add: unat_of_nat)

lemma ucast_of_nat_u16: "ucast (of_nat n :: u16) = (of_nat (n mod 65536) :: u32)"
  by (simp add: unsigned_of_nat take_bit_eq_mod)

lemma tracks_max_step:
  assumes st: "tracks_max st p" "p \<noteq> []" and near: "v < Max (set p) + 32768" "Max (set p) < v + 32768"
  shows "tracks_max (advance_max_seq st (of_nat v)) (p @ [v])"
proof -
  define m where "m = Max (set p)"
  define e where "e = extended_of p"
  have hd: "hd p \<le> m" "hd (p @ [v]) = hd p" using st(2) by (simp_all add: m_def)
  have top: "Max (set (p @ [v])) = max m v" using st(2) by (simp add: m_def max.commute)
  have old: "first_packet_received st" "r_base_seq st = of_nat (hd p)" "max_seq st = of_nat m"
    "seq_cycles st = of_nat (e div 65536)" "extended_max_seq st = of_nat e"
    using st(1) by (simp_all add: tracks_max_def m_def e_def)
  have em: "e mod 65536 = m mod 65536" using extended_mod [of p] hd by (simp add: e_def m_def)
  show ?thesis
  proof (cases "m < v")
    case True
    define x where "x = e + (v - m)"
    have x: "extended_of (p @ [v]) = x"
      using True hd(1) unfolding extended_of_def top hd(2) by (simp add: x_def e_def extended_of_def m_def [symmetric])
    have "x mod 65536 = (e mod 65536 + (v - m)) mod 65536" by (simp add: x_def mod_simps)
    also have "\<dots> = v mod 65536" unfolding em using True by (metis mod_add_left_eq le_add_diff_inverse less_imp_le_nat)
    finally have v: "x mod 65536 = v mod 65536" .
    have lt: "(of_nat v :: u16) < of_nat m \<longleftrightarrow> x mod 65536 < e mod 65536"
      by (simp add: v em word_less_nat_alt unat_of_nat)
    have pos: "0 < sint (of_nat v - of_nat m :: u16)"
      using wire_diff_ahead [of m v] True near by (simp add: m_def)
    have c: "(if x mod 65536 < e mod 65536 then seq_cycles st + 1 else seq_cycles st) = of_nat (x div 65536)"
      using lap_crossing [of "v - m" e] True near old(4) by (simp add: m_def x_def)
    have "(of_nat x :: u16) = of_nat v" using v by (metis of_nat_mod_u16)
    then have "push_bit 16 (ucast (of_nat (x div 65536) :: u16)) OR ucast (of_nat v :: u16) = (of_nat x :: u32)"
      using join_halves [of x] by simp
    then have "advance_max_seq st (of_nat v)
        = st\<lparr>seq_cycles := of_nat (x div 65536), max_seq := of_nat v, extended_max_seq := of_nat x\<rparr>"
      using old pos lt c by (simp add: advance_max_seq_def Let_def split del: if_split)
    with old True x show ?thesis by (simp add: tracks_max_def top hd(2) max_def del: set_append)
  next
    case False
    have "v < m \<Longrightarrow> m - v < 32768" using near(2) by (simp add: m_def)
    with False have "\<not> 0 < sint (of_nat v - of_nat m :: u16)"
      using wire_diff_behind [of v m] by (cases "v = m") auto
    moreover have "extended_of (p @ [v]) = e"
      using False unfolding extended_of_def top hd(2) by (simp add: e_def extended_of_def m_def [symmetric] max_def)
    ultimately show ?thesis
      using old False by (simp add: tracks_max_def advance_max_seq_def top hd(2) max_def del: set_append)
  qed
qed

text \<open>The receiver after a stream of fresh packets, given by their unwrapped numbers.\<close>

definition receive_all ::
  "(nat \<Rightarrow> u32) \<Rightarrow> (nat \<Rightarrow> u64) \<Rightarrow> RtcpReceiverState \<Rightarrow> nat list \<Rightarrow> RtcpReceiverState" where
  "receive_all ts arr st vs =
     foldl (\<lambda>st v. receiver_on_packet_received st (of_nat v) (ts v) (arr v) False) st vs"

lemma tracks_max_received:
  "tracks_max (receiver_on_packet_received st seq ts arr False) p \<longleftrightarrow> tracks_max (advance_max_seq st seq) p"
  by (simp add: receiver_on_packet_received_def update_jitter_def tracks_max_def Let_def)

lemma received_count:
  "packets_received (receiver_on_packet_received st seq ts arr False) = packets_received st + 1"
  by (simp add: receiver_on_packet_received_def update_jitter_def advance_max_seq_def Let_def)

lemma receive_all_tracks:
  assumes near: "\<And>i. 0 < i \<Longrightarrow> i < length vs \<Longrightarrow>
      vs ! i < Max (set (take i vs)) + 32768 \<and> Max (set (take i vs)) < vs ! i + 32768"
    and "vs \<noteq> []"
  shows "tracks_max (receive_all ts arr (receiver_state_new ssrc name interval) vs) vs
    \<and> packets_received (receive_all ts arr (receiver_state_new ssrc name interval) vs) = of_nat (length vs)"
  using assms
proof (induction vs rule: rev_induct)
  case (snoc v vs)
  let ?new = "receiver_state_new ssrc name interval"
  show ?case
  proof (cases "vs = []")
    case True
    then show ?thesis
      by (simp add: receive_all_def tracks_max_received received_count)
        (simp add: tracks_max_def advance_max_seq_def receiver_state_new_def extended_of_def ucast_of_nat_u16)
  next
    case False
    have "tracks_max (receive_all ts arr ?new vs) vs
      \<and> packets_received (receive_all ts arr ?new vs) = of_nat (length vs)"
    proof (rule snoc.IH)
      fix i assume "0 < i" "i < length vs"
      with snoc.prems(1) [of i] show "vs ! i < Max (set (take i vs)) + 32768 \<and> Max (set (take i vs)) < vs ! i + 32768"
        by (simp add: nth_append)
    qed (rule False)
    with snoc.prems(1) [of "length vs"] False tracks_max_step [of "receive_all ts arr ?new vs" vs v]
    show ?thesis
      by (simp add: receive_all_def tracks_max_received received_count add.commute)
  qed
qed simp

text \<open>
  C34: Loss accounting survives the wrap-around. For any stream of fresh packets, each within half
  the number space of the highest so far, the next receiver report carries as extended highest
  number the first packet's number plus the unwrapped distance to the highest, and as cumulative
  loss the numbers spanned less the packets received, clamped to 24 bits.
\<close>

theorem report_counts_losses:
  assumes "vs \<noteq> []" "\<And>i. 0 < i \<Longrightarrow> i < length vs \<Longrightarrow>
      vs ! i < Max (set (take i vs)) + 32768 \<and> Max (set (take i vs)) < vs ! i + 32768"
    and "Max (set vs) - hd vs + 1 < 2 ^ 32" "length vs < 2 ^ 32"
    and "st = receive_all ts arr (receiver_state_new ssrc name interval) vs"
  shows "\<exists>rb. reports (snd (generate_rr st now)) = [rb]
    \<and> extended_highest_seq rb = of_nat (hd vs mod 65536 + (Max (set vs) - hd vs))
    \<and> cumulative_lost rb = of_int (clamp24 (int (Max (set vs) - hd vs + 1) - int (length vs)))"
proof -
  have t: "tracks_max st vs" "packets_received st = of_nat (length vs)"
    using receive_all_tracks [OF assms(2,1)] by (simp_all add: assms(5))
  have first: "first_packet_received st" and ext: "extended_max_seq st = of_nat (extended_of vs)"
    and base: "ucast (r_base_seq st) = (of_nat (hd vs mod 65536) :: u32)"
    using t(1) by (simp_all add: tracks_max_def ucast_of_nat_u16)
  have "extended_max_seq st - ucast (r_base_seq st) + 1 = (of_nat (Max (set vs) - hd vs + 1) :: u32)"
    by (simp add: ext base extended_of_def)
  then have e: "unat (extended_max_seq st - ucast (r_base_seq st) + 1) = Max (set vs) - hd vs + 1"
    by (simp only: unat_of_nat_u32 [OF assms(3)])
  have r: "unat (packets_received st) = length vs" using assms(4) by (simp add: t(2) unat_of_nat)
  have "\<exists>rb. reports (snd (generate_rr st now)) = [rb] \<and> extended_highest_seq rb = extended_max_seq st
    \<and> cumulative_lost rb = of_int (clamp24 (int (unat (extended_max_seq st - ucast (r_base_seq st) + 1))
         - int (unat (packets_received st))))"
    using first by (simp add: generate_rr_def Let_def)
  note this [unfolded e r]
  then show ?thesis unfolding ext extended_of_def .
qed

theorem report_counts_losses_witness:
  "\<exists>rb. reports (snd (generate_rr (receive_all (\<lambda>_. 0) (\<lambda>_. 0) (receiver_state_new 4 [] 100) [65534, 65537, 65536]) 7)) = [rb]
    \<and> extended_highest_seq rb = 65537 \<and> cumulative_lost rb = 1"
proof -
  let ?vs = "[65534, 65537, 65536] :: nat list"
  have "?vs ! i < Max (set (take i ?vs)) + 32768 \<and> Max (set (take i ?vs)) < ?vs ! i + 32768"
    if "0 < i" "i < length ?vs" for i
  proof -
    have "0 < i" "i < 3" using that by simp_all
    then consider "i = 1" | "i = 2" by linarith
    then show ?thesis by cases simp_all
  qed
  from report_counts_losses [OF _ this, where ts = "\<lambda>_. 0" and arr = "\<lambda>_. 0" and ssrc = 4 and name = "[]"
      and interval = 100 and now = 7] show ?thesis
    by (simp add: clamp24_def)
qed

text \<open>A duplicate leaves the state of the receiver unchanged, a report moves only its time and baselines.\<close>

lemma duplicate_ignored: "receiver_on_packet_received st seq ts arr True = st"
  by (simp add: receiver_on_packet_received_def)

section \<open>The report clock\<close>

lemma ticks_u32:
  assumes "x * 90 < 2 ^ 64"
  shows "ucast ((of_nat x :: u64) * 90 div 1000) = (of_nat (x * 90 div 1000) :: u32)"
proof -
  have "unat ((of_nat x :: u64) * 90) = x * 90"
    using assms unat_of_nat [of "x * 90", where 'a = 64] by (simp add: take_bit_eq_mod)
  then have "unat ((of_nat x :: u64) * 90 div 1000) = x * 90 div 1000" by (simp add: unat_div)
  then show ?thesis by (metis of_nat_unat)
qed

text \<open>
  C35: The RTP clock of sender reports runs at 90 kHz without drift: as long as the microsecond
  count stays below \<open>2^57\<close>, a report one or more whole milliseconds later carries a timestamp
  exactly 90 ticks per millisecond further, modulo \<open>2^32\<close>.
\<close>

theorem sr_clock_is_90khz:
  assumes "rtp_ts_epoch st \<le> now"
    and "nat (rtp_ts_epoch_system st) div 1000 + 2208988800000000 + (now - rtp_ts_epoch st) div 1000 + 1000 * k < 2 ^ 57"
  shows "rtp_timestamp (snd (generate_sr st (now + 1000000 * k) wall2))
    = rtp_timestamp (snd (generate_sr st now wall1)) + of_nat (90 * k)"
proof -
  let ?a = "nat (rtp_ts_epoch_system st) div 1000 + 2208988800000000"
  have ts: "rtp_timestamp (snd (generate_sr st t w)) = of_nat ((?a + (t - rtp_ts_epoch st) div 1000) * 90 div 1000)"
    if small: "?a + (t - rtp_ts_epoch st) div 1000 < 2 ^ 57" for t w
  proof -
    have "(of_nat (nat (rtp_ts_epoch_system st) div 1000) + 2208988800 * 1000000 + of_nat ((t - rtp_ts_epoch st) div 1000) :: u64)
        = of_nat (?a + (t - rtp_ts_epoch st) div 1000)" by simp
    moreover have "(?a + (t - rtp_ts_epoch st) div 1000) * 90 < 2 ^ 64" using small by simp
    ultimately show ?thesis
      by (simp only: generate_sr_def Let_def split_beta snd_conv SenderReport.simps since_unix_epoch_def
          NTP_EPOCH_OFFSET_def ticks_u32)
  qed
  define us where "us = ?a + (now - rtp_ts_epoch st) div 1000"
  have later: "?a + (now + 1000000 * k - rtp_ts_epoch st) div 1000 = us + 1000 * k"
  proof -
    have "now + 1000000 * k - rtp_ts_epoch st = (now - rtp_ts_epoch st) + 1000 * (1000 * k)" using assms(1) by simp
    then show ?thesis by (simp only: div_mult_self2 [of 1000 "now - rtp_ts_epoch st" "1000 * k"] us_def)
  qed
  have "(us + 1000 * k) * 90 div 1000 = us * 90 div 1000 + 90 * k"
  proof -
    have "(us + 1000 * k) * 90 = us * 90 + 1000 * (90 * k)" by simp
    then show ?thesis by simp
  qed
  with ts [of now wall1] ts [of "now + 1000000 * k" wall2] assms(2) later show ?thesis
    by (simp add: us_def)
qed

theorem sr_clock_is_90khz_witness:
  "rtp_timestamp (snd (generate_sr (sender_state_new 2 [] 100 0 1700000000000000000) (5000 + 1000000 * 20) 0))
    = rtp_timestamp (snd (generate_sr (sender_state_new 2 [] 100 0 1700000000000000000) 5000 0)) + of_nat (90 * 20)"
  by (rule sr_clock_is_90khz) (simp_all add: sender_state_new_def)

end
