(* ===== verification/Rist_Sender.thy ===== *)
theory Rist_Sender
  imports Rist_Rtp Rist_Compound Rist_Retransmit Rist_Rtt Rist_Rtcp_State Rist_Config
begin

text \<open>
  The sender task of \<open>sender.rs\<close>: one handler per arm of its \<open>select!\<close> loop, on a record of the
  variables the loop owns. Datagrams handed to the sockets are appended to \<open>rtp_sent\<close> and
  \<open>rtcp_sent\<close>; whether the \<open>k\<close>-th RTP send succeeds is the argument \<open>send_ok k\<close>, and clock readings
  are arguments. The main theorems bound the work one datagram can cause, show that requested
  packets that are still buffered are sent again flagged and otherwise unchanged, and that a live
  peer's address is not displaced.
\<close>

unbundle bit_operations_syntax

section \<open>State\<close>

type_synonym datagram = "SocketAddr \<times> bytes"

record SenderState =
  ssrc :: u32
  seq :: u16
  ts_epoch :: instant
  ts_epoch_system :: system_time
  rtcp_state :: RtcpSenderState
  retransmit_buf :: RetransmitBuffer
  rtt_estimator :: RttEstimator
  remote_rtp_addr :: SocketAddr
  remote_rtcp_addr :: SocketAddr
  rtcp_peer_live :: "instant option"
  nack_budget_template :: NackWorkBudget
  rtt_echo :: bool
  stats :: RistConnStats
  rtp_sent :: "datagram list"
  rtcp_sent :: "datagram list"

text \<open>
  The prologue of \<open>sender_loop\<close>: the two random draws, the formatted local address and the two
  clock readings are arguments.
\<close>

definition sender_init ::
  "RistSocketConfig \<Rightarrow> SocketAddr \<Rightarrow> u32 \<Rightarrow> u16 \<Rightarrow> bytes \<Rightarrow> instant \<Rightarrow> system_time \<Rightarrow> SenderState" where
  "sender_init config remote rnd_ssrc rnd_seq local_name epoch epoch_system =
     (let src = rnd_ssrc AND NOT 1;
          name = (case cfg_cname config of Some c \<Rightarrow> c | None \<Rightarrow> local_name);
          rb = retransmit_new (retransmit_buffer_capacity config)
      in \<lparr>ssrc = src, seq = rnd_seq, ts_epoch = epoch, ts_epoch_system = epoch_system,
          rtcp_state = sender_state_new src name (rtcp_interval config) epoch epoch_system,
          retransmit_buf = rb, rtt_estimator = rtt_new (rtcp_interval config * 10),
          remote_rtp_addr = remote, remote_rtcp_addr = rtcp_addr_for remote, rtcp_peer_live = None,
          nack_budget_template = for_capacity (rcapacity rb), rtt_echo = rtt_echo_enabled config,
          stats = stats_new, rtp_sent = [], rtcp_sent = []\<rparr>)"

section \<open>Media\<close>

definition ntp_to_rtp90k :: "system_time \<Rightarrow> instant \<Rightarrow> instant \<Rightarrow> u32" where
  "ntp_to_rtp90k epoch_system epoch_instant now =
     (let epoch_unix = since_unix_epoch epoch_system;
          elapsed = now - epoch_instant;
          ntp_us = (of_nat (epoch_unix div 1000) + 2208988800 * 1000000) + of_nat (elapsed div 1000) :: u64
      in ucast (ntp_us * 90 div 1000))"

definition sender_on_media :: "bytes_api \<Rightarrow> (nat \<Rightarrow> bool) \<Rightarrow> SenderState \<Rightarrow> bytes \<Rightarrow> instant \<Rightarrow> SenderState" where
  "sender_on_media B send_ok st pl now =
     (let ts = ntp_to_rtp90k (ts_epoch_system st) (ts_epoch st) now;
          send_buf = write_rtp_header B [] (ssrc st) (seq st) ts;
          send_buf = extend_from_slice B send_buf pl;
          st = st\<lparr>retransmit_buf := retransmit_insert (retransmit_buf st) (seq st) send_buf\<rparr>;
          sent = send_ok (length (rtp_sent st));
          st = st\<lparr>rtp_sent := rtp_sent st @ [(remote_rtp_addr st, send_buf)]\<rparr>;
          st = (if sent
                then st\<lparr>stats := (stats st)\<lparr>st_packets_sent := st_packets_sent (stats st) + 1,
                                   st_bytes_sent := st_bytes_sent (stats st) + of_nat (length send_buf)\<rparr>\<rparr>
                else st)
      in st\<lparr>rtcp_state := on_packet_sent (rtcp_state st) (length pl) ts now, seq := seq st + 1\<rparr>)"

section \<open>Serving NACKs\<close>

text \<open>The retransmitted copy of a stored packet: the low bit of the SSRC, byte 11, is set.\<close>

definition retx_copy :: "bytes \<Rightarrow> bytes" where
  "retx_copy pkt_data =
     (if length pkt_data > 11 then pkt_data[11 := pkt_data ! 11 OR 0x01] else pkt_data)"

text \<open>
  The loop of \<open>serve_nack_entries\<close> with its \<open>&mut\<close> arguments as an accumulator; the last component
  says that the budget ran out.
\<close>

record ServeState =
  budget :: NackWorkBudget
  requested :: u64
  retransmitted :: u64
  out :: "datagram list"

fun serve_nack_entries ::
  "(nat \<Rightarrow> bool) \<Rightarrow> RetransmitBuffer \<Rightarrow> SocketAddr \<Rightarrow> u16 list \<Rightarrow> ServeState \<Rightarrow> ServeState \<times> bool" where
  "serve_nack_entries send_ok rb dest [] acc = (acc, False)"
| "serve_nack_entries send_ok rb dest (lost_seq # seqs) acc =
     (let (b, ok) = charge_scan (budget acc); acc = acc\<lparr>budget := b\<rparr>
      in if \<not> ok then (acc, True)
         else let acc = acc\<lparr>requested := requested acc + 1\<rparr>
              in case retransmit_get rb lost_seq of
                   None \<Rightarrow> serve_nack_entries send_ok rb dest seqs acc
                 | Some pkt_data \<Rightarrow>
                     let (b, ok) = charge_retx (budget acc); acc = acc\<lparr>budget := b\<rparr>
                     in if \<not> ok then (acc, True)
                        else let sent = send_ok (length (out acc));
                                 acc = acc\<lparr>out := out acc @ [(dest, retx_copy pkt_data)],
                                           retransmitted := (if sent then retransmitted acc + 1 else retransmitted acc)\<rparr>
                             in serve_nack_entries send_ok rb dest seqs acc)"

text \<open>One NACK sub-packet, either format: fresh counters, the shared budget, the two statistics.\<close>

definition sender_on_nack ::
  "(nat \<Rightarrow> bool) \<Rightarrow> SenderState \<Rightarrow> NackWorkBudget \<Rightarrow> u16 list \<Rightarrow> SenderState \<times> NackWorkBudget \<times> bool" where
  "sender_on_nack send_ok st bud seqs =
     (let (acc, spent) = serve_nack_entries send_ok (retransmit_buf st) (remote_rtp_addr st) seqs
            \<lparr>budget = bud, requested = 0, retransmitted = 0, out = rtp_sent st\<rparr>
      in (st\<lparr>rtp_sent := out acc,
             stats := (stats st)\<lparr>st_nacks_received := st_nacks_received (stats st) + requested acc,
                                st_packets_retransmitted := st_packets_retransmitted (stats st) + retransmitted acc\<rparr>\<rparr>,
          budget acc, spent))"

section \<open>RTCP from the receiver\<close>

text \<open>\<open>as_micros().min(u32::MAX) as u32\<close>.\<close>

definition micros_u32 :: "duration \<Rightarrow> u32" where
  "micros_u32 d = of_nat (min (d div 1000) (2 ^ 32 - 1))"

text \<open>The answer to an echo request: an empty receiver report and the echo response.\<close>

definition echo_reply :: "bytes_api \<Rightarrow> u32 \<Rightarrow> RttEchoRequest \<Rightarrow> duration \<Rightarrow> bytes" where
  "echo_reply B our_ssrc req turnaround =
     compound_serialize B \<lparr>packets =
       [ReceiverReport (rr_empty our_ssrc),
        App (RttEchoResponse \<lparr>resp_ssrc = req_ssrc req, resp_timestamp_msw = req_timestamp_msw req,
               resp_timestamp_lsw = req_timestamp_lsw req, processing_delay_us = micros_u32 turnaround\<rparr>)]\<rparr>"

text \<open>
  One turn of the loop over the sub-packets, with \<open>now\<close> the reading of the clock during the turn and
  \<open>recv_at\<close> the arrival of the datagram; the last component is the \<open>break\<close> on a spent budget.
\<close>

definition sender_on_packet ::
  "bytes_api \<Rightarrow> (nat \<Rightarrow> bool) \<Rightarrow> instant \<Rightarrow> SocketAddr \<Rightarrow> instant \<Rightarrow>
   SenderState \<Rightarrow> NackWorkBudget \<Rightarrow> RtcpPacket \<Rightarrow> SenderState \<times> NackWorkBudget \<times> bool" where
  "sender_on_packet B send_ok now from recv_at st bud pkt =
     (case pkt of
        Nack nack \<Rightarrow>
          if \<not> nack_targets_us (nack_media_ssrc nack) (ssrc st) then (st, bud, False)
          else sender_on_nack send_ok st bud (nack_lost_seqs (entries nack))
      | App (RttEchoRequest req) \<Rightarrow>
          (st\<lparr>rtcp_sent := rtcp_sent st @ [(from, echo_reply B (ssrc st) req (now - recv_at))]\<rparr>, bud, False)
      | App (RttEchoResponse resp) \<Rightarrow>
          let est = on_response (rtt_estimator st) now (resp_timestamp_msw resp)
                      (resp_timestamp_lsw resp) (processing_delay_us resp);
              st = st\<lparr>rtt_estimator := est\<rparr>;
              st = (case srtt est of
                      Some rtt \<Rightarrow> st\<lparr>stats := (stats st)\<lparr>st_rtt_us := of_nat (as_micros rtt)\<rparr>\<rparr>
                    | None \<Rightarrow> st)
          in (st, bud, False)
      | App (RangeNack nack) \<Rightarrow>
          if \<not> nack_targets_us (app_media_ssrc nack) (ssrc st) then (st, bud, False)
          else sender_on_nack send_ok st bud (app_lost_seqs nack)
      | _ \<Rightarrow> (st, bud, False))"

fun sender_on_packets ::
  "bytes_api \<Rightarrow> (nat \<Rightarrow> bool) \<Rightarrow> (nat \<Rightarrow> instant) \<Rightarrow> SocketAddr \<Rightarrow> instant \<Rightarrow> nat \<Rightarrow>
   SenderState \<Rightarrow> NackWorkBudget \<Rightarrow> RtcpPacket list \<Rightarrow> SenderState" where
  "sender_on_packets B send_ok clock from recv_at i st bud [] = st"
| "sender_on_packets B send_ok clock from recv_at i st bud (pkt # pkts) =
     (let (st, bud, spent) = sender_on_packet B send_ok (clock i) from recv_at st bud pkt
      in if spent then st else sender_on_packets B send_ok clock from recv_at (i + 1) st bud pkts)"

text \<open>
  The receive arm. The receive buffer holds 2048 bytes, longer datagrams are cut; a datagram that
  does not decode changes nothing (decoding never panics, as \<open>compound_parse\<close> is shown not to).
\<close>

definition sender_on_rtcp ::
  "bytes_api \<Rightarrow> (nat \<Rightarrow> bool) \<Rightarrow> (nat \<Rightarrow> instant) \<Rightarrow> SenderState \<Rightarrow> bytes \<Rightarrow> SocketAddr \<Rightarrow> instant \<Rightarrow> SenderState" where
  "sender_on_rtcp B send_ok clock st datagram from recv_at =
     (case compound_parse B (take 2048 datagram) of
        Ok compound \<Rightarrow>
          if packets compound = [] then st
          else if \<not> peer_move_allowed from (remote_rtcp_addr st) (rtcp_peer_live st) recv_at then st
          else let st = (if from \<noteq> remote_rtcp_addr st then st\<lparr>remote_rtcp_addr := from\<rparr> else st);
                   st = st\<lparr>rtcp_peer_live := Some recv_at\<rparr>
               in sender_on_packets B send_ok clock from recv_at 0 st (nack_budget_template st) (packets compound)
      | _ \<Rightarrow> st)"

section \<open>Periodic reports\<close>

definition sender_on_tick :: "bytes_api \<Rightarrow> SenderState \<Rightarrow> instant \<Rightarrow> system_time \<Rightarrow> SenderState" where
  "sender_on_tick B st now wall =
     (let (rst, sr) = generate_sr (rtcp_state st) now wall;
          sdes = sender_generate_sdes rst;
          st = st\<lparr>rtcp_state := rst\<rparr>;
          pkts = [SenderReport sr, Sdes sdes];
          (st, pkts) =
            (if rtt_echo st \<and> should_send_request (rtt_estimator st) now
             then let (est, msw, lsw) = generate_request (rtt_estimator st) now
                  in (st\<lparr>rtt_estimator := est\<rparr>,
                      pkts @ [App (RttEchoRequest \<lparr>req_ssrc = ssrc st, req_timestamp_msw = msw,
                                                   req_timestamp_lsw = lsw\<rparr>)])
             else (st, pkts))
      in st\<lparr>rtcp_sent := rtcp_sent st @ [(remote_rtcp_addr st, compound_serialize B \<lparr>packets = pkts\<rparr>)]\<rparr>)"

section \<open>Runs\<close>

text \<open>
  One turn of the \<open>select!\<close> loop: a payload from the application, an RTCP datagram with its source and
  the clock readings taken while it is handled, or the report timer.
\<close>

datatype SenderEvent =
    Media bytes instant
  | Rtcp bytes SocketAddr instant "nat \<Rightarrow> instant"
  | Tick instant system_time

fun sender_step :: "bytes_api \<Rightarrow> (nat \<Rightarrow> bool) \<Rightarrow> SenderState \<Rightarrow> SenderEvent \<Rightarrow> SenderState" where
  "sender_step B send_ok st (Media pl now) = sender_on_media B send_ok st pl now"
| "sender_step B send_ok st (Rtcp dg from recv_at clock) = sender_on_rtcp B send_ok clock st dg from recv_at"
| "sender_step B send_ok st (Tick now wall) = sender_on_tick B st now wall"

inductive sender_reach :: "bytes_api \<Rightarrow> (nat \<Rightarrow> bool) \<Rightarrow> SenderState \<Rightarrow> SenderState \<Rightarrow> bool"
  for B send_ok st0 where
  start: "sender_reach B send_ok st0 st0"
| turn: "sender_reach B send_ok st0 st \<Longrightarrow> sender_reach B send_ok st0 (sender_step B send_ok st ev)"

section \<open>The work one request list causes\<close>

text \<open>The packets a list of requested numbers finds in the ring, in order.\<close>

abbreviation hits :: "RetransmitBuffer \<Rightarrow> u16 list \<Rightarrow> bytes list" where
  "hits rb seqs \<equiv> List.map_filter (retransmit_get rb) seqs"

lemma serve_nack_entries_out:
  "out (fst (serve_nack_entries send_ok rb dest seqs acc)) =
     out acc @ map (\<lambda>d. (dest, retx_copy d))
       (take (unat (retx (budget acc))) (hits rb (take (unat (scan (budget acc))) seqs)))"
proof (induction send_ok rb dest seqs acc rule: serve_nack_entries.induct)
  case (2 send_ok rb dest lost_seq seqs acc)
  show ?case
  proof (cases "scan (budget acc) = 0")
    case True
    then show ?thesis by (simp add: charge_scan_def)
  next
    case False
    then obtain n where n: "unat (scan (budget acc)) = Suc n" "unat (scan (budget acc) - 1) = n"
      by (metis unat_eq_zero old.nat.exhaust unat_minus_one diff_Suc_1)
    show ?thesis
    proof (cases "retransmit_get rb lost_seq")
      case None
      with False n 2(1) show ?thesis by (simp add: charge_scan_def Let_def List.map_filter_simps)
    next
      case (Some d)
      show ?thesis
      proof (cases "retx (budget acc) = 0")
        case True
        with False n Some show ?thesis by (simp add: charge_scan_def charge_retx_def Let_def List.map_filter_simps)
      next
        case rt: False
        then obtain m where m: "unat (retx (budget acc)) = Suc m" "unat (retx (budget acc) - 1) = m"
          by (metis unat_eq_zero old.nat.exhaust unat_minus_one diff_Suc_1)
        from False rt n m Some 2(2) show ?thesis
          by (simp add: charge_scan_def charge_retx_def Let_def List.map_filter_simps)
      qed
    qed
  qed
qed simp

lemma serve_nack_entries_budget:
  "unat (retx (budget (fst (serve_nack_entries send_ok rb dest seqs acc))))
     + length (out (fst (serve_nack_entries send_ok rb dest seqs acc)))
   = unat (retx (budget acc)) + length (out acc)"
proof (induction send_ok rb dest seqs acc rule: serve_nack_entries.induct)
  case (2 send_ok rb dest lost_seq seqs acc)
  show ?case
  proof (cases "retransmit_get rb lost_seq")
    case None
    with 2(1) show ?thesis by (cases "scan (budget acc) = 0") (simp_all add: charge_scan_def Let_def)
  next
    case (Some d)
    have "unat (retx (budget acc) - 1) = unat (retx (budget acc)) - 1" "0 < unat (retx (budget acc))"
      if "retx (budget acc) \<noteq> 0" using that by (simp_all add: unat_minus_one unat_gt_0)
    with Some 2(2) show ?thesis
      by (cases "scan (budget acc) = 0"; cases "retx (budget acc) = 0")
        (simp_all add: charge_scan_def charge_retx_def Let_def)
  qed
qed simp

section \<open>What handling a datagram can change\<close>

text \<open>The part of the state that RTCP from the receiver leaves alone.\<close>

definition same_session :: "SenderState \<Rightarrow> SenderState \<Rightarrow> bool" where
  "same_session st st' \<longleftrightarrow>
     ssrc st' = ssrc st \<and> seq st' = seq st \<and> ts_epoch st' = ts_epoch st
     \<and> ts_epoch_system st' = ts_epoch_system st \<and> rtcp_state st' = rtcp_state st
     \<and> retransmit_buf st' = retransmit_buf st \<and> remote_rtp_addr st' = remote_rtp_addr st
     \<and> remote_rtcp_addr st' = remote_rtcp_addr st \<and> rtcp_peer_live st' = rtcp_peer_live st
     \<and> nack_budget_template st' = nack_budget_template st \<and> rtt_echo st' = rtt_echo st"

text \<open>
  The state moved by sending at most \<open>n\<close> copies of buffered packets to the configured destination
  and at most \<open>m\<close> answers to the source of the datagram, and not otherwise.
\<close>

definition serves :: "SocketAddr \<Rightarrow> nat \<Rightarrow> nat \<Rightarrow> SenderState \<Rightarrow> SenderState \<Rightarrow> bool" where
  "serves from n m st st' \<longleftrightarrow> same_session st st'
     \<and> (\<exists>ds. set ds \<subseteq> ran (retransmit_get (retransmit_buf st)) \<and> length ds \<le> n
             \<and> rtp_sent st' = rtp_sent st @ map (\<lambda>d. (remote_rtp_addr st, retx_copy d)) ds)
     \<and> (\<exists>rs. length rs \<le> m \<and> rtcp_sent st' = rtcp_sent st @ map (\<lambda>d. (from, d)) rs)"

lemma servesI:
  assumes "same_session st st'" "set ds \<subseteq> ran (retransmit_get (retransmit_buf st))" "length ds \<le> n"
    "rtp_sent st' = rtp_sent st @ map (\<lambda>d. (remote_rtp_addr st, retx_copy d)) ds"
    "length rs \<le> m" "rtcp_sent st' = rtcp_sent st @ map (\<lambda>d. (from, d)) rs"
  shows "serves from n m st st'"
  using assms unfolding serves_def by blast

lemma same_session_trans: "same_session a b \<Longrightarrow> same_session b c \<Longrightarrow> same_session a c"
  by (simp add: same_session_def)

lemma serves_trans:
  assumes "serves from n m a b" "serves from n' m' b c"
  shows "serves from (n + n') (m + m') a c"
proof -
  obtain ds rs where 1: "set ds \<subseteq> ran (retransmit_get (retransmit_buf a))" "length ds \<le> n"
    "rtp_sent b = rtp_sent a @ map (\<lambda>d. (remote_rtp_addr a, retx_copy d)) ds"
    "length rs \<le> m" "rtcp_sent b = rtcp_sent a @ map (\<lambda>d. (from, d)) rs" "same_session a b"
    using assms(1) unfolding serves_def by blast
  obtain ds' rs' where 2: "set ds' \<subseteq> ran (retransmit_get (retransmit_buf b))" "length ds' \<le> n'"
    "rtp_sent c = rtp_sent b @ map (\<lambda>d. (remote_rtp_addr b, retx_copy d)) ds'"
    "length rs' \<le> m'" "rtcp_sent c = rtcp_sent b @ map (\<lambda>d. (from, d)) rs'" "same_session b c"
    using assms(2) unfolding serves_def by blast
  have "retransmit_buf b = retransmit_buf a" "remote_rtp_addr b = remote_rtp_addr a"
    using 1(6) by (simp_all add: same_session_def)
  with 1 2 show ?thesis
    by (intro servesI [where ds = "ds @ ds'" and rs = "rs @ rs'"]) (auto intro: same_session_trans)
qed

lemma serves_mono: "serves from n m a b \<Longrightarrow> n \<le> n' \<Longrightarrow> m \<le> m' \<Longrightarrow> serves from n' m' a b"
  unfolding serves_def by (meson le_trans)

lemma sender_on_nack_out:
  assumes "sender_on_nack send_ok st bud seqs = (st', bud', spent)"
  shows "rtp_sent st' = rtp_sent st @ map (\<lambda>d. (remote_rtp_addr st, retx_copy d))
           (take (unat (retx bud)) (hits (retransmit_buf st) (take (unat (scan bud)) seqs)))"
    and "unat (retx bud') + length (rtp_sent st') = unat (retx bud) + length (rtp_sent st)"
    and "same_session st st' \<and> rtcp_sent st' = rtcp_sent st"
proof -
  let ?acc = "\<lparr>budget = bud, requested = 0, retransmitted = 0, out = rtp_sent st\<rparr>"
  let ?r = "serve_nack_entries send_ok (retransmit_buf st) (remote_rtp_addr st) seqs ?acc"
  have r: "rtp_sent st' = out (fst ?r)" "bud' = budget (fst ?r)" "same_session st st'" "rtcp_sent st' = rtcp_sent st"
    using assms by (auto simp: sender_on_nack_def same_session_def Let_def split: prod.splits)
  then show "rtp_sent st' = rtp_sent st @ map (\<lambda>d. (remote_rtp_addr st, retx_copy d))
           (take (unat (retx bud)) (hits (retransmit_buf st) (take (unat (scan bud)) seqs)))"
    by (simp add: serve_nack_entries_out)
  show "unat (retx bud') + length (rtp_sent st') = unat (retx bud) + length (rtp_sent st)"
    using serve_nack_entries_budget [of send_ok "retransmit_buf st" "remote_rtp_addr st" seqs ?acc] r by simp
  show "same_session st st' \<and> rtcp_sent st' = rtcp_sent st" using r by simp
qed

lemma set_hits: "set (hits rb seqs) \<subseteq> ran (retransmit_get rb)"
  by (auto simp: List.map_filter_def ran_def)

lemma sender_on_nack_serves:
  assumes "sender_on_nack send_ok st bud seqs = (st', bud', spent)"
  shows "unat (retx bud') \<le> unat (retx bud) \<and> serves from (unat (retx bud) - unat (retx bud')) 0 st st'"
proof -
  let ?ds = "take (unat (retx bud)) (hits (retransmit_buf st) (take (unat (scan bud)) seqs))"
  note o = sender_on_nack_out [OF assms]
  have "set ?ds \<subseteq> ran (retransmit_get (retransmit_buf st))"
    using set_take_subset set_hits by (rule order_trans)
  moreover have len: "unat (retx bud') + length ?ds = unat (retx bud)" using o(2) unfolding o(1) by simp
  ultimately have "serves from (unat (retx bud) - unat (retx bud')) 0 st st'"
    using o by (intro servesI [where ds = ?ds and rs = "[]"]) auto
  with len show ?thesis by linarith
qed

lemma sender_on_packet_serves:
  assumes "sender_on_packet B send_ok now from recv_at st bud pkt = (st', bud', spent)"
  shows "unat (retx bud') \<le> unat (retx bud) \<and> serves from (unat (retx bud) - unat (retx bud')) 1 st st'"
proof -
  have quiet: "serves from 0 1 st st'" if qs: "same_session st st'" "rtp_sent st' = rtp_sent st"
    "rtcp_sent st' = rtcp_sent st \<or> (\<exists>d. rtcp_sent st' = rtcp_sent st @ [(from, d)])"
  proof (cases "rtcp_sent st' = rtcp_sent st")
    case True
    with qs show ?thesis by (intro servesI [where ds = "[]" and rs = "[]"]) auto
  next
    case False
    then obtain d where "rtcp_sent st' = rtcp_sent st @ [(from, d)]" using qs(3) False by blast
    with qs show ?thesis by (intro servesI [where ds = "[]" and rs = "[d]"]) auto
  qed
  have nack: ?thesis if "sender_on_nack send_ok st bud seqs = (st', bud', spent)" for seqs
    using sender_on_nack_serves [OF that] by (auto intro: serves_mono)
  show ?thesis
    using assms nack quiet
    by (auto simp: sender_on_packet_def same_session_def Let_def
        split: RtcpPacket.splits RistApp.splits if_splits option.splits)
qed

lemma sender_on_packets_serves:
  "serves from (unat (retx bud)) (length pkts) st
     (sender_on_packets B send_ok clock from recv_at i st bud pkts)"
proof (induction pkts arbitrary: i st bud)
  case Nil
  show ?case by (intro servesI [where ds = "[]" and rs = "[]"]) (auto simp: same_session_def)
next
  case (Cons pkt pkts)
  obtain st' bud' spent where p: "sender_on_packet B send_ok (clock i) from recv_at st bud pkt = (st', bud', spent)"
    by (metis prod_cases3)
  note q = sender_on_packet_serves [OF p]
  from p serves_trans [OF conjunct2 [OF q] Cons [of "bud'" st' "i + 1"]] conjunct1 [OF q] conjunct2 [OF q]
  show ?case by (auto elim: serves_mono)
qed

section \<open>Retransmitted copies\<close>

text \<open>The bytes of a media packet: a header as the sender writes it and the payload.\<close>

definition wire :: "bytes_api \<Rightarrow> u32 \<Rightarrow> u16 \<Rightarrow> u32 \<Rightarrow> bytes \<Rightarrow> bytes" where
  "wire B src k ts pl = rtp_packet_serialize B \<lparr>header = new_ts src k ts, payload = pl\<rparr>"

lemma flag_low_byte:
  "ucast (s :: u32) OR (1 :: u8) = ucast (s OR 1)" "drop_bit 8 (s OR 1) = drop_bit 8 s"
  "drop_bit 16 (s OR 1) = drop_bit 16 s" "drop_bit 24 (s OR 1) = drop_bit 24 s"
  by (rule bit_word_eqI; auto simp: bit_simps)+

context bytes_crate
begin

lemma wire_eq: "wire B src k ts pl = rtp_header_serialize B (new_ts src k ts) @ pl"
  by (simp add: wire_def rtp_packet_serialize_def writes Let_def)

lemma retx_copy_wire: "retx_copy (wire B src k ts pl) = wire B (src OR 1) k ts pl"
  by (simp add: retx_copy_def wire_eq rtp_header_serialize_eq new_ts_def u16_to_be_bytes_def
      u32_to_be_bytes_def flag_low_byte)

lemma wire_parse: "rtp_header_parse B (wire B src k ts pl) = Ok (new_ts src k ts, 12)"
  using rtp_header_roundtrip [of "new_ts src k ts" pl] by (simp add: wire_eq rtp_header_wf_def new_ts_def)

end

section \<open>The packets a sender ever sends\<close>

text \<open>
  Every datagram of the log goes to \<open>dest\<close> and is a media packet of the session; those with the
  retransmit flag repeat an earlier one, with the same number, timestamp and payload.
\<close>

definition log_ok :: "bytes_api \<Rightarrow> u32 \<Rightarrow> SocketAddr \<Rightarrow> datagram list \<Rightarrow> bool" where
  "log_ok B src dest sent \<longleftrightarrow> (\<forall>i < length sent. \<exists>k ts pl.
     sent ! i = (dest, wire B src k ts pl)
     \<or> sent ! i = (dest, wire B (src OR 1) k ts pl) \<and> (dest, wire B src k ts pl) \<in> set (take i sent))"

definition ring_holds_sent :: "bytes_api \<Rightarrow> SenderState \<Rightarrow> bool" where
  "ring_holds_sent B st \<longleftrightarrow> (\<forall>k d. retransmit_get (retransmit_buf st) k = Some d \<longrightarrow>
     (remote_rtp_addr st, d) \<in> set (rtp_sent st) \<and> (\<exists>ts pl. d = wire B (ssrc st) k ts pl))"

definition sender_inv :: "bytes_api \<Rightarrow> SenderState \<Rightarrow> bool" where
  "sender_inv B st \<longleftrightarrow> even (ssrc st) \<and> retransmit_inv (retransmit_buf st)
     \<and> nack_budget_template st = for_capacity (rcapacity (retransmit_buf st))
     \<and> ring_holds_sent B st \<and> log_ok B (ssrc st) (remote_rtp_addr st) (rtp_sent st)"

lemma log_ok_snoc:
  assumes "log_ok B src dest sent"
    and "e = (dest, wire B src k ts pl)
         \<or> e = (dest, wire B (src OR 1) k ts pl) \<and> (dest, wire B src k ts pl) \<in> set sent"
  shows "log_ok B src dest (sent @ [e])"
  unfolding log_ok_def
proof (intro allI impI)
  fix i
  assume "i < length (sent @ [e])"
  then consider "i < length sent" | "i = length sent" by fastforce
  then show "\<exists>k ts pl. (sent @ [e]) ! i = (dest, wire B src k ts pl)
    \<or> (sent @ [e]) ! i = (dest, wire B (src OR 1) k ts pl)
      \<and> (dest, wire B src k ts pl) \<in> set (take i (sent @ [e]))"
  proof cases
    case 1
    with assms(1) show ?thesis unfolding log_ok_def by (simp add: nth_append)
  next
    case 2
    with assms(2) show ?thesis by auto
  qed
qed

lemma log_ok_copies:
  assumes "bytes_crate B" "log_ok B src dest sent"
    and "\<And>d. d \<in> set ds \<Longrightarrow> (dest, d) \<in> set sent \<and> (\<exists>k ts pl. d = wire B src k ts pl)"
  shows "log_ok B src dest (sent @ map (\<lambda>d. (dest, retx_copy d)) ds)"
  using assms(3)
proof (induction ds rule: rev_induct)
  case Nil
  with assms(2) show ?case by simp
next
  case (snoc d ds)
  then obtain k ts pl where d: "d = wire B src k ts pl" "(dest, d) \<in> set sent" by fastforce
  with snoc have "log_ok B src dest ((sent @ map (\<lambda>d. (dest, retx_copy d)) ds) @ [(dest, retx_copy d)])"
    by (intro log_ok_snoc) (auto simp: bytes_crate.retx_copy_wire [OF assms(1)])
  then show ?case by simp
qed

lemma sender_inv_serves:
  assumes "bytes_crate B" "sender_inv B st" "serves from n m st st'"
  shows "sender_inv B st'"
proof -
  obtain ds where ds: "set ds \<subseteq> ran (retransmit_get (retransmit_buf st))"
    "rtp_sent st' = rtp_sent st @ map (\<lambda>d. (remote_rtp_addr st, retx_copy d)) ds" "same_session st st'"
    using assms(3) unfolding serves_def by blast
  have "(remote_rtp_addr st, d) \<in> set (rtp_sent st) \<and> (\<exists>k ts pl. d = wire B (ssrc st) k ts pl)"
    if "d \<in> set ds" for d
    using that ds(1) assms(2) unfolding sender_inv_def ring_holds_sent_def ran_def by blast
  with ds assms(1,2) show ?thesis
    by (auto simp: sender_inv_def ring_holds_sent_def same_session_def intro!: log_ok_copies)
qed

lemma sender_on_media_sends:
  assumes "bytes_crate B"
  defines "pkt st pl now \<equiv> wire B (ssrc st) (seq st) (ntp_to_rtp90k (ts_epoch_system st) (ts_epoch st) now) pl"
  shows "rtp_sent (sender_on_media B send_ok st pl now) = rtp_sent st @ [(remote_rtp_addr st, pkt st pl now)]"
    "retransmit_buf (sender_on_media B send_ok st pl now) = retransmit_insert (retransmit_buf st) (seq st) (pkt st pl now)"
    "seq (sender_on_media B send_ok st pl now) = seq st + 1"
    "ssrc (sender_on_media B send_ok st pl now) = ssrc st"
    "remote_rtp_addr (sender_on_media B send_ok st pl now) = remote_rtp_addr st"
    "remote_rtcp_addr (sender_on_media B send_ok st pl now) = remote_rtcp_addr st"
    "rtcp_peer_live (sender_on_media B send_ok st pl now) = rtcp_peer_live st"
    "rtcp_sent (sender_on_media B send_ok st pl now) = rtcp_sent st"
    "nack_budget_template (sender_on_media B send_ok st pl now) = nack_budget_template st"
    "ts_epoch_system (sender_on_media B send_ok st pl now) = ts_epoch_system st"
    "ts_epoch (sender_on_media B send_ok st pl now) = ts_epoch st"
  using assms(1)
  by (simp_all add: sender_on_media_def Let_def pkt_def write_rtp_header_eq bytes_crate.wire_eq bytes_crate.writes)

lemma sender_inv_media:
  assumes B: "bytes_crate B" and inv: "sender_inv B st"
  shows "sender_inv B (sender_on_media B send_ok st pl now)"
proof -
  have "ring_holds_sent B (sender_on_media B send_ok st pl now)"
    unfolding ring_holds_sent_def sender_on_media_sends [OF B]
  proof (intro allI impI)
    fix k d
    assume g: "retransmit_get (retransmit_insert (retransmit_buf st) (seq st)
      (wire B (ssrc st) (seq st) (ntp_to_rtp90k (ts_epoch_system st) (ts_epoch st) now) pl)) k = Some d"
    show "(remote_rtp_addr st, d) \<in> set (rtp_sent st @ [(remote_rtp_addr st,
        wire B (ssrc st) (seq st) (ntp_to_rtp90k (ts_epoch_system st) (ts_epoch st) now) pl)])
      \<and> (\<exists>ts pl. d = wire B (ssrc st) k ts pl)"
    proof (cases "k = seq st")
      case True
      with g inv show ?thesis by (auto simp: sender_inv_def ring.get_put_same)
    next
      case False
      with g inv have "retransmit_get (retransmit_buf st) k = Some d"
        by (auto simp: sender_inv_def intro: ring.get_put_other [of _ "seq st"])
      with inv show ?thesis by (auto simp: sender_inv_def ring_holds_sent_def)
    qed
  qed
  with inv show ?thesis
    by (auto simp: sender_inv_def sender_on_media_sends [OF B] ring.inv_put ring.cap_put intro!: log_ok_snoc)
qed

text \<open>The receive arm either drops the datagram or adopts its source and serves it.\<close>

lemma sender_on_rtcp_cases:
  obtains "sender_on_rtcp B send_ok clock st dg from recv_at = st"
  | c where "compound_parse B (take 2048 dg) = Ok c" "packets c \<noteq> []"
      "peer_move_allowed from (remote_rtcp_addr st) (rtcp_peer_live st) recv_at"
      "sender_on_rtcp B send_ok clock st dg from recv_at
       = sender_on_packets B send_ok clock from recv_at 0
           (st\<lparr>remote_rtcp_addr := from, rtcp_peer_live := Some recv_at\<rparr>) (nack_budget_template st) (packets c)"
proof (cases "compound_parse B (take 2048 dg)")
  case (Ok c)
  have st1: "(if from \<noteq> remote_rtcp_addr st then st\<lparr>remote_rtcp_addr := from\<rparr> else st) = st\<lparr>remote_rtcp_addr := from\<rparr>"
    by (cases st) simp
  show ?thesis
    using that Ok by (cases "packets c = []"; cases "peer_move_allowed from (remote_rtcp_addr st) (rtcp_peer_live st) recv_at")
      (simp_all add: sender_on_rtcp_def st1 Let_def)
qed (auto simp: sender_on_rtcp_def intro: that)

lemma sender_inv_adopt:
  "sender_inv B (st\<lparr>remote_rtcp_addr := a, rtcp_peer_live := l\<rparr>) \<longleftrightarrow> sender_inv B st"
  by (simp add: sender_inv_def ring_holds_sent_def)

text \<open>The report timer touches neither the media path nor the peer.\<close>

lemma sender_on_tick_frame:
  "ssrc (sender_on_tick B st now wall) = ssrc st"
  "retransmit_buf (sender_on_tick B st now wall) = retransmit_buf st"
  "remote_rtp_addr (sender_on_tick B st now wall) = remote_rtp_addr st"
  "remote_rtcp_addr (sender_on_tick B st now wall) = remote_rtcp_addr st"
  "rtcp_peer_live (sender_on_tick B st now wall) = rtcp_peer_live st"
  "nack_budget_template (sender_on_tick B st now wall) = nack_budget_template st"
  "rtp_sent (sender_on_tick B st now wall) = rtp_sent st"
  "\<exists>d. rtcp_sent (sender_on_tick B st now wall) = rtcp_sent st @ [(remote_rtcp_addr st, d)]"
  by (simp_all add: sender_on_tick_def Let_def split_beta)

lemma sender_inv_tick: "sender_inv B st \<Longrightarrow> sender_inv B (sender_on_tick B st now wall)"
  by (simp add: sender_inv_def ring_holds_sent_def sender_on_tick_frame)

lemma sender_inv_init: "sender_inv B (sender_init config remote rs rq name epoch wall)"
  by (auto simp: sender_inv_def sender_init_def Let_def ring_holds_sent_def log_ok_def even_and_iff bit_simps)

lemma sender_inv_step:
  assumes "bytes_crate B" "sender_inv B st"
  shows "sender_inv B (sender_step B send_ok st ev)"
proof (cases ev)
  case (Rtcp dg src recv_at clock)
  show ?thesis
  proof (rule sender_on_rtcp_cases [of B send_ok clock st dg src recv_at])
    fix c
    assume "sender_on_rtcp B send_ok clock st dg src recv_at
       = sender_on_packets B send_ok clock src recv_at 0
           (st\<lparr>remote_rtcp_addr := src, rtcp_peer_live := Some recv_at\<rparr>) (nack_budget_template st) (packets c)"
    with assms Rtcp show ?thesis
      by (auto intro: sender_inv_serves [OF _ _ sender_on_packets_serves] simp: sender_inv_adopt)
  qed (use assms Rtcp in simp)
qed (use assms sender_inv_media sender_inv_tick in auto)

lemma reach_inv:
  assumes "bytes_crate B" "sender_reach B send_ok (sender_init config remote rs rq name epoch wall) st"
  shows "sender_inv B st"
  using assms(2) by induction (auto intro: sender_inv_init sender_inv_step [OF assms(1)])

lemma sender_step_session:
  assumes "bytes_crate B"
  shows "ssrc (sender_step B send_ok st ev) = ssrc st
    \<and> remote_rtp_addr (sender_step B send_ok st ev) = remote_rtp_addr st
    \<and> rcapacity (retransmit_buf (sender_step B send_ok st ev)) = rcapacity (retransmit_buf st)"
proof (cases ev)
  case (Media pl now)
  then show ?thesis by (simp add: sender_on_media_sends [OF assms] ring.cap_put)
next
  case (Rtcp dg src recv_at clock)
  show ?thesis
  proof (rule sender_on_rtcp_cases [of B send_ok clock st dg src recv_at])
    fix c
    let ?st1 = "st\<lparr>remote_rtcp_addr := src, rtcp_peer_live := Some recv_at\<rparr>"
    assume eq: "sender_on_rtcp B send_ok clock st dg src recv_at
       = sender_on_packets B send_ok clock src recv_at 0 ?st1 (nack_budget_template st) (packets c)"
    have "same_session ?st1 (sender_on_packets B send_ok clock src recv_at 0 ?st1 (nack_budget_template st) (packets c))"
      using sender_on_packets_serves unfolding serves_def by blast
    with Rtcp show ?thesis unfolding same_session_def by (simp add: eq)
  qed (use Rtcp in simp)
next
  case (Tick now wall)
  then show ?thesis by (simp add: sender_on_tick_frame)
qed

lemma reach_session:
  assumes "bytes_crate B" "sender_reach B send_ok st0 st"
  shows "ssrc st = ssrc st0 \<and> remote_rtp_addr st = remote_rtp_addr st0
    \<and> rcapacity (retransmit_buf st) = rcapacity (retransmit_buf st0)"
  using assms(2) by induction (auto simp: sender_step_session [OF assms(1)])

section \<open>Theorems\<close>

lemma compound_parse_at_most_64:
  assumes "bytes_crate B" "compound_parse B buf = Ok c"
  shows "length (packets c) \<le> 64"
  using bytes_crate.compound_loop_safe [OF assms(1), of "[]" buf 0] assms(2) by (auto simp: compound_parse_def MAX_RTCP_SUB_PACKETS_def)

lemma sender_on_rtcp_effect:
  assumes "bytes_crate B" "sender_inv B st"
  shows "\<exists>ds rs. rtp_sent (sender_on_rtcp B send_ok clock st dg from t) = rtp_sent st @ map (\<lambda>d. (remote_rtp_addr st, d)) ds
       \<and> length ds \<le> max 512 (min 8192 (rcapacity (retransmit_buf st)))
       \<and> rtcp_sent (sender_on_rtcp B send_ok clock st dg from t) = rtcp_sent st @ map (\<lambda>d. (from, d)) rs
       \<and> length rs \<le> 64"
proof (rule sender_on_rtcp_cases [of B send_ok clock st dg "from" t])
  assume "sender_on_rtcp B send_ok clock st dg from t = st"
  then show ?thesis by (intro exI [of _ "[]"]) simp
next
  fix c
  let ?st1 = "st\<lparr>remote_rtcp_addr := from, rtcp_peer_live := Some t\<rparr>"
  assume c: "compound_parse B (take 2048 dg) = Ok c"
    and eq: "sender_on_rtcp B send_ok clock st dg from t
      = sender_on_packets B send_ok clock from t 0 ?st1 (nack_budget_template st) (packets c)"
  have "unat (retx (nack_budget_template st)) = max 512 (min 8192 (rcapacity (retransmit_buf st)))"
    using assms(2) by (simp add: sender_inv_def unat_for_capacity)
  with sender_on_packets_serves [of "from" "nack_budget_template st" "packets c" ?st1 B send_ok clock t 0]
  obtain ds rs where "length ds \<le> max 512 (min 8192 (rcapacity (retransmit_buf st)))" "length rs \<le> length (packets c)"
    "rtp_sent (sender_on_rtcp B send_ok clock st dg from t) = rtp_sent st @ map (\<lambda>d. (remote_rtp_addr st, retx_copy d)) ds"
    "rtcp_sent (sender_on_rtcp B send_ok clock st dg from t) = rtcp_sent st @ map (\<lambda>d. (from, d)) rs"
    unfolding eq serves_def by auto
  with compound_parse_at_most_64 [OF assms(1) c] show ?thesis
    by (intro exI [of _ "map retx_copy ds"] exI [of _ rs]) simp
qed

text \<open>
  C7: Bounded amplification. Whatever has happened before and whatever bytes arrive from whatever
  source, one RTCP datagram makes the sender emit at most \<open>max(512, min(8192, capacity))\<close> media
  packets, all to the configured destination, and at most 64 RTCP answers, all to the source of
  the datagram.
\<close>

theorem sender_amplification_bounded:
  assumes "bytes_crate B"
    and "sender_reach B send_ok (sender_init config remote rs rq name epoch wall) st"
  shows "\<exists>ds as. rtp_sent (sender_on_rtcp B send_ok clock st dg from t) = rtp_sent st @ map (\<lambda>d. (remote, d)) ds
       \<and> length ds \<le> max 512 (min 8192 (next_power_of_two (retransmit_buffer_capacity config)))
       \<and> rtcp_sent (sender_on_rtcp B send_ok clock st dg from t) = rtcp_sent st @ map (\<lambda>d. (from, d)) as
       \<and> length as \<le> 64"
proof -
  have "remote_rtp_addr st = remote" "rcapacity (retransmit_buf st) = next_power_of_two (retransmit_buffer_capacity config)"
    using reach_session [OF assms] by (simp_all add: sender_init_def Let_def)
  with sender_on_rtcp_effect [OF assms(1) reach_inv [OF assms], of send_ok clock dg "from" t] show ?thesis by simp
qed

theorem sender_amplification_bounded_witness:
  "\<exists>ds as. rtp_sent (sender_on_rtcp be_bytes_api (\<lambda>_. True) (\<lambda>_. 7)
        (sender_on_media be_bytes_api (\<lambda>_. True)
          (sender_init config_default (SocketV4 1 5000) 3 9 [] 0 0) [0x47] 5) [1, 2, 3] (SocketV4 2 99) 6)
     = rtp_sent (sender_on_media be_bytes_api (\<lambda>_. True)
          (sender_init config_default (SocketV4 1 5000) 3 9 [] 0 0) [0x47] 5) @ map (\<lambda>d. (SocketV4 1 5000, d)) ds
     \<and> length ds \<le> max 512 (min 8192 (next_power_of_two (retransmit_buffer_capacity config_default)))
     \<and> rtcp_sent (sender_on_rtcp be_bytes_api (\<lambda>_. True) (\<lambda>_. 7)
        (sender_on_media be_bytes_api (\<lambda>_. True)
          (sender_init config_default (SocketV4 1 5000) 3 9 [] 0 0) [0x47] 5) [1, 2, 3] (SocketV4 2 99) 6)
     = rtcp_sent (sender_on_media be_bytes_api (\<lambda>_. True)
          (sender_init config_default (SocketV4 1 5000) 3 9 [] 0 0) [0x47] 5) @ map (\<lambda>d. (SocketV4 2 99, d)) as
     \<and> length as \<le> 64"
  using sender_amplification_bounded [OF be.bytes_crate_axioms
      sender_reach.turn [OF sender_reach.start, where ev = "Media [0x47] 5"],
      where send_ok = "\<lambda>_. True" and config = config_default]
  by simp

text \<open>
  C6: What the sender puts on the media wire. In every reachable state, every datagram the sender
  ever sent went to the configured destination and decodes as RTP under the sender's SSRC, up to
  the retransmit flag; and every one that carries the flag repeats a packet sent earlier without
  it, with the same header otherwise and the same payload.
\<close>

theorem sender_sends_only_its_media:
  assumes "bytes_crate B"
    and "sender_reach B send_ok (sender_init config remote rs rq name epoch wall) st"
    and "i < length (rtp_sent st)"
  shows "fst (rtp_sent st ! i) = remote
    \<and> (\<exists>h. rtp_header_parse B (snd (rtp_sent st ! i)) = Ok (h, 12) \<and> logical_ssrc h = ssrc st
          \<and> (is_retransmit h \<longrightarrow>
              (\<exists>j < i. rtp_header_parse B (snd (rtp_sent st ! j)) = Ok (h\<lparr>rtp_ssrc := ssrc st\<rparr>, 12)
                 \<and> drop 12 (snd (rtp_sent st ! j)) = drop 12 (snd (rtp_sent st ! i)))))"
proof -
  note inv = reach_inv [OF assms(1,2)]
  have dest: "remote_rtp_addr st = remote"
    using reach_session [OF assms(1,2)] by (simp add: sender_init_def Let_def)
  have even: "even (ssrc st)" using inv by (simp add: sender_inv_def)
  have pay: "drop 12 (wire B src k ts pl) = pl" for src k ts pl
    using bytes_crate.length_rtp_header_serialize [OF assms(1)] by (simp add: bytes_crate.wire_eq [OF assms(1)])
  have lg: "logical_ssrc (new_ts (ssrc st) k ts) = ssrc st" "logical_ssrc (new_ts (ssrc st OR 1) k ts) = ssrc st" for k ts
    using even logical_ssrc_even [of "new_ts (ssrc st) k ts"] clear_lsb_or_1 [of "ssrc st"]
    by (simp_all add: logical_ssrc_def new_ts_def)
  obtain k ts pl where "rtp_sent st ! i = (remote, wire B (ssrc st) k ts pl)
     \<or> rtp_sent st ! i = (remote, wire B (ssrc st OR 1) k ts pl) \<and> (remote, wire B (ssrc st) k ts pl) \<in> set (take i (rtp_sent st))"
    using inv assms(3) unfolding sender_inv_def log_ok_def dest by blast
  then show ?thesis
  proof (elim disjE conjE)
    assume "rtp_sent st ! i = (remote, wire B (ssrc st) k ts pl)"
    with even show ?thesis
      by (simp add: bytes_crate.wire_parse [OF assms(1)] lg is_retransmit_iff) (simp add: new_ts_def)
  next
    assume e: "rtp_sent st ! i = (remote, wire B (ssrc st OR 1) k ts pl)"
      and "(remote, wire B (ssrc st) k ts pl) \<in> set (take i (rtp_sent st))"
    then obtain j where "j < i" "rtp_sent st ! j = (remote, wire B (ssrc st) k ts pl)"
      by (auto simp: in_set_conv_nth)
    with e show ?thesis
      by (auto simp: bytes_crate.wire_parse [OF assms(1)] lg pay intro!: exI [of _ j]) (simp add: new_ts_def)
  qed
qed

theorem sender_sends_only_its_media_witness:
  "fst (rtp_sent (sender_on_media be_bytes_api (\<lambda>_. True)
          (sender_init config_default (SocketV4 1 5000) 3 9 [] 0 0) [0x47] 5) ! 0) = SocketV4 1 5000"
  using sender_sends_only_its_media [OF be.bytes_crate_axioms
      sender_reach.turn [OF sender_reach.start, where ev = "Media [0x47] 5"],
      where send_ok = "\<lambda>_. True" and config = config_default and i = 0
        and remote = "SocketV4 1 5000" and rs = 3 and rq = 9 and name = "[]" and epoch = 0 and wall = 0]
  by (simp add: sender_on_media_sends [OF be.bytes_crate_axioms])

text \<open>
  When a control peer counts as alive: \<open>t0\<close> is when it was last heard, and no datagram from
  another address arrives 12 seconds or more after it was last heard.
\<close>

fun peer_kept_alive :: "bytes_api \<Rightarrow> IpAddr \<Rightarrow> instant \<Rightarrow> SenderEvent list \<Rightarrow> bool" where
  "peer_kept_alive B ip t0 [] \<longleftrightarrow> True"
| "peer_kept_alive B ip t0 (Rtcp dg from t clock # evs) \<longleftrightarrow>
     (if sock_ip from = ip
      then case compound_parse B (take 2048 dg) of
             Ok c \<Rightarrow> peer_kept_alive B ip (if packets c = [] then t0 else t) evs
           | _ \<Rightarrow> peer_kept_alive B ip t0 evs
      else t < t0 + PEER_TAKEOVER_GRACE \<and> peer_kept_alive B ip t0 evs)"
| "peer_kept_alive B ip t0 (_ # evs) \<longleftrightarrow> peer_kept_alive B ip t0 evs"

lemma sender_on_rtcp_same_ip:
  assumes "sock_ip from = sock_ip (remote_rtcp_addr st)"
    and st': "st' = sender_on_rtcp B send_ok clock st dg from t"
  shows "sock_ip (remote_rtcp_addr st') = sock_ip (remote_rtcp_addr st)
    \<and> rtcp_peer_live st' = (case compound_parse B (take 2048 dg) of
         Ok c \<Rightarrow> if packets c = [] then rtcp_peer_live st else Some t | _ \<Rightarrow> rtcp_peer_live st)
    \<and> (\<exists>rs. rtcp_sent st' = rtcp_sent st @ map (\<lambda>d. (from, d)) rs)"
proof -
  let ?st1 = "st\<lparr>remote_rtcp_addr := from, rtcp_peer_live := Some t\<rparr>"
  have st1: "(if from \<noteq> remote_rtcp_addr st then st\<lparr>remote_rtcp_addr := from\<rparr> else st) = st\<lparr>remote_rtcp_addr := from\<rparr>"
    by (cases st) simp
  have eq: "st' = (case compound_parse B (take 2048 dg) of
      Ok c \<Rightarrow> if packets c = [] then st
              else sender_on_packets B send_ok clock from t 0 ?st1 (nack_budget_template st) (packets c)
    | _ \<Rightarrow> st)"
    using assms(1) unfolding st' sender_on_rtcp_def st1
    by (simp add: peer_move_allowed_def Let_def split: res.splits)
  have none: "\<exists>rs. rtcp_sent st = rtcp_sent st @ map (\<lambda>d. (from, d)) rs" by (rule exI [of _ "[]"]) simp
  show ?thesis
  proof (cases "compound_parse B (take 2048 dg)")
    case (Ok c)
    have "serves from (unat (retx (nack_budget_template st))) (length (packets c)) ?st1
       (sender_on_packets B send_ok clock from t 0 ?st1 (nack_budget_template st) (packets c))"
      by (rule sender_on_packets_serves)
    then obtain rs where "rtcp_sent (sender_on_packets B send_ok clock from t 0 ?st1 (nack_budget_template st) (packets c))
        = rtcp_sent st @ map (\<lambda>d. (from, d)) rs"
      "same_session ?st1 (sender_on_packets B send_ok clock from t 0 ?st1 (nack_budget_template st) (packets c))"
      unfolding serves_def by auto
    with Ok none assms(1) show ?thesis unfolding eq by (auto simp: same_session_def)
  qed (use none eq in simp_all)
qed

lemma peer_kept_step:
  assumes "bytes_crate B" "rtcp_peer_live st = Some t0" "peer_kept_alive B ip t0 (ev # evs)"
    and ip: "ip = sock_ip (remote_rtcp_addr st)" and st': "st' = sender_step B send_ok st ev"
  shows "\<exists>t1 ds. rtcp_peer_live st' = Some t1 \<and> peer_kept_alive B ip t1 evs \<and> sock_ip (remote_rtcp_addr st') = ip
    \<and> rtcp_sent st' = rtcp_sent st @ ds \<and> (\<forall>a \<in> fst ` set ds. sock_ip a = ip)"
proof (cases ev)
  case (Media pl now)
  with assms show ?thesis by (auto simp: sender_on_media_sends [OF assms(1)])
next
  case (Tick now wall)
  obtain d where "rtcp_sent (sender_on_tick B st now wall) = rtcp_sent st @ [(remote_rtcp_addr st, d)]"
    using sender_on_tick_frame(8) by blast
  with Tick assms show ?thesis by (auto simp: sender_on_tick_frame)
next
  case (Rtcp dg src t clock)
  show ?thesis
  proof (cases "sock_ip src = ip")
    case True
    then have src: "sock_ip src = sock_ip (remote_rtcp_addr st)" by (simp add: ip)
    obtain rs where "rtcp_sent st' = rtcp_sent st @ map (\<lambda>d. (src, d)) rs"
      using sender_on_rtcp_same_ip [OF src refl, of B send_ok clock dg t] Rtcp st' by auto
    with src Rtcp assms sender_on_rtcp_same_ip [OF src refl, of B send_ok clock dg t] show ?thesis
      by (auto split: res.splits if_splits)
  next
    case False
    then have "\<not> peer_move_allowed src (remote_rtcp_addr st) (rtcp_peer_live st) t"
      using Rtcp assms by (auto simp: peer_move_allowed_def peer_is_protected_def)
    then have "st' = st" using Rtcp st' by (auto simp: sender_on_rtcp_def split: res.splits)
    with False Rtcp assms show ?thesis by auto
  qed
qed

lemma peer_kept_run:
  assumes "bytes_crate B" "rtcp_peer_live st = Some t0"
    "peer_kept_alive B (sock_ip (remote_rtcp_addr st)) t0 evs"
    "st' = foldl (sender_step B send_ok) st evs"
  shows "sock_ip (remote_rtcp_addr st') = sock_ip (remote_rtcp_addr st)
    \<and> (\<exists>ds. rtcp_sent st' = rtcp_sent st @ ds \<and> (\<forall>a \<in> fst ` set ds. sock_ip a = sock_ip (remote_rtcp_addr st)))"
  using assms(2,3) unfolding assms(4)
proof (induction evs arbitrary: st t0)
  case Nil
  then show ?case by simp
next
  case (Cons ev evs)
  let ?st = "sender_step B send_ok st ev" and ?ip = "sock_ip (remote_rtcp_addr st)"
  from peer_kept_step [OF assms(1) Cons.prems refl refl] obtain t1 ds where
    1: "rtcp_peer_live ?st = Some t1" "peer_kept_alive B ?ip t1 evs"
    "sock_ip (remote_rtcp_addr ?st) = ?ip" "rtcp_sent ?st = rtcp_sent st @ ds" "\<forall>a \<in> fst ` set ds. sock_ip a = ?ip"
    by blast
  with Cons.IH [of ?st t1] obtain ds' where
    "rtcp_sent (foldl (sender_step B send_ok) ?st evs) = rtcp_sent st @ ds @ ds'"
    "\<forall>a \<in> fst ` set ds'. sock_ip a = ?ip"
    "sock_ip (remote_rtcp_addr (foldl (sender_step B send_ok) ?st evs)) = ?ip" by auto
  with 1 show ?case by (auto intro!: exI [of _ "ds @ ds'"])
qed

text \<open>
  C11: A live control peer is not displaced. Over any run of the sender in which the peer is never
  silent for 12 seconds before a datagram from elsewhere arrives, the control peer keeps its IP
  address whatever other hosts send, and every RTCP datagram of the run goes to that address.
\<close>

theorem live_peer_not_displaced:
  assumes "bytes_crate B" and "rtcp_peer_live st = Some t0"
    and "peer_kept_alive B (sock_ip (remote_rtcp_addr st)) t0 evs"
    and "st' = foldl (sender_step B send_ok) st evs"
  shows "sock_ip (remote_rtcp_addr st') = sock_ip (remote_rtcp_addr st)
    \<and> (\<exists>ds. rtcp_sent st' = rtcp_sent st @ ds \<and> (\<forall>a \<in> fst ` set ds. sock_ip a = sock_ip (remote_rtcp_addr st)))"
  using assms by (rule peer_kept_run)

theorem live_peer_not_displaced_witness:
  "sock_ip (remote_rtcp_addr (foldl (sender_step be_bytes_api (\<lambda>_. True))
      ((sender_init config_default (SocketV4 1 5000) 3 9 [] 0 0)\<lparr>rtcp_peer_live := Some 10\<rparr>)
      [Rtcp [0x80, 201, 0, 1, 0, 0, 0, 5] (SocketV4 2 99) 1000 (\<lambda>_. 1000), Tick 2000 0])) = IpV4 1"
proof -
  let ?st = "(sender_init config_default (SocketV4 1 5000) 3 9 [] 0 0)\<lparr>rtcp_peer_live := Some 10\<rparr>"
  have ip: "sock_ip (remote_rtcp_addr (sender_init config_default (SocketV4 1 5000) 3 9 [] 0 0)) = IpV4 1"
    by (simp add: sender_init_def Let_def rtcp_addr_for_def)
  show ?thesis
    using live_peer_not_displaced [OF be.bytes_crate_axioms, of ?st 10, OF _ _ refl,
        of "[Rtcp [0x80, 201, 0, 1, 0, 0, 0, 5] (SocketV4 2 99) 1000 (\<lambda>_. 1000), Tick 2000 0]" "\<lambda>_. True"]
    by (simp add: ip)
qed

section \<open>Requests for recent packets are answered\<close>

text \<open>The payloads the application handed over during a run, in order.\<close>

definition media_of :: "SenderEvent list \<Rightarrow> bytes list" where
  "media_of evs = List.map_filter (\<lambda>ev. case ev of Media pl now \<Rightarrow> Some pl | _ \<Rightarrow> None) evs"

definition sender_run ::
  "bytes_api \<Rightarrow> (nat \<Rightarrow> bool) \<Rightarrow> SenderState \<Rightarrow> SenderEvent list \<Rightarrow> SenderState" where
  "sender_run B send_ok st evs = foldl (sender_step B send_ok) st evs"

lemma sender_run_reach: "sender_reach B send_ok st (sender_run B send_ok st evs)"
  by (induction evs rule: rev_induct) (auto simp: sender_run_def intro: sender_reach.intros)

lemma media_of_snoc [simp]:
  "media_of [] = []" "media_of (evs @ [Media pl now]) = media_of evs @ [pl]"
  "media_of (evs @ [Rtcp dg a t clock]) = media_of evs" "media_of (evs @ [Tick now wall]) = media_of evs"
  by (simp_all add: media_of_def List.map_filter_def)

lemma control_keeps_media:
  "seq (sender_on_tick B st now wall) = seq st"
  "seq (sender_on_rtcp B send_ok clock st dg a t) = seq st
   \<and> retransmit_buf (sender_on_rtcp B send_ok clock st dg a t) = retransmit_buf st"
proof -
  show "seq (sender_on_tick B st now wall) = seq st"
    by (simp add: sender_on_tick_def Let_def split_beta)
  show "seq (sender_on_rtcp B send_ok clock st dg a t) = seq st
   \<and> retransmit_buf (sender_on_rtcp B send_ok clock st dg a t) = retransmit_buf st"
  proof (rule sender_on_rtcp_cases [of B send_ok clock st dg a t])
    fix c
    let ?st1 = "st\<lparr>remote_rtcp_addr := a, rtcp_peer_live := Some t\<rparr>"
    assume eq: "sender_on_rtcp B send_ok clock st dg a t
       = sender_on_packets B send_ok clock a t 0 ?st1 (nack_budget_template st) (packets c)"
    have "same_session ?st1 (sender_on_packets B send_ok clock a t 0 ?st1 (nack_budget_template st) (packets c))"
      using sender_on_packets_serves unfolding serves_def by blast
    then show ?thesis unfolding same_session_def by (simp add: eq)
  qed simp
qed

lemma retransmit_after_snoc:
  "retransmit_insert (retransmit_after c ps) k d = retransmit_after c (ps @ [(k, d)])"
  by (simp add: retransmit_after_def)

text \<open>The ring of a running sender holds what storing its packets in order leaves.\<close>

lemma sender_run_ring:
  assumes "bytes_crate B"
    and st: "\<And>evs. st evs = sender_run B send_ok (sender_init config remote rs rq name epoch wall) evs"
  shows "\<exists>ds. length ds = length (media_of evs) \<and> seq (st evs) = rq + of_nat (length ds)
    \<and> retransmit_buf (st evs) = retransmit_after (retransmit_buffer_capacity config)
         (map (\<lambda>j. (rq + of_nat j, ds ! j)) [0..<length ds])
    \<and> (\<forall>j < length ds. \<exists>ts. ds ! j = wire B (ssrc (st evs)) (rq + of_nat j) ts (media_of evs ! j))"
proof (induction evs rule: rev_induct)
  case Nil
  show ?case by (intro exI [of _ "[]"]) (simp add: st sender_run_def sender_init_def Let_def retransmit_after_def)
next
  case (snoc ev evs)
  have step: "st (evs @ [ev]) = sender_step B send_ok (st evs) ev" for ev by (simp add: st sender_run_def)
  have src: "ssrc (st (evs @ [ev])) = ssrc (st evs)" unfolding step by (simp add: sender_step_session [OF assms(1)])
  obtain ds where ds: "length ds = length (media_of evs)" "seq (st evs) = rq + of_nat (length ds)"
    "retransmit_buf (st evs) = retransmit_after (retransmit_buffer_capacity config)
       (map (\<lambda>j. (rq + of_nat j, ds ! j)) [0..<length ds])"
    "\<forall>j < length ds. \<exists>ts. ds ! j = wire B (ssrc (st evs)) (rq + of_nat j) ts (media_of evs ! j)"
    using snoc by blast
  show ?case
  proof (cases ev)
    case (Media pl now)
    let ?d = "wire B (ssrc (st evs)) (seq (st evs)) (ntp_to_rtp90k (ts_epoch_system (st evs)) (ts_epoch (st evs)) now) pl"
    have run: "map (\<lambda>j. (rq + of_nat j, (ds @ [?d]) ! j)) [0..<length (ds @ [?d])]
      = map (\<lambda>j. (rq + of_nat j, ds ! j)) [0..<length ds] @ [(rq + of_nat (length ds), ?d)]"
      by (auto simp: nth_append)
    have "\<forall>j < length (ds @ [?d]). \<exists>ts. (ds @ [?d]) ! j
        = wire B (ssrc (st evs)) (rq + of_nat j) ts ((media_of evs @ [pl]) ! j)"
      using ds(1,2,4) by (auto simp: nth_append less_Suc_eq)
    moreover have "retransmit_buf (st (evs @ [ev])) = retransmit_after (retransmit_buffer_capacity config)
        (map (\<lambda>j. (rq + of_nat j, (ds @ [?d]) ! j)) [0..<length (ds @ [?d])])"
      unfolding run using ds(2,3) by (simp add: step Media sender_on_media_sends [OF assms(1)] retransmit_after_snoc)
    moreover have "seq (st (evs @ [ev])) = rq + of_nat (length (ds @ [?d]))"
      using ds(2) by (simp add: step Media sender_on_media_sends [OF assms(1)] algebra_simps)
    ultimately show ?thesis using Media ds(1) unfolding src by (intro exI [of _ "ds @ [?d]"]) simp
  qed (use ds src in \<open>auto simp: step control_keeps_media sender_on_tick_frame intro!: exI [of _ ds]\<close>)
qed

lemma sender_run_holds_recent:
  assumes "bytes_crate B" "st = sender_run B send_ok (sender_init config remote rs rq name epoch wall) evs"
    "i < length (media_of evs)" "length (media_of evs) - i \<le> next_power_of_two (retransmit_buffer_capacity config)"
    "length (media_of evs) - i \<le> 65536"
  shows "\<exists>ts. retransmit_get (retransmit_buf st) (rq + of_nat i)
    = Some (wire B (ssrc st) (rq + of_nat i) ts (media_of evs ! i))"
proof -
  let ?c = "retransmit_buffer_capacity config"
  obtain ds where ds: "length ds = length (media_of evs)"
    "retransmit_buf st = retransmit_after ?c (map (\<lambda>j. (rq + of_nat j, ds ! j)) [0..<length ds])"
    "\<forall>j < length ds. \<exists>ts. ds ! j = wire B (ssrc st) (rq + of_nat j) ts (media_of evs ! j)"
    using sender_run_ring [OF assms(1), where evs = evs
        and st = "sender_run B send_ok (sender_init config remote rs rq name epoch wall)", OF refl] assms(2) by blast
  have "retransmit_get (retransmit_buf st) (rq + of_nat i) = Some (ds ! i)"
    using ring.get_recent [of "retransmit_new ?c" i ds rq] assms(3-5) ds(1)
    by (simp add: ds(2) retransmit_after_eq ring.run_from_def)
  with ds(1,3) assms(3) show ?thesis by auto
qed

text \<open>The compound a receiver's pump sends is decoded as it was built.\<close>

lemma nack_compound_parse:
  assumes "bytes_crate B" "rr_wf rr" "nack_wf nack"
  shows "compound_parse B (compound_serialize B \<lparr>packets = [ReceiverReport rr, Nack nack]\<rparr>)
    = Ok \<lparr>packets = [ReceiverReport rr, Nack nack]\<rparr>"
  using bytes_crate.compound_loop_roundtrip [OF assms(1), of "[ReceiverReport rr, Nack nack]"] assms(2,3)
  by (simp add: compound_parse_def bytes_crate.compound_serialize_eq [OF assms(1)] MAX_RTCP_SUB_PACKETS_def)

lemma sender_on_nack_datagram:
  assumes "bytes_crate B" "sender_inv B st" "rr_wf rr" "nack_wf nack"
    and "nack_targets_us (nack_media_ssrc nack) (ssrc st)"
    and "peer_move_allowed from (remote_rtcp_addr st) (rtcp_peer_live st) t"
    and "length (nack_lost_seqs (entries nack)) \<le> 512"
    and dg: "dg = compound_serialize B \<lparr>packets = [ReceiverReport rr, Nack nack]\<rparr>" "length dg \<le> 2048"
  shows "rtp_sent (sender_on_rtcp B send_ok clock st dg from t) = rtp_sent st
    @ map (\<lambda>d. (remote_rtp_addr st, retx_copy d)) (hits (retransmit_buf st) (nack_lost_seqs (entries nack)))"
proof -
  let ?st1 = "st\<lparr>remote_rtcp_addr := from, rtcp_peer_live := Some t\<rparr>"
  let ?bud = "nack_budget_template st" and ?seqs = "nack_lost_seqs (entries nack)"
  have p: "compound_parse B (take 2048 dg) = Ok \<lparr>packets = [ReceiverReport rr, Nack nack]\<rparr>"
    using nack_compound_parse [OF assms(1,3,4)] dg by simp
  have "sender_on_rtcp B send_ok clock st dg from t
      = sender_on_packets B send_ok clock from t 0 ?st1 ?bud [ReceiverReport rr, Nack nack]"
    using assms(6) by (cases st) (simp add: sender_on_rtcp_def p Let_def)
  also have "\<dots> = fst (sender_on_nack send_ok ?st1 ?bud ?seqs)"
    using assms(5) by (simp add: sender_on_packet_def Let_def split_beta)
  finally have eq: "sender_on_rtcp B send_ok clock st dg from t = fst (sender_on_nack send_ok ?st1 ?bud ?seqs)" .
  have bud: "512 \<le> unat (retx ?bud)" "512 \<le> unat (scan ?bud)"
    using assms(2) by (simp_all add: sender_inv_def unat_for_capacity)
  have hl: "length (hits rb seqs) \<le> length seqs" for rb and seqs :: "u16 list"
    by (simp add: List.map_filter_def)
  have "take (unat (retx ?bud)) (hits (retransmit_buf st) (take (unat (scan ?bud)) ?seqs)) = hits (retransmit_buf st) ?seqs"
    using bud assms(7) hl [of "retransmit_buf st" ?seqs] by simp
  moreover obtain st' bud' spent where n: "sender_on_nack send_ok ?st1 ?bud ?seqs = (st', bud', spent)"
    by (metis prod_cases3)
  ultimately show ?thesis using sender_on_nack_out(1) [OF n] unfolding eq n by simp
qed

text \<open>
  A request for a recent packet is answered. After any run of a sender, when a receiver that
  may speak for the session sends a report with a NACK for the sender's SSRC that names at most
  512 numbers in a datagram of at most 2048 bytes, then every named packet that is among the last
  \<open>next_power_of_two(capacity)\<close> handed over by the application goes out again to the media
  destination, with its number and payload and the retransmit flag set.
\<close>

lemma recent_packet_goes_out:
  assumes "bytes_crate B" and "st = sender_run B send_ok (sender_init config remote rs rq name epoch wall) evs"
    and "i < length (media_of evs)" and "length (media_of evs) - i \<le> next_power_of_two (retransmit_buffer_capacity config)"
    and "length (media_of evs) - i \<le> 65536"
    and "peer_move_allowed from (remote_rtcp_addr st) (rtcp_peer_live st) t"
    and "rr_wf rr" and "nack_wf nack" and "nack_targets_us (nack_media_ssrc nack) (ssrc st)"
    and "rq + of_nat i \<in> set (nack_lost_seqs (entries nack))" and "length (nack_lost_seqs (entries nack)) \<le> 512"
    and "dg = compound_serialize B \<lparr>packets = [ReceiverReport rr, Nack nack]\<rparr>" and "length dg \<le> 2048"
  shows "\<exists>ts. (remote, wire B (ssrc st OR 1) (rq + of_nat i) ts (media_of evs ! i))
    \<in> set (drop (length (rtp_sent st)) (rtp_sent (sender_on_rtcp B send_ok clock st dg from t)))"
proof -
  have reach: "sender_reach B send_ok (sender_init config remote rs rq name epoch wall) st"
    unfolding assms(2) by (rule sender_run_reach)
  have dest: "remote_rtp_addr st = remote"
    using reach_session [OF assms(1) reach] by (simp add: sender_init_def Let_def)
  obtain ts where "retransmit_get (retransmit_buf st) (rq + of_nat i)
      = Some (wire B (ssrc st) (rq + of_nat i) ts (media_of evs ! i))"
    using sender_run_holds_recent [OF assms(1-5)] by blast
  with assms(10) have "wire B (ssrc st) (rq + of_nat i) ts (media_of evs ! i)
      \<in> set (hits (retransmit_buf st) (nack_lost_seqs (entries nack)))"
    by (force simp: List.map_filter_def)
  with sender_on_nack_datagram [OF assms(1) reach_inv [OF assms(1) reach] assms(7-9,6,11-13)] show ?thesis
    by (auto simp: dest intro!: exI [of _ ts] rev_image_eqI bytes_crate.retx_copy_wire [OF assms(1), symmetric])
qed

text \<open>A sender that has sent number 9.\<close>

definition example_sender :: SenderState where
  "example_sender = sender_run be_bytes_api (\<lambda>_. True)
     (sender_init config_default (SocketV4 1 5000) 3 9 [] 0 0) [Media [0x47] 5]"

end
