(* ===== verification/Rist_Reorder.thy ===== *)
theory Rist_Reorder
  imports Rist_Seq "HOL-Library.Multiset"
begin

text \<open>
  The receiver's reorder buffer of \<open>protocol/reorder.rs\<close>: a ring of slots, the next sequence
  number to deliver and the highest one seen. The ring is read as the window of \<open>capacity\<close>
  numbers from the base on; on it the operations refine a plain queue of entries, and from the
  queue follow in-order delivery, the hold time and that no accepted packet is lost. One case
  of \<open>insert\<close> leaves the refinement; the packet it loses is a theorem of its own.
\<close>

unbundle bit_operations_syntax

section \<open>State and operations\<close>

definition DEFAULT_CAPACITY :: nat where [simp]:
  "DEFAULT_CAPACITY = 8192"

datatype SlotState = Empty | Gap instant | Filled bytes instant

record Slot =
  slot_seq :: u16
  slot_state :: SlotState

record InsertOutcome =
  stale :: bool
  duplicate :: bool
  recovered :: bool
  new_gaps :: nat
  overflow_flushed :: nat

datatype DrainItem = Delivered bytes u16 instant | Lost

record ReorderBuffer =
  slots :: "Slot list"
  capacity :: nat
  slot_mask :: nat
  buffer_time :: duration
  base_seq :: "u16 option"
  highest_seq :: "u16 option"

definition outcome_default :: InsertOutcome where
  "outcome_default = \<lparr>stale = False, duplicate = False, recovered = False, new_gaps = 0, overflow_flushed = 0\<rparr>"

definition empty_slot :: Slot where
  "empty_slot = \<lparr>slot_seq = 0, slot_state = Empty\<rparr>"

definition filled_slot :: "u16 \<Rightarrow> bytes \<Rightarrow> instant \<Rightarrow> Slot" where
  "filled_slot seq data now = \<lparr>slot_seq = seq, slot_state = Filled data now\<rparr>"

fun is_filled :: "SlotState \<Rightarrow> bool" where
  "is_filled (Filled _ _) = True"
| "is_filled _ = False"

definition with_capacity :: "duration \<Rightarrow> nat \<Rightarrow> ReorderBuffer" where
  "with_capacity hold requested =
     (let cap = max (next_power_of_two requested) 64
      in \<lparr>slots = replicate cap empty_slot, capacity = cap, slot_mask = cap - 1, buffer_time = hold,
          base_seq = None, highest_seq = None\<rparr>)"

definition reorder_new :: "duration \<Rightarrow> ReorderBuffer" where
  "reorder_new hold = with_capacity hold DEFAULT_CAPACITY"

text \<open>The slot index \<open>(seq as usize) & self.mask\<close>.\<close>

definition slot_index :: "ReorderBuffer \<Rightarrow> u16 \<Rightarrow> nat" where
  "slot_index rb seq = unat seq AND slot_mask rb"

text \<open>The first packet, and the restart of the window at a packet after a flush of everything.\<close>

definition start_at :: "ReorderBuffer \<Rightarrow> u16 \<Rightarrow> bytes \<Rightarrow> instant \<Rightarrow> ReorderBuffer" where
  "start_at rb seq data now =
     rb\<lparr>slots := (slots rb)[slot_index rb seq := filled_slot seq data now],
        base_seq := Some seq, highest_seq := Some seq\<rparr>"

text \<open>One step of the minimal flush: drop the slot of a number below the new base.\<close>

definition flush_slot :: "ReorderBuffer \<times> nat \<Rightarrow> u16 \<Rightarrow> ReorderBuffer \<times> nat" where
  "flush_slot acc s =
     (case acc of (rb, flushed) \<Rightarrow>
        let sidx = slot_index rb s;
            slot = slots rb ! sidx
        in (rb\<lparr>slots := (slots rb)[sidx := empty_slot]\<rparr>,
            if slot_seq slot = s \<and> is_filled (slot_state slot) then flushed + 1 else flushed))"

text \<open>One step of the gap marking: expose a number between the old and the new highest.\<close>

definition mark_gap :: "instant \<Rightarrow> u16 \<Rightarrow> ReorderBuffer \<times> nat \<Rightarrow> u16 \<Rightarrow> ReorderBuffer \<times> nat" where
  "mark_gap now seq acc gap_seq =
     (case acc of (rb, gaps) \<Rightarrow>
        if gap_seq = seq then (rb, gaps)
        else let gidx = slot_index rb gap_seq;
                 slot = slots rb ! gidx
             in if slot_state slot = Empty \<or> slot_seq slot \<noteq> gap_seq
                then (rb\<lparr>slots := (slots rb)[gidx := \<lparr>slot_seq = gap_seq, slot_state = Gap now\<rparr>]\<rparr>, gaps + 1)
                else (rb, gaps))"

text \<open>The tail of \<open>insert\<close>: extend the highest number and mark the gaps it exposes.\<close>

definition extend_highest ::
  "ReorderBuffer \<Rightarrow> InsertOutcome \<Rightarrow> u16 \<Rightarrow> u16 \<Rightarrow> instant \<Rightarrow> ReorderBuffer \<times> InsertOutcome" where
  "extend_highest rb outcome seq highest now =
     (let diff = sint (seq - highest)
      in if diff > 0
         then let (rb', gaps) = foldl (mark_gap now seq) (rb, new_gaps outcome)
                    (map (\<lambda>i. highest + of_nat i) [1..<nat diff + 1])
              in (rb'\<lparr>highest_seq := Some seq\<rparr>, outcome\<lparr>new_gaps := gaps\<rparr>)
         else (rb, outcome))"

text \<open>From the computation of the slot index on: the packet is within the ring of the base.\<close>

definition insert_in_window ::
  "ReorderBuffer \<Rightarrow> InsertOutcome \<Rightarrow> u16 \<Rightarrow> bytes \<Rightarrow> instant \<Rightarrow> u16 \<Rightarrow> ReorderBuffer \<times> InsertOutcome" where
  "insert_in_window rb outcome seq data now highest =
     (let idx = slot_index rb seq;
          slot = slots rb ! idx
      in if slot_seq slot = seq
         then (case slot_state slot of
                 Filled _ _ \<Rightarrow> (rb, outcome\<lparr>duplicate := True\<rparr>)
               | Gap _ \<Rightarrow>
                   extend_highest (rb\<lparr>slots := (slots rb)[idx := slot\<lparr>slot_state := Filled data now\<rparr>]\<rparr>)
                     (outcome\<lparr>recovered := True\<rparr>) seq highest now
               | Empty \<Rightarrow>
                   extend_highest (rb\<lparr>slots := (slots rb)[idx := slot\<lparr>slot_state := Filled data now\<rparr>]\<rparr>)
                     outcome seq highest now)
         else extend_highest (rb\<lparr>slots := (slots rb)[idx := filled_slot seq data now]\<rparr>)
                outcome seq highest now)"

definition reorder_insert :: "ReorderBuffer \<Rightarrow> u16 \<Rightarrow> bytes \<Rightarrow> instant \<Rightarrow> ReorderBuffer \<times> InsertOutcome" where
  "reorder_insert rb seq data now =
     (case (base_seq rb, highest_seq rb) of
        (Some base, Some highest) \<Rightarrow>
          let from_base = sint (seq - base)
          in if from_base < 0 then (rb, outcome_default\<lparr>stale := True\<rparr>)
             else let ahead_capacity = unat (of_nat (capacity rb) - 1 :: u16)
                  in if nat from_base > ahead_capacity
                     then let advance = nat from_base - ahead_capacity;
                              new_base = base + of_nat advance;
                              highest_offset = unat (highest - base)
                          in if advance \<ge> capacity rb \<or> highest_offset < advance
                             then let flushed = length (filter (is_filled \<circ> slot_state) (slots rb))
                                  in (start_at (rb\<lparr>slots := map (\<lambda>_. empty_slot) (slots rb)\<rparr>) seq data now,
                                      outcome_default\<lparr>overflow_flushed := flushed\<rparr>)
                             else let (rb', flushed) = foldl flush_slot (rb, 0)
                                        (map (\<lambda>i. base + of_nat i) [0..<advance])
                                  in insert_in_window (rb'\<lparr>base_seq := Some new_base\<rparr>)
                                       (outcome_default\<lparr>overflow_flushed := flushed\<rparr>) seq data now highest
                     else insert_in_window rb outcome_default seq data now highest
      | _ \<Rightarrow> (start_at rb seq data now, outcome_default))"

text \<open>
  The drain loop, with the items in the order it pushes them. Each round that goes on advances
  the base, which never passes the highest number by more than one.
\<close>

function drain_ready :: "ReorderBuffer \<Rightarrow> instant \<Rightarrow> ReorderBuffer \<times> DrainItem list" where
  "drain_ready rb now =
     (case (base_seq rb, highest_seq rb) of
        (Some base, Some h) \<Rightarrow>
          if sint (base - h) > 0 then (rb, [])
          else let idx = slot_index rb base;
                   slot = slots rb ! idx
               in if slot_seq slot \<noteq> base
                  then let (rb', out) = drain_ready (rb\<lparr>slots := (slots rb)[idx := empty_slot],
                                                      base_seq := Some (base + 1)\<rparr>) now
                       in (rb', Lost # out)
                  else (case slot_state slot of
                          Filled data arrival \<Rightarrow>
                            if now - arrival \<ge> buffer_time rb
                            then let (rb', out) =
                                   drain_ready (rb\<lparr>slots := (slots rb)[idx := slot\<lparr>slot_state := Empty\<rparr>],
                                                   base_seq := Some (base + 1)\<rparr>) now
                                 in (rb', Delivered data base arrival # out)
                            else (rb, [])
                        | Gap first_noticed \<Rightarrow>
                            if now - first_noticed \<ge> buffer_time rb
                            then let (rb', out) =
                                   drain_ready (rb\<lparr>slots := (slots rb)[idx := slot\<lparr>slot_state := Empty\<rparr>],
                                                   base_seq := Some (base + 1)\<rparr>) now
                                 in (rb', Lost # out)
                            else (rb, [])
                        | Empty \<Rightarrow> (rb, []))
      | _ \<Rightarrow> (rb, []))"
  by pat_completeness auto

text \<open>The distance left to the highest number, the measure of the drain loop.\<close>

definition drain_distance :: "ReorderBuffer \<Rightarrow> nat" where
  "drain_distance rb =
     (case (base_seq rb, highest_seq rb) of (Some b, Some h) \<Rightarrow> unat (h - b + 1) | _ \<Rightarrow> 0)"

lemma unat_u16_Suc:
  assumes "w \<noteq> (- 1 :: u16)"
  shows "unat (w + 1) = unat w + 1"
proof -
  have "unat w \<noteq> 65535"
  proof
    assume "unat w = 65535"
    then have "unat w = unat (- 1 :: u16)"
      by (simp add: unsigned_minus_1_eq_mask mask_eq_exp_minus_1)
    with assms show False by (blast dest: unsigned_word_eqI)
  qed
  with unat_u16_lt [of w] have "unat w + 1 < 65536" by linarith
  then show ?thesis by (simp add: unat_word_ariths)
qed

lemma drain_distance_step:
  assumes "\<not> 0 < sint (b - h :: u16)"
  shows "unat (h - b) < unat (h - b + 1)"
proof -
  have "h - b \<noteq> - 1"
  proof
    assume "h - b = - 1"
    then have "b - h = 1" by (metis minus_diff_eq minus_minus)
    with assms show False by simp
  qed
  then show ?thesis by (simp add: unat_u16_Suc)
qed

lemma drain_distance_less:
  assumes "Some b = base_seq rb" "Some h = highest_seq rb" "\<not> 0 < sint (b - h)"
  shows "drain_distance (rb\<lparr>slots := ss, base_seq := Some (b + 1)\<rparr>) < drain_distance rb"
proof -
  have "h - (b + 1) + 1 = h - b" by simp
  with drain_distance_step [OF assms(3)] assms(1,2) [symmetric] show ?thesis
    by (simp add: drain_distance_def)
qed

termination drain_ready
  by (relation "measure (\<lambda>(rb, now). drain_distance rb)") (auto intro: drain_distance_less)

declare drain_ready.simps [simp del]

text \<open>\<open>next_drain_time\<close>, with the clock it reads as an argument.\<close>

definition next_drain_time :: "ReorderBuffer \<Rightarrow> instant \<Rightarrow> instant option" where
  "next_drain_time rb clock =
     (case base_seq rb of
        None \<Rightarrow> None
      | Some base \<Rightarrow>
          let slot = slots rb ! slot_index rb base
          in if slot_seq slot \<noteq> base then Some clock
             else (case slot_state slot of
                     Filled _ arrival \<Rightarrow> Some (arrival + buffer_time rb)
                   | Gap first_noticed \<Rightarrow> Some (first_noticed + buffer_time rb)
                   | Empty \<Rightarrow> None))"

section \<open>The window on the ring\<close>

text \<open>The ring read from a base on: entry \<open>i\<close> is the slot of the number \<open>i\<close> steps later.\<close>

definition window :: "nat \<Rightarrow> u16 \<Rightarrow> Slot list \<Rightarrow> Slot list" where
  "window cap b ss = map (\<lambda>i. ss ! ring_index cap (b + of_nat i)) [0..<cap]"

lemma length_window [simp]: "length (window cap b ss) = cap"
  by (simp add: window_def)

lemma nth_window [simp]: "i < cap \<Longrightarrow> window cap b ss ! i = ss ! ring_index cap (b + of_nat i)"
  by (simp add: window_def)

text \<open>Writing a slot writes the window, and moving the base rotates it.\<close>

lemma window_update:
  assumes "is_pow2 cap" "cap \<le> 65536" "length ss = cap" "j < cap"
  shows "window cap b (ss[ring_index cap (b + of_nat j) := v]) = (window cap b ss)[j := v]"
proof (rule nth_equalityI)
  fix i assume "i < length (window cap b (ss[ring_index cap (b + of_nat j) := v]))"
  then have i: "i < cap" by simp
  with assms show "window cap b (ss[ring_index cap (b + of_nat j) := v]) ! i = (window cap b ss)[j := v] ! i"
    by (cases "i = j") (simp_all add: ring_index_inj)
qed simp

lemma window_shift:
  assumes "is_pow2 cap" "cap \<le> 65536" "length ss = cap"
  shows "window cap (b + of_nat a) ss = rotate a (window cap b ss)"
proof (rule nth_equalityI)
  fix i assume "i < length (window cap (b + of_nat a) ss)"
  then have i: "i < cap" by simp
  have "ring_index cap (b + of_nat (a + i)) = ring_index cap (b + of_nat ((a + i) mod cap))"
    using assms by (simp only: ring_index_add) (simp add: mod_simps)
  with i show "window cap (b + of_nat a) ss ! i = rotate a (window cap b ss) ! i"
    by (simp add: nth_rotate add.assoc add.commute [of i])
qed simp

lemma window_all:
  assumes "is_pow2 cap" "cap \<le> 65536" "length ss = cap"
  shows "mset (window cap b ss) = mset ss"
proof -
  let ?f = "\<lambda>i. ring_index cap (b + of_nat i)"
  have inj: "inj_on ?f {0..<cap}" using assms by (auto simp: inj_on_def ring_index_inj)
  have "?f ` {0..<cap} = {0..<cap}"
    using assms by (intro endo_inj_surj inj) auto
  then have "image_mset ?f (mset_set {0..<cap}) = mset_set {0..<cap}"
    using inj by (simp add: image_mset_mset_set)
  then have "image_mset (\<lambda>i. ss ! ?f i) (mset_set {0..<cap}) = image_mset (nth ss) (mset_set {0..<cap})"
    by (metis (no_types, lifting) image_mset.compositionality comp_def image_mset_cong)
  moreover have "mset ss = image_mset (nth ss) (mset_set {0..<cap})"
    using assms(3) by (metis map_nth mset_map mset_upt)
  ultimately show ?thesis by (simp add: window_def)
qed

section \<open>The queue the buffer stands for\<close>

text \<open>
  A buffer that has seen a packet stands for the base number and the entries from the base to
  the highest number: packets and gaps.
\<close>

type_synonym queue = "(u16 \<times> SlotState list) option"

definition count_filled :: "SlotState list \<Rightarrow> nat" where
  "count_filled es = length (filter is_filled es)"

fun q_place ::
  "u16 \<Rightarrow> SlotState list \<Rightarrow> nat \<Rightarrow> bytes \<Rightarrow> instant \<Rightarrow> InsertOutcome \<Rightarrow> queue \<times> InsertOutcome" where
  "q_place b es k data now outcome =
     (if k < length es
      then if is_filled (es ! k) then (Some (b, es), outcome\<lparr>duplicate := True\<rparr>)
           else (Some (b, es[k := Filled data now]), outcome\<lparr>recovered := True\<rparr>)
      else (Some (b, es @ replicate (k - length es) (Gap now) @ [Filled data now]),
            outcome\<lparr>new_gaps := k - length es\<rparr>))"

fun q_insert :: "nat \<Rightarrow> queue \<Rightarrow> u16 \<Rightarrow> bytes \<Rightarrow> instant \<Rightarrow> queue \<times> InsertOutcome" where
  "q_insert cap None seq data now = (Some (seq, [Filled data now]), outcome_default)"
| "q_insert cap (Some (b, es)) seq data now =
     (let k = unat (seq - b)
      in if k \<ge> 32768 then (Some (b, es), outcome_default\<lparr>stale := True\<rparr>)
         else if k < cap then q_place b es k data now outcome_default
         else let a = k - (cap - 1)
              in if a < length es
                 then q_place (b + of_nat a) (drop a es) (cap - 1) data now
                        (outcome_default\<lparr>overflow_flushed := count_filled (take a es)\<rparr>)
                 else (Some (seq, [Filled data now]),
                       outcome_default\<lparr>overflow_flushed := count_filled es\<rparr>))"

text \<open>An entry leaves the queue when it has been held for the buffer time.\<close>

fun held_since :: "SlotState \<Rightarrow> instant" where
  "held_since (Filled _ t) = t"
| "held_since (Gap t) = t"
| "held_since Empty = 0"

definition ripe :: "duration \<Rightarrow> instant \<Rightarrow> SlotState \<Rightarrow> bool" where
  "ripe hold now e \<longleftrightarrow> hold \<le> now - held_since e"

fun drain_item :: "u16 \<Rightarrow> SlotState \<Rightarrow> DrainItem" where
  "drain_item seq (Filled data t) = Delivered data seq t"
| "drain_item seq _ = Lost"

fun q_items :: "u16 \<Rightarrow> SlotState list \<Rightarrow> DrainItem list" where
  "q_items b [] = []"
| "q_items b (e # es) = drain_item b e # q_items (b + 1) es"

fun q_drain :: "duration \<Rightarrow> queue \<Rightarrow> instant \<Rightarrow> queue \<times> DrainItem list" where
  "q_drain hold None now = (None, [])"
| "q_drain hold (Some (b, es)) now =
     (let out = takeWhile (ripe hold now) es
      in (Some (b + of_nat (length out), drop (length out) es), q_items b out))"

section \<open>Invariant and abstraction\<close>

text \<open>The window holds \<open>n\<close> entries in order from the base, then empty slots.\<close>

definition shape :: "u16 \<Rightarrow> nat \<Rightarrow> Slot list \<Rightarrow> bool" where
  "shape b n w \<longleftrightarrow> n \<le> length w
     \<and> (\<forall>i < n. slot_seq (w ! i) = b + of_nat i \<and> slot_state (w ! i) \<noteq> Empty)
     \<and> (\<forall>i < length w. n \<le> i \<longrightarrow> slot_state (w ! i) = Empty)"

definition ring_ok :: "ReorderBuffer \<Rightarrow> bool" where
  "ring_ok rb \<longleftrightarrow> is_pow2 (capacity rb) \<and> 64 \<le> capacity rb \<and> capacity rb \<le> 16384
     \<and> length (slots rb) = capacity rb \<and> slot_mask rb = capacity rb - 1"

definition entry_count :: "u16 \<Rightarrow> u16 \<Rightarrow> nat" where
  "entry_count b h = unat (h + 1 - b)"

definition reorder_inv :: "ReorderBuffer \<Rightarrow> bool" where
  "reorder_inv rb \<longleftrightarrow> ring_ok rb \<and>
     (case (base_seq rb, highest_seq rb) of
        (Some b, Some h) \<Rightarrow> shape b (entry_count b h) (window (capacity rb) b (slots rb))
      | (None, None) \<Rightarrow> (\<forall>s \<in> set (slots rb). slot_state s = Empty)
      | _ \<Rightarrow> False)"

definition queue_of :: "ReorderBuffer \<Rightarrow> queue" where
  "queue_of rb =
     (case (base_seq rb, highest_seq rb) of
        (Some b, Some h) \<Rightarrow>
          Some (b, map slot_state (take (entry_count b h) (window (capacity rb) b (slots rb))))
      | _ \<Rightarrow> None)"

lemma ring_ok_index: "ring_ok rb \<Longrightarrow> slot_index rb seq = ring_index (capacity rb) seq"
  by (simp add: ring_ok_def slot_index_def ring_index_def)

lemma ring_ok_updates [simp]:
  "ring_ok rb \<Longrightarrow> length ss = capacity rb \<Longrightarrow> ring_ok (rb\<lparr>slots := ss\<rparr>)"
  "ring_ok (rb\<lparr>base_seq := b\<rparr>) = ring_ok rb" "ring_ok (rb\<lparr>highest_seq := h\<rparr>) = ring_ok rb"
  by (simp_all add: ring_ok_def)

lemma ring_okD:
  assumes "ring_ok rb"
  shows "is_pow2 (capacity rb)" "length (slots rb) = capacity rb" "64 \<le> capacity rb"
    "capacity rb \<le> 16384" "capacity rb \<le> 65536" "0 < capacity rb"
  using assms by (simp_all add: ring_ok_def)

text \<open>Reading and writing the slot of a number \<open>k < capacity\<close> steps after the base.\<close>

lemma slot_at_offset:
  "ring_ok rb \<Longrightarrow> k < capacity rb \<Longrightarrow>
    slots rb ! slot_index rb (b + of_nat k) = window (capacity rb) b (slots rb) ! k"
  by (simp add: ring_ok_index)

lemma window_write:
  "ring_ok rb \<Longrightarrow> k < capacity rb \<Longrightarrow>
    window (capacity rb) b ((slots rb)[slot_index rb (b + of_nat k) := v])
    = (window (capacity rb) b (slots rb))[k := v]"
  by (simp add: ring_ok_index window_update ring_okD)

section \<open>Word arithmetic of the window\<close>

lemma highest_word: "h = b + of_nat (entry_count b h) - (1 :: u16)"
  by (simp add: entry_count_def)

lemma entry_count_at: "n < 65536 \<Longrightarrow> entry_count b (b + of_nat n - 1) = n"
  by (simp add: entry_count_def)

text \<open>The signed distance from the highest number to one \<open>k\<close> steps after the base.\<close>

lemma highest_distance:
  assumes "n \<le> 16384" "k < 16384"
  shows "0 < sint ((b + of_nat k) - (b + of_nat n - 1) :: u16) \<longleftrightarrow> n \<le> k"
    and "n \<le> k \<Longrightarrow> nat (sint ((b + of_nat k) - (b + of_nat n - 1) :: u16)) = k + 1 - n"
proof -
  have w: "(b + of_nat k) - (b + of_nat n - 1) = of_nat k - of_nat n + (1 :: u16)" by simp
  have ahead: "sint ((b + of_nat k) - (b + of_nat n - 1) :: u16) = int (k + 1 - n)" if "n \<le> k"
  proof -
    have "of_nat k - of_nat n + (1 :: u16) = of_nat (k + 1 - n)" using that by (simp add: of_nat_diff)
    moreover have "sint (of_nat (k + 1 - n) :: u16) = int (k + 1 - n)"
      using assms by (intro sint_of_nat_u16) simp
    ultimately show ?thesis by (simp only: w)
  qed
  show "n \<le> k \<Longrightarrow> nat (sint ((b + of_nat k) - (b + of_nat n - 1) :: u16)) = k + 1 - n"
    using ahead by simp
  show "0 < sint ((b + of_nat k) - (b + of_nat n - 1) :: u16) \<longleftrightarrow> n \<le> k"
  proof (cases "n \<le> k")
    case False
    have "of_nat k - of_nat n + (1 :: u16) = - of_nat (n - 1 - k)" using False by (simp add: of_nat_diff)
    moreover have "sint (- of_nat (n - 1 - k) :: u16) = - int (n - 1 - k)"
      using assms by (intro sint_minus_of_nat_u16) simp
    ultimately have "sint (of_nat k - of_nat n + (1 :: u16)) = - int (n - 1 - k)" by (simp only:)
    with False show ?thesis unfolding w by simp
  next
    case True
    with ahead [OF True] show ?thesis by linarith
  qed
qed

section \<open>Insertion refines the queue\<close>

text \<open>The gap-marking loop over empty window positions.\<close>

lemma mark_gaps:
  assumes "ring_ok rb" "distinct js" "\<And>j. j \<in> set js \<Longrightarrow> j < capacity rb \<and> b + of_nat j \<noteq> seq
      \<and> slot_state (window (capacity rb) b (slots rb) ! j) = Empty"
  shows "\<exists>ss. foldl (mark_gap now seq) (rb, g) (map (\<lambda>j. b + of_nat j) js) = (rb\<lparr>slots := ss\<rparr>, g + length js)
    \<and> length ss = capacity rb
    \<and> window (capacity rb) b ss = map (\<lambda>i. if i \<in> set js then \<lparr>slot_seq = b + of_nat i, slot_state = Gap now\<rparr>
         else window (capacity rb) b (slots rb) ! i) [0..<capacity rb]"
  using assms
proof (induction js arbitrary: rb g)
  case Nil
  then show ?case
    by (intro exI [of _ "slots rb"]) (auto simp: ring_okD intro!: nth_equalityI)
next
  case (Cons j js)
  let ?cap = "capacity rb" and ?gap = "\<lambda>i. \<lparr>slot_seq = b + of_nat i, slot_state = Gap now\<rparr>"
  let ?rb1 = "rb\<lparr>slots := (slots rb)[slot_index rb (b + of_nat j) := ?gap j]\<rparr>"
  have j: "j < ?cap" "b + of_nat j \<noteq> seq" "slot_state (window ?cap b (slots rb) ! j) = Empty"
    using Cons.prems(3) [of j] by auto
  have step: "mark_gap now seq (rb, g) (b + of_nat j) = (?rb1, g + 1)"
    using j Cons.prems(1) by (simp add: mark_gap_def slot_at_offset Let_def del: nth_window)
  have w1: "window ?cap b ((slots rb)[slot_index rb (b + of_nat j) := ?gap j]) = (window ?cap b (slots rb))[j := ?gap j]"
    using j Cons.prems(1) by (simp add: window_write)
  have "\<exists>ss. foldl (mark_gap now seq) (?rb1, g + 1) (map (\<lambda>j. b + of_nat j) js)
        = (?rb1\<lparr>slots := ss\<rparr>, (g + 1) + length js) \<and> length ss = capacity ?rb1
    \<and> window (capacity ?rb1) b ss = map (\<lambda>i. if i \<in> set js then ?gap i
         else window (capacity ?rb1) b (slots ?rb1) ! i) [0..<capacity ?rb1]"
  proof (rule Cons.IH)
    show "ring_ok ?rb1" using Cons.prems(1) by (simp add: ring_okD)
    show "distinct js" using Cons.prems(2) by simp
    fix i assume "i \<in> set js"
    moreover from this have "i \<noteq> j" using Cons.prems(2) by auto
    ultimately show "i < capacity ?rb1 \<and> b + of_nat i \<noteq> seq
        \<and> slot_state (window (capacity ?rb1) b (slots ?rb1) ! i) = Empty"
      using Cons.prems(3) [of i] by (auto simp: w1 simp del: nth_window)
  qed
  then obtain ss where ss: "foldl (mark_gap now seq) (?rb1, g + 1) (map (\<lambda>j. b + of_nat j) js)
        = (rb\<lparr>slots := ss\<rparr>, g + 1 + length js)" "length ss = ?cap"
      "window ?cap b ss = map (\<lambda>i. if i \<in> set js then ?gap i
         else window ?cap b ((slots rb)[slot_index rb (b + of_nat j) := ?gap j]) ! i) [0..<?cap]"
    by auto
  have "window ?cap b ss = map (\<lambda>i. if i \<in> set (j # js) then ?gap i
         else window ?cap b (slots rb) ! i) [0..<?cap]"
    unfolding ss(3) w1 using j(1) Cons.prems(2)
    by (intro map_cong) (auto simp: nth_list_update simp del: nth_window)
  with ss step show ?case by (intro exI [of _ ss]) simp
qed

lemma map_shift_upt: "map (\<lambda>i. f (n + i - 1)) [1..<Suc d] = map f [n..<n + d]"
  by (intro nth_equalityI) (auto simp: nth_append simp del: upt_Suc)

text \<open>The numbers the loop of the source visits, as window positions.\<close>

lemma gap_numbers:
  assumes "n \<le> k"
  shows "map (\<lambda>i. (b + of_nat n - 1) + of_nat i :: u16) [1..<(k + 1 - n) + 1]
    = map (\<lambda>j. b + of_nat j) [n..<k] @ [b + of_nat k]"
proof -
  have "map (\<lambda>i. (b + of_nat n - 1) + of_nat i :: u16) [1..<Suc (k + 1 - n)]
      = map (\<lambda>i. b + of_nat (n + i - 1)) [1..<Suc (k + 1 - n)]"
    by (intro map_cong) (auto simp: of_nat_diff algebra_simps simp del: upt_Suc)
  also have "\<dots> = map (\<lambda>j. b + of_nat j) [n..<n + (k + 1 - n)]"
    by (rule map_shift_upt)
  also have "[n..<n + (k + 1 - n)] = [n..<k] @ [k]" using assms by simp
  finally show ?thesis by simp
qed

text \<open>The window after a fresh packet \<open>k\<close> steps after the base, \<open>n\<close> entries being there.\<close>

lemma extend_fresh:
  assumes ok: "ring_ok rb" and hi: "highest_seq rb = Some (b + of_nat n - 1)" "base_seq rb = Some b"
    and sh: "shape b n (window (capacity rb) b (slots rb))" and nk: "n \<le> k" "k < capacity rb"
    and seq: "seq = b + of_nat k" and g: "new_gaps outcome = 0"
    and rb1: "rb1 = rb\<lparr>slots := (slots rb)[slot_index rb seq := filled_slot seq data now]\<rparr>"
    and r: "extend_highest rb1 outcome seq (b + of_nat n - 1) now = (rb', outcome')"
  shows "reorder_inv rb' \<and> capacity rb' = capacity rb \<and> buffer_time rb' = buffer_time rb
    \<and> (queue_of rb', outcome') =
      q_place b (map slot_state (take n (window (capacity rb) b (slots rb)))) k data now outcome"
proof -
  let ?cap = "capacity rb" and ?w = "window (capacity rb) b (slots rb)"
  let ?gap = "\<lambda>i. \<lparr>slot_seq = b + of_nat i, slot_state = Gap now\<rparr>"
  have ok1: "ring_ok rb1" "capacity rb1 = ?cap" using ok by (simp_all add: rb1 ring_okD)
  have w1: "window ?cap b (slots rb1) = ?w[k := filled_slot seq data now]"
    using ok nk by (simp add: rb1 seq window_write)
  have pos: "j < ?cap \<and> b + of_nat j \<noteq> seq \<and> slot_state (window ?cap b (slots rb1) ! j) = Empty"
    if "j \<in> set [n..<k]" for j
  proof -
    have "of_nat j \<noteq> (of_nat k :: u16)"
      using that nk ring_okD(4) [OF ok] unat_of_nat_u16 [of j] unat_of_nat_u16 [of k] by (auto simp del: unat_of_nat_u16)
    with that nk sh show ?thesis by (auto simp: w1 seq shape_def simp del: nth_window)
  qed
  from mark_gaps [of rb1 "[n..<k]" b seq now 0] ok1 pos obtain ss where ss:
    "foldl (mark_gap now seq) (rb1, 0) (map (\<lambda>j. b + of_nat j) [n..<k]) = (rb1\<lparr>slots := ss\<rparr>, k - n)"
    "length ss = ?cap"
    "window ?cap b ss = map (\<lambda>i. if i \<in> {n..<k} then ?gap i
         else (?w[k := filled_slot seq data now]) ! i) [0..<?cap]"
    by (auto simp: w1 simp del: nth_window)
  have last: "mark_gap now seq (rb1\<lparr>slots := ss\<rparr>, k - n) (b + of_nat k) = (rb1\<lparr>slots := ss\<rparr>, k - n)"
    by (simp add: mark_gap_def seq)
  have d: "0 < sint (seq - (b + of_nat n - 1))" "nat (sint (seq - (b + of_nat n - 1))) = k + 1 - n"
    using highest_distance [of n k b] nk ring_okD(4) [OF ok] by (simp_all add: seq)
  have rb': "rb' = rb\<lparr>slots := ss, highest_seq := Some seq\<rparr>" "outcome' = outcome\<lparr>new_gaps := k - n\<rparr>"
    using r d g ss(1) last unfolding extend_highest_def Let_def d(2) gap_numbers [OF nk(1)]
    by (simp_all add: seq rb1)
  have n': "entry_count b seq = k + 1"
    using nk ring_okD(4) [OF ok] unat_of_nat_u16 [of "k + 1"]
    by (simp add: seq entry_count_def add.commute [of _ 1])
  have wn: "window ?cap b ss = take n ?w @ map ?gap [n..<k] @ filled_slot seq data now # drop (Suc k) ?w"
    unfolding ss(3) using nk
    by (intro nth_equalityI) (auto simp: nth_append nth_list_update nth_Cons' simp del: nth_window)
  have "shape b (k + 1) (window ?cap b ss)"
    using sh nk unfolding wn shape_def
    by (auto simp: nth_append nth_Cons' filled_slot_def seq less_Suc_eq simp del: nth_window)
  moreover have "map slot_state (take (k + 1) (window ?cap b ss))
      = map slot_state (take n ?w) @ replicate (k - n) (Gap now) @ [Filled data now]"
    using nk unfolding wn by (simp add: map_replicate_const filled_slot_def comp_def)
  ultimately show ?thesis
    using ok ss(2) nk hi by (simp add: reorder_inv_def queue_of_def rb' n')
qed

text \<open>The part of \<open>insert\<close> for a number within the ring of the base.\<close>

lemma insert_in_window_refines:
  assumes ok: "ring_ok rb" and hi: "highest_seq rb = Some (b + of_nat n - 1)" "base_seq rb = Some b"
    and sh: "shape b n (window (capacity rb) b (slots rb))" and k: "k < capacity rb"
    and seq: "seq = b + of_nat k" and g: "new_gaps outcome = 0"
    and r: "insert_in_window rb outcome seq data now (b + of_nat n - 1) = (rb', outcome')"
  shows "reorder_inv rb' \<and> capacity rb' = capacity rb \<and> buffer_time rb' = buffer_time rb
    \<and> (queue_of rb', outcome') =
      q_place b (map slot_state (take n (window (capacity rb) b (slots rb)))) k data now outcome"
proof (cases "n \<le> k")
  case True
  let ?slot = "window (capacity rb) b (slots rb) ! k"
  have at: "slots rb ! slot_index rb seq = ?slot" using ok k by (simp only: seq slot_at_offset)
  have "slot_state ?slot = Empty" using sh True k by (simp add: shape_def del: nth_window)
  moreover have "?slot\<lparr>slot_state := Filled data now\<rparr> = filled_slot seq data now" if "slot_seq ?slot = seq"
    using that by (cases ?slot) (simp add: filled_slot_def del: nth_window)
  ultimately have "extend_highest (rb\<lparr>slots := (slots rb)[slot_index rb seq := filled_slot seq data now]\<rparr>)
      outcome seq (b + of_nat n - 1) now = (rb', outcome')"
    using r by (simp add: insert_in_window_def at Let_def del: nth_window split: if_splits)
  from extend_fresh [OF ok hi sh True k seq g refl this] show ?thesis .
next
  case False
  let ?cap = "capacity rb" and ?w = "window (capacity rb) b (slots rb)"
  have kn: "k < n" "n \<le> ?cap" using False sh by (simp_all add: shape_def)
  have at: "slots rb ! slot_index rb seq = ?w ! k" using ok k by (simp only: seq slot_at_offset)
  have sk: "slot_seq (?w ! k) = seq" "slot_state (?w ! k) \<noteq> Empty"
    using sh kn by (simp_all add: shape_def seq del: nth_window)
  have no_ext: "extend_highest rb1 o1 seq (b + of_nat n - 1) now = (rb1, o1)" for rb1 o1
    using highest_distance(1) [of n k b] kn ring_okD(4) [OF ok] by (simp add: extend_highest_def seq)
  have n: "entry_count b (b + of_nat n - 1) = n" using kn ring_okD(4) [OF ok] by (simp add: entry_count_at)
  have es: "map slot_state (take n ?w) ! k = slot_state (?w ! k)" "length (map slot_state (take n ?w)) = n"
    using kn by (simp_all del: nth_window)
  show ?thesis
  proof (cases "slot_state (?w ! k)")
    case (Filled d t)
    with r sk at have "rb' = rb" "outcome' = outcome\<lparr>duplicate := True\<rparr>"
      by (simp_all add: insert_in_window_def Let_def del: nth_window)
    with Filled es kn ok sh hi n show ?thesis
      by (simp add: reorder_inv_def queue_of_def del: nth_window)
  next
    case (Gap t)
    let ?ss = "(slots rb)[slot_index rb seq := (?w ! k)\<lparr>slot_state := Filled data now\<rparr>]"
    have rb': "rb' = rb\<lparr>slots := ?ss\<rparr>" "outcome' = outcome\<lparr>recovered := True\<rparr>"
      using Gap r sk at by (simp_all add: insert_in_window_def no_ext Let_def del: nth_window)
    have w': "window ?cap b ?ss = ?w[k := (?w ! k)\<lparr>slot_state := Filled data now\<rparr>]"
      using ok k by (simp only: seq window_write)
    have "shape b n (window ?cap b ?ss)"
      unfolding w' using sh kn sk by (auto simp: shape_def nth_list_update seq simp del: nth_window)
    moreover have "map slot_state (take n (window ?cap b ?ss)) = (map slot_state (take n ?w))[k := Filled data now]"
      unfolding w' using kn by (simp add: take_update_swap map_update del: nth_window)
    ultimately show ?thesis
      using Gap es kn ok hi n by (simp add: reorder_inv_def queue_of_def rb' ring_okD del: nth_window)
  qed (use sk in simp)
qed

text \<open>The minimal flush: the first \<open>a\<close> entries leave the window.\<close>

lemma flush_slots:
  assumes "ring_ok rb" "a \<le> n" "shape b n (window (capacity rb) b (slots rb))"
  shows "\<exists>ss. foldl flush_slot (rb, 0) (map (\<lambda>i. b + of_nat i) [0..<a])
      = (rb\<lparr>slots := ss\<rparr>, count_filled (map slot_state (take a (window (capacity rb) b (slots rb)))))
    \<and> length ss = capacity rb
    \<and> window (capacity rb) b ss = replicate a empty_slot @ drop a (window (capacity rb) b (slots rb))"
  using assms(2)
proof (induction a)
  case 0
  show ?case using assms(1) by (intro exI [of _ "slots rb"]) (simp add: count_filled_def ring_okD)
next
  case (Suc a)
  let ?cap = "capacity rb" and ?w = "window (capacity rb) b (slots rb)"
  from Suc obtain ss where ss: "foldl flush_slot (rb, 0) (map (\<lambda>i. b + of_nat i) [0..<a])
      = (rb\<lparr>slots := ss\<rparr>, count_filled (map slot_state (take a ?w)))" "length ss = ?cap"
    "window ?cap b ss = replicate a empty_slot @ drop a ?w" by auto
  have a: "a < n" "n \<le> ?cap" using Suc.prems assms(3) by (simp_all add: shape_def)
  have ok1: "ring_ok (rb\<lparr>slots := ss\<rparr>)" using assms(1) ss(2) by simp
  have at: "ss ! slot_index (rb\<lparr>slots := ss\<rparr>) (b + of_nat a) = ?w ! a"
    using slot_at_offset [OF ok1, of a b] a ss(3) by (simp add: nth_append del: nth_window)
  have seq: "slot_seq (?w ! a) = b + of_nat a" using assms(3) a by (simp add: shape_def del: nth_window)
  let ?ss = "ss[slot_index (rb\<lparr>slots := ss\<rparr>) (b + of_nat a) := empty_slot]"
  have "window ?cap b ?ss = (replicate a empty_slot @ drop a ?w)[a := empty_slot]"
    using window_write [OF ok1, of a b empty_slot] a ss(3) by simp
  also have "\<dots> = replicate (Suc a) empty_slot @ drop (Suc a) ?w"
    using a by (simp add: list_update_append Cons_nth_drop_Suc [symmetric] replicate_append_same del: nth_window)
  finally have w: "window ?cap b ?ss = replicate (Suc a) empty_slot @ drop (Suc a) ?w" .
  have cnt: "count_filled (map slot_state (take (Suc a) ?w)) =
      (if is_filled (slot_state (?w ! a)) then count_filled (map slot_state (take a ?w)) + 1
       else count_filled (map slot_state (take a ?w)))"
    using a by (simp add: count_filled_def take_Suc_conv_app_nth del: nth_window)
  have "flush_slot (rb\<lparr>slots := ss\<rparr>, count_filled (map slot_state (take a ?w))) (b + of_nat a)
      = (rb\<lparr>slots := ?ss\<rparr>, count_filled (map slot_state (take (Suc a) ?w)))"
    unfolding cnt by (simp add: flush_slot_def at seq Let_def del: nth_window)
  with ss(1,2) w show ?case by (intro exI [of _ ?ss]) (simp del: nth_window)
qed

text \<open>Starting the window at a packet, from a ring with every slot empty.\<close>

lemma start_at_refines:
  assumes ok: "ring_ok rb" and empty: "\<forall>s \<in> set (slots rb). slot_state s = Empty"
  shows "reorder_inv (start_at rb seq data now) \<and> queue_of (start_at rb seq data now) = Some (seq, [Filled data now])"
proof -
  let ?w = "window (capacity rb) seq ((slots rb)[slot_index rb seq := filled_slot seq data now])"
  have w: "?w = (window (capacity rb) seq (slots rb))[0 := filled_slot seq data now]"
    using window_write [OF ok, of 0 seq] ring_okD(6) [OF ok] by simp
  have "slot_state (window (capacity rb) seq (slots rb) ! i) = Empty" if "i < capacity rb" for i
    using that empty by (simp add: ring_okD [OF ok])
  then have "shape seq 1 ?w"
    using ring_okD(6) [OF ok] unfolding w by (auto simp: shape_def filled_slot_def nth_list_update simp del: nth_window)
  moreover have "take 1 ?w = [filled_slot seq data now]"
    unfolding w using ring_okD(6) [OF ok] by (cases "window (capacity rb) seq (slots rb)") (auto dest: arg_cong [of _ _ length])
  ultimately show ?thesis
    using ok by (simp add: reorder_inv_def queue_of_def start_at_def entry_count_def ring_okD filled_slot_def)
qed

text \<open>The packets the reset counts are those of the queue.\<close>

lemma flushed_all:
  assumes ok: "ring_ok rb" and sh: "shape b n (window (capacity rb) b (slots rb))"
  shows "length (filter (is_filled \<circ> slot_state) (slots rb))
    = count_filled (map slot_state (take n (window (capacity rb) b (slots rb))))"
proof -
  let ?w = "window (capacity rb) b (slots rb)" and ?P = "is_filled \<circ> slot_state"
  have "mset (filter ?P (slots rb)) = mset (filter ?P ?w)"
    using window_all [of "capacity rb" "slots rb" b] ring_okD [OF ok] by (simp add: mset_filter)
  then have "length (filter ?P (slots rb)) = length (filter ?P ?w)" by (metis size_mset)
  also have "\<dots> = length (filter ?P (take n ?w)) + length (filter ?P (drop n ?w))"
    by (metis append_take_drop_id filter_append length_append)
  also have "filter ?P (drop n ?w) = []"
    using sh by (auto simp: filter_empty_conv in_set_conv_nth shape_def simp del: nth_window)
  finally show ?thesis by (simp add: count_filled_def filter_map comp_def)
qed

text \<open>
  The one case the code does not treat as the queue does: everything has been drained, so the
  highest number lies just below the base, and a packet arrives at least one but less than two
  rings ahead.
\<close>

definition idle_jump :: "ReorderBuffer \<Rightarrow> u16 \<Rightarrow> bool" where
  "idle_jump rb seq \<longleftrightarrow>
     (case queue_of rb of
        Some (b, es) \<Rightarrow> es = [] \<and> capacity rb \<le> unat (seq - b) \<and> unat (seq - b) < 2 * capacity rb - 1
      | None \<Rightarrow> False)"

text \<open>How the code measures a packet beyond the ring: the distance and the excess over the ring.\<close>

lemma beyond_ring:
  fixes seq b :: u16
  assumes ok: "ring_ok rb" and k: "k = unat (seq - b)" "capacity rb \<le> k" "k < 32768"
  shows "\<not> sint (seq - b) < 0" "unat (of_nat (capacity rb) - 1 :: u16) < nat (sint (seq - b))"
    "nat (sint (seq - b)) - unat (of_nat (capacity rb) - 1 :: u16) = k - (capacity rb - 1)"
proof -
  have cap: "64 \<le> capacity rb" "capacity rb \<le> 16384" using ring_okD [OF ok] by simp_all
  have "unat (of_nat (capacity rb) - 1 :: u16) = capacity rb - 1"
    using cap unat_of_nat_u16 [of "capacity rb - 1"] by (simp add: of_nat_diff)
  moreover have "\<not> sint (seq - b) < 0" "nat (sint (seq - b)) = k"
    using k sint_u16_nonneg [of "seq - b"] by auto
  ultimately show "\<not> sint (seq - b) < 0" "unat (of_nat (capacity rb) - 1 :: u16) < nat (sint (seq - b))"
    "nat (sint (seq - b)) - unat (of_nat (capacity rb) - 1 :: u16) = k - (capacity rb - 1)"
    using cap k(2) by simp_all
qed

lemma highest_offset:
  "\<lbrakk>0 < n; n \<le> 16384\<rbrakk> \<Longrightarrow> unat (b + of_nat n - 1 - b :: u16) = n - 1"
  using unat_of_nat_u16 [of "n - 1"] by (simp add: of_nat_diff algebra_simps)

text \<open>The ring of a running buffer, seen from its base: what the refinement proofs start with.\<close>

lemma running_window:
  assumes "reorder_inv rb" "base_seq rb = Some b"
  obtains n where "highest_seq rb = Some (b + of_nat n - 1)" "ring_ok rb"
    "n = entry_count b (b + of_nat n - 1)" "shape b n (window (capacity rb) b (slots rb))"
    "queue_of rb = Some (b, map slot_state (take n (window (capacity rb) b (slots rb))))" "n \<le> capacity rb"
proof -
  from assms obtain h where hi: "highest_seq rb = Some h"
    by (auto simp: reorder_inv_def split: option.splits)
  let ?n = "entry_count b h"
  have h: "b + of_nat ?n - 1 = h" by (rule highest_word [symmetric])
  show thesis
  proof (rule that [of ?n], unfold h)
    show sh: "shape b ?n (window (capacity rb) b (slots rb))" and "ring_ok rb"
      using assms hi by (auto simp: reorder_inv_def)
    show "queue_of rb = Some (b, map slot_state (take ?n (window (capacity rb) b (slots rb))))"
      using assms(2) hi by (simp add: queue_of_def)
    show "?n \<le> capacity rb" using sh by (simp add: shape_def)
  qed (use hi in simp_all)
qed

text \<open>The two ways room is made: the oldest entries leave, or the window restarts.\<close>

lemma partial_flush_refines:
  assumes ok: "ring_ok rb" and base: "base_seq rb = Some b" "highest_seq rb = Some (b + of_nat n - 1)"
    and sh: "shape b n (window (capacity rb) b (slots rb))"
    and k: "k = unat (seq - b)" "capacity rb \<le> k" "k < 32768" and a: "a = k - (capacity rb - 1)" "a < n"
    and r: "reorder_insert rb seq data now = (rb', outcome)"
  shows "reorder_inv rb' \<and> capacity rb' = capacity rb \<and> buffer_time rb' = buffer_time rb
    \<and> (queue_of rb', outcome) = q_insert (capacity rb)
        (Some (b, map slot_state (take n (window (capacity rb) b (slots rb))))) seq data now"
proof -
  let ?cap = "capacity rb" and ?w = "window (capacity rb) b (slots rb)"
  have n: "n \<le> ?cap" using sh by (simp add: shape_def)
  have cap: "64 \<le> ?cap" "?cap \<le> 16384" using ring_okD [OF ok] by simp_all
  note far = beyond_ring [OF ok k, folded a(1)]
  from flush_slots [OF ok _ sh, of a] a obtain ss where fl:
    "foldl flush_slot (rb, 0) (map (\<lambda>i. b + of_nat i) [0..<a])
      = (rb\<lparr>slots := ss\<rparr>, count_filled (map slot_state (take a ?w)))" "length ss = ?cap"
    "window ?cap b ss = replicate a empty_slot @ drop a ?w" by auto
  let ?o = "outcome_default\<lparr>overflow_flushed := count_filled (map slot_state (take a ?w))\<rparr>"
  let ?rb = "rb\<lparr>slots := ss, base_seq := Some (b + of_nat a)\<rparr>"
  have h: "(b + of_nat a) + of_nat (n - a) - 1 = b + of_nat n - 1" using a by (simp add: of_nat_diff)
  have "\<not> (?cap \<le> a \<or> unat (b + of_nat n - 1 - b) < a)"
    using a n cap highest_offset [of n b] by linarith
  then have r': "insert_in_window ?rb ?o seq data now ((b + of_nat a) + of_nat (n - a) - 1) = (rb', outcome)"
    unfolding h using r base far fl(1) by (simp add: reorder_insert_def Let_def)
  have w': "window ?cap (b + of_nat a) ss = drop a ?w @ replicate a empty_slot"
    using window_shift [of ?cap ss b a] fl ring_okD [OF ok] rotate_append [of "replicate a empty_slot" "drop a ?w"]
    by simp
  have sh': "shape (b + of_nat a) (n - a) (window ?cap (b + of_nat a) ss)"
    using sh n a unfolding w'
    by (auto simp: shape_def nth_append empty_slot_def add.assoc simp del: nth_window simp flip: of_nat_add)
  have es: "map slot_state (take (n - a) (window ?cap (b + of_nat a) ss)) = drop a (map slot_state (take n ?w))"
    unfolding w' using n a by (simp add: drop_take drop_map)
  have "seq = (b + of_nat a) + of_nat (?cap - 1)" using k cap a(1) by (simp add: of_nat_diff)
  from insert_in_window_refines [of ?rb "b + of_nat a" "n - a" "?cap - 1" seq ?o data now rb' outcome]
    this r' ok fl(2) base sh' a cap es h
  show ?thesis
    using k(2,3) n by (simp add: k(1) [symmetric] outcome_default_def of_nat_diff Let_def take_map)
qed

lemma restart_refines:
  assumes ok: "ring_ok rb" and base: "base_seq rb = Some b" "highest_seq rb = Some (b + of_nat n - 1)"
    and sh: "shape b n (window (capacity rb) b (slots rb))"
    and k: "k = unat (seq - b)" "capacity rb \<le> k" "k < 32768" and a: "a = k - (capacity rb - 1)" "n \<le> a"
    and no: "n = 0 \<Longrightarrow> capacity rb \<le> a" and r: "reorder_insert rb seq data now = (rb', outcome)"
  shows "reorder_inv rb' \<and> capacity rb' = capacity rb \<and> buffer_time rb' = buffer_time rb
    \<and> (queue_of rb', outcome) = q_insert (capacity rb)
        (Some (b, map slot_state (take n (window (capacity rb) b (slots rb))))) seq data now"
proof -
  let ?rb = "rb\<lparr>slots := map (\<lambda>_. empty_slot) (slots rb)\<rparr>"
  have n: "n \<le> capacity rb" "capacity rb \<le> 16384" using sh ring_okD [OF ok] by (simp_all add: shape_def)
  have "capacity rb \<le> a \<or> unat (b + of_nat n - 1 - b) < a"
    using no a(2) n highest_offset [of n b] by (cases "n = 0") auto
  then have rb': "rb' = start_at ?rb seq data now"
    "outcome = outcome_default\<lparr>overflow_flushed := length (filter (is_filled \<circ> slot_state) (slots rb))\<rparr>"
    using r base beyond_ring [OF ok k, folded a(1)] by (simp_all add: reorder_insert_def Let_def)
  have "ring_ok ?rb" "\<forall>s \<in> set (slots ?rb). slot_state s = Empty"
    using ok by (auto simp: ring_okD empty_slot_def)
  from start_at_refines [OF this, of seq data now] flushed_all [OF ok sh] show ?thesis
    using k a n by (simp add: rb' k(1) [symmetric] Let_def start_at_def)
qed

lemma insert_refines:
  assumes inv: "reorder_inv rb" and r: "reorder_insert rb seq data now = (rb', outcome)"
    and no: "\<not> idle_jump rb seq"
  shows "reorder_inv rb' \<and> capacity rb' = capacity rb \<and> buffer_time rb' = buffer_time rb
    \<and> (queue_of rb', outcome) = q_insert (capacity rb) (queue_of rb) seq data now"
proof (cases "base_seq rb")
  case None
  with inv have hi: "highest_seq rb = None" and ok: "ring_ok rb" "\<forall>s \<in> set (slots rb). slot_state s = Empty"
    by (auto simp: reorder_inv_def split: option.splits)
  with r None have "rb' = start_at rb seq data now" "outcome = outcome_default"
    by (simp_all add: reorder_insert_def)
  with start_at_refines [OF ok] None hi show ?thesis by (auto simp: queue_of_def start_at_def)
next
  case (Some b)
  from running_window [OF inv this] obtain n where hi: "highest_seq rb = Some (b + of_nat n - 1)"
    and ok: "ring_ok rb" and sh: "shape b n (window (capacity rb) b (slots rb))"
    and q: "queue_of rb = Some (b, map slot_state (take n (window (capacity rb) b (slots rb))))"
    and n: "n \<le> capacity rb" by metis
  define k where "k = unat (seq - b)"
  have cap: "64 \<le> capacity rb" "capacity rb \<le> 16384" using ring_okD [OF ok] by simp_all
  consider (stale) "32768 \<le> k" | (fits) "k < capacity rb" | (over) "capacity rb \<le> k" "k < 32768" by linarith
  then show ?thesis
  proof cases
    case stale
    then have "sint (seq - b) < 0" by (simp add: sint_u16_neg_iff k_def)
    with r Some hi have "rb' = rb" "outcome = outcome_default\<lparr>stale := True\<rparr>"
      by (simp_all add: reorder_insert_def)
    with stale q inv show ?thesis by (simp add: k_def)
  next
    case fits
    then have "\<not> sint (seq - b) < 0" "nat (sint (seq - b)) = k" "\<not> capacity rb - 1 < k"
      using cap sint_u16_nonneg [of "seq - b"] by (auto simp: k_def)
    moreover have "unat (of_nat (capacity rb) - 1 :: u16) = capacity rb - 1"
      using cap unat_of_nat_u16 [of "capacity rb - 1"] by (simp add: of_nat_diff)
    ultimately have "insert_in_window rb outcome_default seq data now (b + of_nat n - 1) = (rb', outcome)"
      using r Some hi by (simp add: reorder_insert_def Let_def)
    moreover have "seq = b + of_nat k" by (simp add: k_def)
    ultimately show ?thesis
      using insert_in_window_refines [OF ok hi Some sh fits, of seq outcome_default data now rb' outcome] q fits cap
      by (simp add: k_def [symmetric] outcome_default_def)
  next
    case over
    have "capacity rb \<le> k - (capacity rb - 1)" if "n = 0"
      using no over q cap that by (auto simp: idle_jump_def k_def [symmetric])
    then show ?thesis unfolding q
      using partial_flush_refines [OF ok Some hi sh k_def over refl _ r]
        restart_refines [OF ok Some hi sh k_def over refl _ _ r] by (metis not_less)
  qed
qed

section \<open>Draining refines the queue\<close>

lemma tl_rotate_update:
  "w \<noteq> [] \<Longrightarrow> rotate 1 (w[0 := s]) = tl w @ [s]"
  by (cases w) simp_all

text \<open>Taking the head off the window: its slot is emptied and the base moves on.\<close>

lemma pop_head:
  assumes ok: "ring_ok rb" and b: "base_seq rb = Some b" and h: "highest_seq rb = Some h"
    and n: "n = entry_count b h" "0 < n" and sh: "shape b n (window (capacity rb) b (slots rb))"
    and s: "slot_state s = Empty"
    and rb1: "rb1 = rb\<lparr>slots := (slots rb)[slot_index rb b := s], base_seq := Some (b + 1)\<rparr>"
  shows "reorder_inv rb1 \<and> capacity rb1 = capacity rb \<and> buffer_time rb1 = buffer_time rb
    \<and> queue_of rb1 = Some (b + 1, tl (map slot_state (take n (window (capacity rb) b (slots rb)))))"
proof -
  let ?cap = "capacity rb" and ?w = "window (capacity rb) b (slots rb)"
  have ok1: "ring_ok rb1" "capacity rb1 = ?cap" using ok by (simp_all add: rb1 ring_okD)
  have ne: "?w \<noteq> []" using ring_okD(6) [OF ok] by (auto dest: arg_cong [of _ _ length])
  have nc: "n \<le> ?cap" "?cap \<le> 16384" using sh ring_okD(4) [OF ok] by (simp_all add: shape_def)
  have "window ?cap b (slots rb1) = ?w[0 := s]"
    using window_write [OF ok, of 0 b s] ring_okD(6) [OF ok] by (simp add: rb1)
  then have w1: "window ?cap (b + 1) (slots rb1) = tl ?w @ [s]"
    using window_shift [of ?cap "slots rb1" b 1] ring_okD [OF ok1(1)] ok1(2) tl_rotate_update [OF ne] by simp
  have n1: "entry_count (b + 1) h = n - 1"
  proof -
    have "h + 1 - (b + 1) = (h + 1 - b) - 1" by simp
    also have "h + 1 - b = of_nat n" by (simp add: n(1) entry_count_def)
    also have "of_nat n - 1 = (of_nat (n - 1) :: u16)" using n(2) by (simp add: of_nat_diff)
    finally show ?thesis using nc unat_of_nat_u16 [of "n - 1"] by (simp add: entry_count_def)
  qed
  have "shape (b + 1) (n - 1) (tl ?w @ [s])"
    using sh n(2) s unfolding shape_def
    by (auto simp: nth_append nth_tl algebra_simps simp del: nth_window)
  moreover have "take (n - 1) (tl ?w @ [s]) = tl (take n ?w)"
    using n(2) nc by (simp add: tl_take)
  ultimately show ?thesis
    using ok ok1 h by (simp add: reorder_inv_def queue_of_def rb1 w1 [unfolded rb1, simplified] n1 map_tl)
qed

text \<open>One round of the loop on a well-formed buffer: at the end of the queue, or at its head.\<close>

lemma drain_end:
  assumes "base_seq rb = Some b" "highest_seq rb = Some h" "entry_count b h = 0"
  shows "drain_ready rb now = (rb, [])"
proof -
  have "b - h = 1" using highest_word [of h b] assms(3) by simp
  with assms show ?thesis by (simp add: drain_ready.simps [of rb])
qed

lemma drain_round:
  assumes b: "base_seq rb = Some b" and h: "highest_seq rb = Some h" and n: "0 < entry_count b h" "entry_count b h \<le> 16384"
    and slot: "slot = slots rb ! slot_index rb b" "slot_seq slot = b" "slot_state slot \<noteq> Empty"
  shows "drain_ready rb now =
    (if ripe (buffer_time rb) now (slot_state slot)
     then let (rb', out) = drain_ready (rb\<lparr>slots := (slots rb)[slot_index rb b := slot\<lparr>slot_state := Empty\<rparr>],
                                           base_seq := Some (b + 1)\<rparr>) now
          in (rb', drain_item b (slot_state slot) # out)
     else (rb, []))"
proof -
  have "\<not> 0 < sint (b - h)"
    using highest_distance(1) [of "entry_count b h" 0 b] n highest_word [of h b] by simp
  with b h slot show ?thesis
    by (cases "slot_state slot") (auto simp: drain_ready.simps [of rb] ripe_def Let_def)
qed

text \<open>One round on a window with entries: the head is delivered when it is ripe and kept otherwise.\<close>

lemma drain_step:
  assumes inv: "reorder_inv rb" and q: "queue_of rb = Some (b, e # es)"
  obtains (ripe) rb1 where "ripe (buffer_time rb) now e" "reorder_inv rb1" "capacity rb1 = capacity rb"
      "buffer_time rb1 = buffer_time rb" "queue_of rb1 = Some (b + 1, es)"
      "drain_distance rb1 < drain_distance rb"
      "drain_ready rb now = (fst (drain_ready rb1 now), drain_item b e # snd (drain_ready rb1 now))"
    | (wait) "\<not> ripe (buffer_time rb) now e" "drain_ready rb now = (rb, [])"
proof -
  have base: "base_seq rb = Some b" using q by (auto simp: queue_of_def split: option.splits)
  from running_window [OF inv base] obtain n where hi: "highest_seq rb = Some (b + of_nat n - 1)"
    and ok: "ring_ok rb" and n: "n = entry_count b (b + of_nat n - 1)"
    and sh: "shape b n (window (capacity rb) b (slots rb))"
    and q': "queue_of rb = Some (b, map slot_state (take n (window (capacity rb) b (slots rb))))"
    and n': "n \<le> capacity rb" by metis
  let ?w = "window (capacity rb) b (slots rb)" and ?slot = "slots rb ! slot_index rb b"
  have es: "map slot_state (take n ?w) = e # es" using q q' by simp
  then have n0: "0 < n" by (cases n) auto
  have at: "?slot = ?w ! 0" using slot_at_offset [OF ok, of 0 b] ring_okD(6) [OF ok] by simp
  have slot: "slot_seq ?slot = b" "slot_state ?slot \<noteq> Empty"
    using sh n0 unfolding at by (simp_all add: shape_def del: nth_window)
  have e: "slot_state ?slot = e"
    using arg_cong [OF es, of hd] n0 n' unfolding at by (cases ?w) (auto simp: take_Cons' simp del: nth_window dest: arg_cong [of _ _ length])
  define rb1 where "rb1 = rb\<lparr>slots := (slots rb)[slot_index rb b := ?slot\<lparr>slot_state := Empty\<rparr>],
                             base_seq := Some (b + 1)\<rparr>"
  note rnd = drain_round [OF base hi _ _ refl slot, of now, folded rb1_def, folded n]
  have "n \<le> 16384" using n' ring_okD(4) [OF ok] by simp
  show thesis
  proof (cases "ripe (buffer_time rb) now e")
    case True
    have p: "reorder_inv rb1" "capacity rb1 = capacity rb" "buffer_time rb1 = buffer_time rb"
      "queue_of rb1 = Some (b + 1, es)"
      using pop_head [OF ok base hi n n0 sh _ rb1_def] es by auto
    have "\<not> 0 < sint (b - (b + of_nat n - 1))"
      using highest_distance(1) [of n 0 b] n0 \<open>n \<le> 16384\<close> by simp
    from drain_distance_less [OF base [symmetric] hi [symmetric] this]
    have "drain_distance rb1 < drain_distance rb" by (simp add: rb1_def)
    with True p rnd n0 \<open>n \<le> 16384\<close> e show ?thesis by (intro ripe) (auto simp: split_beta)
  next
    case False
    with rnd n0 \<open>n \<le> 16384\<close> e show ?thesis by (intro wait) auto
  qed
qed

lemma drain_idle:
  assumes "reorder_inv rb" "queue_of rb = Some (b, [])"
  shows "drain_ready rb now = (rb, [])"
proof -
  have base: "base_seq rb = Some b" using assms(2) by (auto simp: queue_of_def split: option.splits)
  from running_window [OF assms(1) this] obtain n where hi: "highest_seq rb = Some (b + of_nat n - 1)"
    and ok: "ring_ok rb" and n: "n = entry_count b (b + of_nat n - 1)"
    and q: "queue_of rb = Some (b, map slot_state (take n (window (capacity rb) b (slots rb))))" by metis
  have "n = 0" using q assms(2) ring_okD(6) [OF ok] by (auto dest: arg_cong [of _ _ length])
  with drain_end [OF base hi] n show ?thesis by simp
qed

lemma drain_refines:
  assumes "reorder_inv rb" "drain_ready rb now = (rb', out)"
  shows "reorder_inv rb' \<and> capacity rb' = capacity rb \<and> buffer_time rb' = buffer_time rb
    \<and> (queue_of rb', out) = q_drain (buffer_time rb) (queue_of rb) now"
  using assms
proof (induction "drain_distance rb" arbitrary: rb rb' out rule: less_induct)
  case less
  consider (unset) "queue_of rb = None" | (empty) b where "queue_of rb = Some (b, [])"
    | (entry) b e es where "queue_of rb = Some (b, e # es)" by (metis not_None_eq prod.exhaust list.exhaust)
  then show ?case
  proof cases
    case unset
    then have "base_seq rb = None"
      using less.prems(1) by (auto simp: reorder_inv_def queue_of_def split: option.splits)
    with less.prems unset show ?thesis by (auto simp: drain_ready.simps [of rb])
  next
    case (empty b)
    with less.prems drain_idle [of rb b now] show ?thesis by simp
  next
    case (entry b e es)
    from less.prems(1) this show ?thesis
    proof (cases rule: drain_step [where now = now])
      case (ripe rb1)
      from less.hyps [OF ripe(6,2) surjective_pairing] ripe less.prems(2) entry show ?thesis
        by (simp add: Let_def add.assoc split: prod.splits)
    next
      case wait
      with less.prems entry show ?thesis by simp
    qed
  qed
qed

text \<open>The head of the queue, as the slot the base points to.\<close>

lemma head_slot:
  assumes "reorder_inv rb" "queue_of rb = Some (b, e # es)"
  shows "base_seq rb = Some b \<and> slot_seq (slots rb ! slot_index rb b) = b
    \<and> slot_state (slots rb ! slot_index rb b) = e \<and> e \<noteq> Empty"
proof -
  obtain h where bh: "base_seq rb = Some b" "highest_seq rb = Some h"
    using assms by (auto simp: queue_of_def reorder_inv_def split: option.splits)
  let ?w = "window (capacity rb) b (slots rb)" and ?n = "entry_count b h"
  have ok: "ring_ok rb" and sh: "shape b ?n ?w" and es: "map slot_state (take ?n ?w) = e # es"
    using assms bh by (auto simp: reorder_inv_def queue_of_def)
  have n: "0 < ?n" using es by (cases ?n) auto
  have "slots rb ! slot_index rb b = ?w ! 0"
    using slot_at_offset [OF ok, of 0 b] ring_okD(6) [OF ok] by simp
  moreover have "slot_state (?w ! 0) = e"
    using arg_cong [OF es, of "\<lambda>xs. xs ! 0"] n ring_okD(6) [OF ok] by (simp del: nth_window)
  ultimately show ?thesis using sh n bh by (auto simp: shape_def simp del: nth_window)
qed

section \<open>What a jitter buffer promises over a run\<close>

datatype ReorderOp = Ins u16 bytes instant | Drain instant

text \<open>
  The log of a run: the entries of all numbers from the first packet on, and how many of them
  have left the queue. Insertion writes the log behind that point, draining moves the point.
\<close>

type_synonym log = "SlotState list \<times> nat"

definition log_ins :: "u16 \<Rightarrow> log \<Rightarrow> u16 \<Rightarrow> bytes \<Rightarrow> instant \<Rightarrow> log" where
  "log_ins b l seq data now =
     (case l of (es, p) \<Rightarrow>
        let k = unat (seq - (b + of_nat p)); j = p + k
        in if k \<ge> 32768 then (es, p)
           else if j < length es then (if is_filled (es ! j) then (es, p) else (es[j := Filled data now], p))
           else (es @ replicate (j - length es) (Gap now) @ [Filled data now], p))"

definition log_drain :: "duration \<Rightarrow> log \<Rightarrow> instant \<Rightarrow> log" where
  "log_drain hold l now = (case l of (es, p) \<Rightarrow> (es, p + length (takeWhile (ripe hold now) (drop p es))))"

fun log_op :: "duration \<Rightarrow> u16 \<Rightarrow> log \<Rightarrow> ReorderOp \<Rightarrow> log" where
  "log_op hold b l (Ins seq data now) = log_ins b l seq data now"
| "log_op hold b l (Drain now) = log_drain hold l now"

definition log_wf :: "log \<Rightarrow> bool" where
  "log_wf l \<longleftrightarrow> snd l \<le> length (fst l)"

definition log_queue :: "u16 \<Rightarrow> log \<Rightarrow> queue" where
  "log_queue b l = Some (b + of_nat (snd l), drop (snd l) (fst l))"

definition log_items :: "u16 \<Rightarrow> log \<Rightarrow> DrainItem list" where
  "log_items b l = q_items b (take (snd l) (fst l))"

text \<open>A packet that is stale or within the ring does not overflow the buffer.\<close>

fun op_fits :: "nat \<Rightarrow> queue \<Rightarrow> ReorderOp \<Rightarrow> bool" where
  "op_fits cap (Some (b, es)) (Ins seq data now) \<longleftrightarrow> unat (seq - b) < cap \<or> 32768 \<le> unat (seq - b)"
| "op_fits cap q x \<longleftrightarrow> True"

lemma q_items_append: "q_items b (xs @ ys) = q_items b xs @ q_items (b + of_nat (length xs)) ys"
  by (induction xs arbitrary: b) (simp_all add: add.assoc)

lemma length_q_items [simp]: "length (q_items b es) = length es"
  by (induction es arbitrary: b) simp_all

lemma nth_q_items: "j < length es \<Longrightarrow> q_items b es ! j = drain_item (b + of_nat j) (es ! j)"
proof (induction es arbitrary: b j)
  case (Cons e es)
  then show ?case by (cases j) (simp_all add: add.assoc)
qed simp

lemma log_wf_op: "log_wf l \<Longrightarrow> log_wf (log_op hold b l x)"
proof (cases x)
  case (Drain now)
  assume "log_wf l"
  then have "snd l + length (takeWhile (ripe hold now) (drop (snd l) (fst l))) \<le> length (fst l)"
    using length_takeWhile_le [of "ripe hold now" "drop (snd l) (fst l)"] by (simp add: log_wf_def)
  with Drain show ?thesis by (simp add: log_wf_def log_drain_def split_beta)
qed (auto simp: log_wf_def log_ins_def Let_def split_beta)

text \<open>Insertion into the queue is insertion into the log.\<close>

lemma q_insert_log:
  assumes "log_wf l" "op_fits cap (log_queue b l) (Ins seq data now)" "cap \<le> 32768"
  shows "fst (q_insert cap (log_queue b l) seq data now) = log_queue b (log_ins b l seq data now)"
    and "log_items b (log_ins b l seq data now) = log_items b l"
proof -
  obtain es p where l: "l = (es, p)" by (cases l)
  let ?k = "unat (seq - (b + of_nat p))"
  have p: "p \<le> length es" using assms(1) by (simp add: log_wf_def l)
  consider "32768 \<le> ?k" | "?k < 32768" "?k < cap" "p + ?k < length es" "?k < length es - p"
    | "?k < 32768" "?k < cap" "\<not> p + ?k < length es" "\<not> ?k < length es - p"
    using assms(2) p by (auto simp: l log_queue_def) linarith
  then show "fst (q_insert cap (log_queue b l) seq data now) = log_queue b (log_ins b l seq data now)"
  proof cases
    case 2
    with p show ?thesis by (simp add: l log_queue_def log_ins_def Let_def drop_update_swap)
  qed (use p in \<open>simp_all add: l log_queue_def log_ins_def Let_def\<close>)
  show "log_items b (log_ins b l seq data now) = log_items b l"
    using p by (auto simp: l log_items_def log_ins_def Let_def)
qed

lemma q_drain_log:
  assumes "log_wf l"
  shows "fst (q_drain hold (log_queue b l) now) = log_queue b (log_drain hold l now)"
    and "log_items b (log_drain hold l now) = log_items b l @ snd (q_drain hold (log_queue b l) now)"
proof -
  obtain es p where l: "l = (es, p)" by (cases l)
  let ?out = "takeWhile (ripe hold now) (drop p es)"
  have p: "p \<le> length es" using assms(1) by (simp add: log_wf_def l)
  show "fst (q_drain hold (log_queue b l) now) = log_queue b (log_drain hold l now)"
    by (simp add: l log_queue_def log_drain_def Let_def add.commute add.assoc)
  have "take (length ?out) (drop p es) = ?out" by (metis takeWhile_eq_take)
  then have "take (p + length ?out) es = take p es @ ?out" by (simp add: take_add)
  then show "log_items b (log_drain hold l now) = log_items b l @ snd (q_drain hold (log_queue b l) now)"
    using p by (simp add: l log_items_def log_drain_def log_queue_def Let_def q_items_append)
qed

text \<open>The entries of the log come from the packets of the run, and a packet stays where it is.\<close>

fun log_entry_from :: "ReorderOp set \<Rightarrow> u16 \<Rightarrow> SlotState \<Rightarrow> bool" where
  "log_entry_from xs seq (Filled data t) \<longleftrightarrow> Ins seq data t \<in> xs"
| "log_entry_from xs seq (Gap t) \<longleftrightarrow> (\<exists>q data. Ins q data t \<in> xs)"
| "log_entry_from xs seq Empty \<longleftrightarrow> False"

definition log_from :: "ReorderOp set \<Rightarrow> u16 \<Rightarrow> log \<Rightarrow> bool" where
  "log_from xs b l \<longleftrightarrow> (\<forall>j < length (fst l). log_entry_from xs (b + of_nat j) (fst l ! j))"

lemma log_entry_from_mono: "log_entry_from xs seq e \<Longrightarrow> xs \<subseteq> ys \<Longrightarrow> log_entry_from ys seq e"
  by (cases e) auto

lemma log_from_op:
  assumes "log_from xs b l"
  shows "log_from (Set.insert x xs) b (log_op hold b l x)"
proof -
  obtain es p where l: "l = (es, p)" by (cases l)
  have old: "log_entry_from (Set.insert x xs) (b + of_nat j) (es ! j)" if "j < length es" for j
    using assms that log_entry_from_mono [of xs _ "es ! j" "Set.insert x xs"] by (auto simp: log_from_def l)
  show ?thesis
  proof (cases x)
    case (Ins seq data now)
    have "b + of_nat (p + unat (seq - (b + of_nat p))) = seq" by simp
    with old show ?thesis
      by (auto simp: Ins l log_from_def log_ins_def Let_def nth_list_update nth_append nth_Cons' less_Suc_eq)
  qed (use old in \<open>auto simp: l log_from_def log_drain_def\<close>)
qed

lemma log_from_run: "log_from xs b l \<Longrightarrow> log_from (xs \<union> set ops) b (foldl (log_op hold b) l ops)"
proof (induction ops arbitrary: xs l)
  case (Cons x ops)
  from Cons.IH [OF log_from_op [OF Cons.prems, of x hold]] show ?case by (simp add: Un_commute)
qed simp

lemma log_keeps:
  "j < length (fst l) \<Longrightarrow> fst l ! j = Filled data t \<Longrightarrow>
    j < length (fst (foldl (log_op hold b) l ops)) \<and> fst (foldl (log_op hold b) l ops) ! j = Filled data t"
proof (induction ops arbitrary: l)
  case (Cons x ops)
  have "j < length (fst (log_op hold b l x)) \<and> fst (log_op hold b l x) ! j = Filled data t"
    using Cons.prems
    by (cases x; cases l) (auto simp: log_ins_def log_drain_def Let_def nth_append nth_list_update)
  with Cons.IH show ?case by simp
qed simp

locale jitter_buffer =
  fixes ins :: "'s \<Rightarrow> u16 \<Rightarrow> bytes \<Rightarrow> instant \<Rightarrow> 's \<times> InsertOutcome"
    and drain :: "'s \<Rightarrow> instant \<Rightarrow> 's \<times> DrainItem list"
    and que :: "'s \<Rightarrow> queue"
    and cap :: "'s \<Rightarrow> nat"
    and hold :: "'s \<Rightarrow> duration"
    and inv :: "'s \<Rightarrow> bool"
  assumes cap_bound: "inv s \<Longrightarrow> cap s \<le> 32768"
    and ins_law: "inv s \<Longrightarrow> op_fits (cap s) (que s) (Ins seq data now) \<Longrightarrow>
      ins s seq data now = (s', outcome) \<Longrightarrow>
      inv s' \<and> cap s' = cap s \<and> hold s' = hold s \<and> (que s', outcome) = q_insert (cap s) (que s) seq data now"
    and drain_law: "inv s \<Longrightarrow> drain s now = (s', items) \<Longrightarrow>
      inv s' \<and> cap s' = cap s \<and> hold s' = hold s \<and> (que s', items) = q_drain (hold s) (que s) now"
begin

fun step :: "'s \<Rightarrow> ReorderOp \<Rightarrow> 's \<times> DrainItem list" where
  "step s (Ins seq data now) = (fst (ins s seq data now), [])"
| "step s (Drain now) = drain s now"

fun run :: "'s \<Rightarrow> ReorderOp list \<Rightarrow> 's \<times> DrainItem list" where
  "run s [] = (s, [])"
| "run s (x # xs) = (let (s1, o1) = step s x; (s2, o2) = run s1 xs in (s2, o1 @ o2))"

fun fits :: "'s \<Rightarrow> ReorderOp list \<Rightarrow> bool" where
  "fits s [] \<longleftrightarrow> True"
| "fits s (x # xs) \<longleftrightarrow> op_fits (cap s) (que s) x \<and> fits (fst (step s x)) xs"

lemma step_log:
  assumes "inv s" "que s = log_queue b l" "log_wf l" "op_fits (cap s) (que s) x" "step s x = (s', items)"
  shows "inv s' \<and> cap s' = cap s \<and> hold s' = hold s \<and> que s' = log_queue b (log_op (hold s) b l x)
    \<and> log_items b (log_op (hold s) b l x) = log_items b l @ items"
proof (cases x)
  case (Ins seq data now)
  obtain s1 outcome where i: "ins s seq data now = (s1, outcome)" by fastforce
  have k: "inv s1" "cap s1 = cap s" "hold s1 = hold s"
    "(que s1, outcome) = q_insert (cap s) (que s) seq data now"
    using ins_law [OF assms(1) _ i] assms(4) Ins by auto
  have q: "que s1 = fst (q_insert (cap s) (que s) seq data now)" using k(4) by (metis fst_conv)
  have r: "s' = s1" "items = []" using assms(5) i Ins by simp_all
  have fits: "op_fits (cap s) (log_queue b l) (Ins seq data now)" using assms(2,4) Ins by simp
  from q_insert_log [OF assms(3) fits cap_bound [OF assms(1)]] q r k assms(2) Ins show ?thesis by simp
next
  case (Drain now)
  with assms(5) have "drain s now = (s', items)" by simp
  from drain_law [OF assms(1) this] q_drain_log [OF assms(3), where hold = "hold s" and b = b and now = now] assms(2) Drain show ?thesis
    by (metis fst_conv log_op.simps(2) snd_conv)
qed

lemma run_log:
  "inv s \<Longrightarrow> que s = log_queue b l \<Longrightarrow> log_wf l \<Longrightarrow> fits s xs \<Longrightarrow> run s xs = (s', items) \<Longrightarrow>
    inv s' \<and> hold s' = hold s \<and> que s' = log_queue b (foldl (log_op (hold s) b) l xs)
    \<and> log_wf (foldl (log_op (hold s) b) l xs)
    \<and> log_items b (foldl (log_op (hold s) b) l xs) = log_items b l @ items"
proof (induction xs arbitrary: s l items)
  case (Cons x xs)
  obtain s1 o1 where st: "step s x = (s1, o1)" by fastforce
  obtain o2 where rn: "run s1 xs = (s', o2)" "items = o1 @ o2"
    using Cons.prems(5) st by (auto split: prod.splits)
  have one: "inv s1" "hold s1 = hold s" "que s1 = log_queue b (log_op (hold s) b l x)"
    "log_items b (log_op (hold s) b l x) = log_items b l @ o1"
    using step_log [OF Cons.prems(1-3) _ st] Cons.prems(4) by auto
  have "fits s1 xs" using Cons.prems(4) st by simp
  from Cons.IH [OF one(1,3) log_wf_op [OF Cons.prems(3)] this rn(1)] one rn show ?case by simp
qed simp

end

lemma fits_no_idle_jump:
  assumes "reorder_inv rb" "op_fits (capacity rb) (queue_of rb) (Ins seq data now)"
  shows "\<not> idle_jump rb seq"
  using assms ring_okD(4) [of rb]
  by (auto simp: idle_jump_def reorder_inv_def split: option.splits)

interpretation rb: jitter_buffer reorder_insert drain_ready queue_of capacity buffer_time reorder_inv
proof unfold_locales
  fix s seq data now s' outcome items
  assume inv: "reorder_inv s"
  show "capacity s \<le> 32768" using inv ring_okD(4) [of s] by (auto simp: reorder_inv_def)
  show "reorder_inv s' \<and> capacity s' = capacity s \<and> buffer_time s' = buffer_time s
      \<and> (queue_of s', outcome) = q_insert (capacity s) (queue_of s) seq data now"
    if "op_fits (capacity s) (queue_of s) (Ins seq data now)" "reorder_insert s seq data now = (s', outcome)"
    using insert_refines [OF inv that(2) fits_no_idle_jump [OF inv that(1)]] .
  show "reorder_inv s' \<and> capacity s' = capacity s \<and> buffer_time s' = buffer_time s
      \<and> (queue_of s', items) = q_drain (buffer_time s) (queue_of s) now"
    if "drain_ready s now = (s', items)"
    using drain_refines [OF inv that] .
qed

section \<open>The buffer over a run\<close>

text \<open>A run of the buffer, with the items the drains produce and the conditions on its packets.\<close>

fun reorder_step :: "ReorderBuffer \<Rightarrow> ReorderOp \<Rightarrow> ReorderBuffer \<times> DrainItem list" where
  "reorder_step s (Ins seq data now) = (fst (reorder_insert s seq data now), [])"
| "reorder_step s (Drain now) = drain_ready s now"

fun reorder_run :: "ReorderBuffer \<Rightarrow> ReorderOp list \<Rightarrow> ReorderBuffer \<times> DrainItem list" where
  "reorder_run s [] = (s, [])"
| "reorder_run s (x # xs) =
     (let (s1, o1) = reorder_step s x; (s2, o2) = reorder_run s1 xs in (s2, o1 @ o2))"

fun run_fits :: "ReorderBuffer \<Rightarrow> ReorderOp list \<Rightarrow> bool" where
  "run_fits s [] \<longleftrightarrow> True"
| "run_fits s (x # xs) \<longleftrightarrow> op_fits (capacity s) (queue_of s) x \<and> run_fits (fst (reorder_step s x)) xs"

lemma rb_step: "rb.step = reorder_step"
proof (intro ext)
  show "rb.step s x = reorder_step s x" for s x by (cases x) (simp_all add: rb.step.simps)
qed

lemma rb_run: "rb.run s xs = reorder_run s xs" "rb.fits s xs = run_fits s xs"
  by (induction xs arbitrary: s) (simp_all add: rb.run.simps rb.fits.simps rb_step)

lemma reorder_run_append:
  "reorder_run s (xs @ ys) =
    (let (s1, o1) = reorder_run s xs; (s2, o2) = reorder_run s1 ys in (s2, o1 @ o2))"
  by (induction xs arbitrary: s) (simp_all add: split_beta Let_def)

lemma run_fits_append: "run_fits s (xs @ ys) \<longleftrightarrow> run_fits s xs \<and> run_fits (fst (reorder_run s xs)) ys"
  by (induction xs arbitrary: s) (simp_all add: split_beta Let_def)

lemma with_capacity_inv:
  assumes "requested \<le> 16384"
  shows "reorder_inv (with_capacity hold requested) \<and> queue_of (with_capacity hold requested) = None"
proof -
  have pow: "is_pow2 64" unfolding is_pow2_def by (rule exI [of _ 6]) simp
  have "next_power_of_two requested \<le> 2 ^ 14"
    using assms by (intro next_power_of_two_le_pow) simp
  moreover have "is_pow2 (max (next_power_of_two requested) 64)"
    using pow by (simp add: max_def)
  ultimately show ?thesis
    by (simp add: with_capacity_def Let_def reorder_inv_def ring_ok_def queue_of_def empty_slot_def)
qed

lemma with_capacity_hold: "buffer_time (with_capacity hold c) = hold"
  by (simp add: with_capacity_def Let_def)

text \<open>The buffer of the receiver has the default capacity and starts well-formed and empty.\<close>

lemma reorder_new_inv: "reorder_inv (reorder_new hold)" "queue_of (reorder_new hold) = None"
  using with_capacity_inv [of 8192 hold] by (simp_all add: reorder_new_def)

text \<open>The log of a run of a new buffer, from its first packet on.\<close>

definition run_log :: "duration \<Rightarrow> u16 \<Rightarrow> bytes \<Rightarrow> instant \<Rightarrow> ReorderOp list \<Rightarrow> log" where
  "run_log hold b d0 t0 ops = foldl (log_op hold b) ([Filled d0 t0], 0) ops"

lemma new_run_log:
  assumes c: "c \<le> 16384" and fits: "run_fits (with_capacity hold c) (Ins b d0 t0 # ops)"
    and run: "reorder_run (with_capacity hold c) (Ins b d0 t0 # ops) = (s, items)"
  shows "reorder_inv s \<and> buffer_time s = hold \<and> queue_of s = log_queue b (run_log hold b d0 t0 ops)
    \<and> log_wf (run_log hold b d0 t0 ops) \<and> log_items b (run_log hold b d0 t0 ops) = items
    \<and> log_from (set (Ins b d0 t0 # ops)) b (run_log hold b d0 t0 ops)"
proof -
  obtain s1 outcome where i: "reorder_insert (with_capacity hold c) b d0 t0 = (s1, outcome)" by fastforce
  have s1: "reorder_inv s1" "buffer_time s1 = hold" "queue_of s1 = Some (b, [Filled d0 t0])"
    using rb.ins_law [OF _ _ i] with_capacity_inv [OF c, of hold] by (simp_all add: with_capacity_hold)
  let ?l = "([Filled d0 t0], 0) :: log"
  have q: "queue_of s1 = log_queue b ?l" "log_wf ?l" "log_items b ?l = []"
    using s1 by (simp_all add: log_queue_def log_wf_def log_items_def)
  have "rb.run s1 ops = (s, items)" "rb.fits s1 ops"
    using fits run i by (simp_all add: rb_run split_beta)
  note rn = rb.run_log [OF s1(1) q(1,2) this(2,1)]
  have "log_from {Ins b d0 t0} b ?l" by (simp add: log_from_def)
  from log_from_run [OF this, of ops hold] rn q(3) s1(2) show ?thesis
    by (simp add: run_log_def)
qed

lemma drained_items_in_order:
  assumes "c \<le> 16384" and "run_fits (with_capacity hold c) (Ins b d0 t0 # ops)"
    and "reorder_run (with_capacity hold c) (Ins b d0 t0 # ops) = (s, items)"
    and "j < length items"
  shows "items ! j = Lost \<or>
    (\<exists>d t. items ! j = Delivered d (b + of_nat j) t \<and> Ins (b + of_nat j) d t \<in> set (Ins b d0 t0 # ops))"
proof -
  obtain es p where l: "run_log hold b d0 t0 ops = (es, p)" by fastforce
  note r = new_run_log [OF assms(1-3), unfolded l]
  have items: "items = q_items b (take p es)" "p \<le> length es" using r by (simp_all add: log_items_def log_wf_def)
  then have j: "j < length es" "items ! j = drain_item (b + of_nat j) (es ! j)"
    using assms(4) by (simp_all add: nth_q_items)
  have "log_entry_from (set (Ins b d0 t0 # ops)) (b + of_nat j) (es ! j)"
    using r j(1) by (simp add: log_from_def)
  with j(2) show ?thesis by (cases "es ! j") auto
qed

text \<open>
  C19: In-order delivery. Over any run of a new buffer of up to 16384 slots in which no packet overflows the ring, the
  items drained are, one for each sequence number from the first packet's on and in that order
  across the wrap-around, either a loss or a packet inserted under exactly that number with its
  bytes and its arrival time. So nothing is delivered twice, out of order or altered.
\<close>

theorem reorder_delivers_in_order:
  assumes "c \<le> 16384" and "run_fits (with_capacity hold c) (Ins b d0 t0 # ops)"
    and "reorder_run (with_capacity hold c) (Ins b d0 t0 # ops) = (s, items)"
    and "j < length items"
  shows "items ! j = Lost \<or>
    (\<exists>d t. items ! j = Delivered d (b + of_nat j) t \<and> Ins (b + of_nat j) d t \<in> set (Ins b d0 t0 # ops))"
  using assms by (rule drained_items_in_order)

theorem reorder_delivers_in_order_witness:
  "\<exists>s items. reorder_run (with_capacity 50 64) [Ins 5 [1] 0, Ins 7 [3] 5, Ins 6 [2] 9, Drain 100] = (s, items)
     \<and> length items = 3
     \<and> (items ! 1 = Lost \<or> (\<exists>d t. items ! 1 = Delivered d 6 t
          \<and> Ins 6 d t \<in> set [Ins 5 [1] 0, Ins 7 [3] 5, Ins 6 [2] 9, Drain 100]))"
proof -
  let ?ops = "[Ins 5 [1] 0, Ins 7 [3] 5, Ins 6 [2] 9, Drain 100]"
  obtain s items where r: "reorder_run (with_capacity 50 64) ?ops = (s, items)" by fastforce
  have "length (snd (reorder_run (with_capacity 50 64) ?ops)) = 3" by code_simp
  then have len: "length items = 3" using r by simp
  have "run_fits (with_capacity 50 64) ?ops" by code_simp
  from reorder_delivers_in_order [OF _ this r, of 1] len r show ?thesis by simp
qed

lemma queue_within_ring: "reorder_inv rb \<Longrightarrow> queue_of rb = Some (b, es) \<Longrightarrow> length es \<le> 16384"
  by (auto simp: reorder_inv_def queue_of_def min_def dest: ring_okD(4) split: option.splits)

lemma log_within_ring:
  assumes "c \<le> 16384" "run_fits (with_capacity hold c) (Ins b d0 t0 # ops)" "run_log hold b d0 t0 ops = (es, p)"
  shows "p \<le> length es" "length es \<le> p + 16384"
proof -
  obtain s items where run: "reorder_run (with_capacity hold c) (Ins b d0 t0 # ops) = (s, items)" by fastforce
  note r = new_run_log [OF assms(1,2) run, unfolded assms(3)]
  show "p \<le> length es" using r by (simp add: log_wf_def)
  have "length (drop p es) \<le> 16384" using r by (intro queue_within_ring [of s]) (simp_all add: log_queue_def)
  then show "length es \<le> p + 16384" by simp
qed

text \<open>Up to a given place nothing is held beyond a given time.\<close>

definition held_until :: "nat \<Rightarrow> instant \<Rightarrow> log \<Rightarrow> bool" where
  "held_until j u l \<longleftrightarrow> j < length (fst l) \<and> (\<forall>i \<le> j. held_since (fst l ! i) \<le> u)"

lemma u16_behind:
  assumes "x + of_nat n = (0 :: u16)" "n \<le> 16384" "0 < n"
  shows "\<not> unat x < 32768"
proof
  assume "unat x < 32768"
  with assms(2) have "unat (x + of_nat n) = unat x + n" by (simp add: unat_word_ariths unat_of_nat)
  with assms(1,3) show False by simp
qed

text \<open>An arrival changes that only when its number lies before the place.\<close>

lemma held_until_ins:
  assumes "held_until j u (es, p)" "p \<le> length es" "length es \<le> p + 16384" "is_filled (es ! j)"
    and "t \<le> u \<or> unat (q - (b + of_nat j)) < 32768"
  shows "held_until j u (log_ins b (es, p) q d t)"
proof -
  let ?k = "unat (q - (b + of_nat p))"
  have "held_since ((es[p + ?k := Filled d t]) ! i) \<le> u"
    if i: "i \<le> j" "?k < 32768" "p + ?k < length es" "\<not> is_filled (es ! (p + ?k))" for i
  proof (cases "i = p + ?k")
    case False
    with i assms(1) show ?thesis by (simp add: held_until_def)
  next
    case True
    have "p + ?k \<noteq> j" using i(4) assms(4) by auto
    with i(1) True have lt: "p + ?k < j" by simp
    have "q = b + of_nat (p + ?k)" by simp
    then have "q - (b + of_nat j) + of_nat (j - (p + ?k)) = 0"
      using lt by (simp add: of_nat_diff algebra_simps del: of_nat_add)
    moreover have "j < p + 16385" using assms(1,3) by (simp add: held_until_def)
    then have "j - (p + ?k) \<le> 16384" "0 < j - (p + ?k)" using lt by linarith+
    ultimately have "\<not> unat (q - (b + of_nat j)) < 32768" by (rule u16_behind)
    with assms(5) have "t \<le> u" by blast
    with True i assms(1) show ?thesis by (simp add: held_until_def)
  qed
  with assms(1) show ?thesis
    by (auto simp: held_until_def log_ins_def Let_def nth_append)
qed

lemma held_until_run:
  assumes c: "c \<le> 16384" and fits: "run_fits (with_capacity hold c) (Ins b d0 t0 # pre @ post)"
    and start: "held_until j u (run_log hold b d0 t0 pre)" "fst (run_log hold b d0 t0 pre) ! j = Filled d t"
    and late: "\<forall>q e v. Ins q e v \<in> set post \<longrightarrow> v \<le> u \<or> unat (q - (b + of_nat j)) < 32768"
  shows "held_until j u (run_log hold b d0 t0 (pre @ post)) \<and> fst (run_log hold b d0 t0 (pre @ post)) ! j = Filled d t"
  using fits late
proof (induction post rule: rev_induct)
  case (snoc x post)
  obtain es p where l: "run_log hold b d0 t0 (pre @ post) = (es, p)" by fastforce
  have fits1: "run_fits (with_capacity hold c) (Ins b d0 t0 # pre @ post)"
    using snoc.prems(1) run_fits_append [of "with_capacity hold c" "Ins b d0 t0 # pre @ post" "[x]"] by simp
  then have IH: "held_until j u (es, p)" "es ! j = Filled d t" using snoc.IH snoc.prems(2) l by auto
  have snocx: "run_log hold b d0 t0 (pre @ post @ [x]) = log_op hold b (es, p) x"
    using l by (simp add: run_log_def)
  have kept: "fst (log_op hold b (es, p) x) ! j = Filled d t"
    using log_keeps [of j "(es, p)" d t hold b "[x]"] IH by (simp add: held_until_def)
  show ?case
  proof (cases x)
    case (Ins q e v)
    then have "v \<le> u \<or> unat (q - (b + of_nat j)) < 32768" using snoc.prems(2) by (metis in_set_conv_decomp)
    with held_until_ins [OF IH(1) log_within_ring [OF c fits1 l]] IH(2) kept snocx Ins show ?thesis by simp
  next
    case (Drain T)
    with IH kept snocx show ?thesis by (simp add: held_until_def log_drain_def)
  qed
qed (use start in simp)

text \<open>An accepted packet stands in the log at the place of its number.\<close>

lemma accepted_logged:
  assumes c: "c \<le> 16384" and fits: "run_fits (with_capacity hold c) (Ins b d0 t0 # pre @ [Ins seq d t])"
    and mid: "reorder_run (with_capacity hold c) (Ins b d0 t0 # pre) = (s1, items1)"
    and acc: "reorder_insert s1 seq d t = (s2, outcome)" "\<not> stale outcome" "\<not> duplicate outcome"
  obtains j where "b + of_nat j = seq" "j < length (fst (run_log hold b d0 t0 (pre @ [Ins seq d t])))"
    "fst (run_log hold b d0 t0 (pre @ [Ins seq d t])) ! j = Filled d t"
proof -
  obtain es p where l1: "run_log hold b d0 t0 pre = (es, p)" by fastforce
  have fits1: "run_fits (with_capacity hold c) (Ins b d0 t0 # pre)" and fit: "op_fits (capacity s1) (queue_of s1) (Ins seq d t)"
    using fits mid run_fits_append [of "with_capacity hold c" "Ins b d0 t0 # pre" "[Ins seq d t]"] by simp_all
  note r1 = new_run_log [OF c fits1 mid, unfolded l1]
  have s1: "reorder_inv s1" "queue_of s1 = log_queue b (es, p)" using r1 by simp_all
  let ?j = "p + unat (seq - (b + of_nat p))"
  have "?j < length (fst (log_ins b (es, p) seq d t)) \<and> fst (log_ins b (es, p) seq d t) ! ?j = Filled d t"
    using rb.ins_law [OF s1(1) fit acc(1)] acc(2,3) s1(2) r1 fit rb.cap_bound [OF s1(1)]
    by (auto simp: log_queue_def log_ins_def log_wf_def Let_def outcome_default_def nth_append split: if_splits)
  moreover have "run_log hold b d0 t0 (pre @ [Ins seq d t]) = log_ins b (es, p) seq d t" using l1 by (simp add: run_log_def)
  moreover have "b + of_nat ?j = seq" by simp
  ultimately show thesis using that [of ?j] by presburger
qed

text \<open>A drain passes every place up to which nothing is held any more.\<close>

lemma drain_passes:
  assumes "held_until j (T - hold) (es, p)" "hold \<le> T" "p \<le> length es"
  shows "j < snd (log_drain hold (es, p) T)"
proof (cases "j < p")
  case False
  have "ripe hold T (drop p es ! i)" if "i \<le> j - p" for i
  proof -
    have "p + i \<le> j" using that False by linarith
    then have "held_since (es ! (p + i)) \<le> T - hold" using assms(1) by (simp add: held_until_def)
    then have "hold \<le> T - held_since (es ! (p + i))" using assms(2) by linarith
    with assms(3) show ?thesis by (simp add: ripe_def)
  qed
  moreover have "j - p < length (drop p es)" using assms(1) False by (simp add: held_until_def diff_less_mono)
  ultimately have "j - p < length (takeWhile (ripe hold T) (drop p es))"
    by (metis (no_types, lifting) leI nth_length_takeWhile order_le_less_trans)
  with False show ?thesis by (simp add: log_drain_def)
qed (simp add: log_drain_def)

text \<open>
  C20: No accepted packet is lost. Take a run of a new buffer of up to 16384 slots in which no packet
  lies a ring or more ahead of the base, and in it a packet whose insertion was neither stale nor a
  duplicate, also one that came late and filled a gap. A drain delivers it with its bytes, number
  and arrival time, at the latest when the hold time has passed since its arrival, since the arrivals
  before it, and since the later arrivals of numbers before its own; later numbers that go on
  arriving do not keep it back.
\<close>

theorem reorder_accepted_is_delivered:
  assumes c: "c \<le> 16384" and fits: "run_fits (with_capacity hold c) (Ins b d0 t0 # pre @ Ins seq d t # post @ [Drain T])"
    and run: "reorder_run (with_capacity hold c) (Ins b d0 t0 # pre @ Ins seq d t # post @ [Drain T]) = (s, items)"
    and mid: "reorder_run (with_capacity hold c) (Ins b d0 t0 # pre) = (s1, items1)"
    and acc: "reorder_insert s1 seq d t = (s2, outcome)" "\<not> stale outcome" "\<not> duplicate outcome"
    and before: "\<And>q e u. Ins q e u \<in> set (Ins b d0 t0 # pre @ [Ins seq d t]) \<Longrightarrow> u + hold \<le> T"
    and after: "\<And>q e u. Ins q e u \<in> set post \<Longrightarrow> u + hold \<le> T \<or> unat (q - seq) < 32768"
  shows "Delivered d seq t \<in> set items"
proof -
  let ?pre = "pre @ [Ins seq d t]"
  have fits1: "run_fits (with_capacity hold c) (Ins b d0 t0 # ?pre)"
    and fits2: "run_fits (with_capacity hold c) (Ins b d0 t0 # ?pre @ post)"
    using fits run_fits_append [of "with_capacity hold c" "Ins b d0 t0 # ?pre" "post @ [Drain T]"]
      run_fits_append [of "with_capacity hold c" "Ins b d0 t0 # ?pre @ post" "[Drain T]"] by simp_all
  obtain j where j: "b + of_nat j = seq" "j < length (fst (run_log hold b d0 t0 ?pre))"
    "fst (run_log hold b d0 t0 ?pre) ! j = Filled d t" by (rule accepted_logged [OF c fits1 mid acc])
  have hT: "hold \<le> T" using before [of seq d t] by simp
  have "held_since (fst (run_log hold b d0 t0 ?pre) ! i) \<le> T - hold" if "i \<le> j" for i
  proof -
    obtain s3 items3 where "reorder_run (with_capacity hold c) (Ins b d0 t0 # ?pre) = (s3, items3)" by fastforce
    from new_run_log [OF c fits1 this] have "log_entry_from (set (Ins b d0 t0 # ?pre)) (b + of_nat i) (fst (run_log hold b d0 t0 ?pre) ! i)"
      using j(2) that by (simp add: log_from_def)
    with before show ?thesis by (cases "fst (run_log hold b d0 t0 ?pre) ! i") (auto simp: le_diff_conv2 hT)
  qed
  with j(2) have start: "held_until j (T - hold) (run_log hold b d0 t0 ?pre)" unfolding held_until_def by blast
  have later: "\<forall>q e v. Ins q e v \<in> set post \<longrightarrow> v \<le> T - hold \<or> unat (q - (b + of_nat j)) < 32768"
    using after hT unfolding j(1) by (force simp: le_diff_conv2)
  obtain es p where l: "run_log hold b d0 t0 (?pre @ post) = (es, p)" by fastforce
  have held: "held_until j (T - hold) (es, p)" "es ! j = Filled d t" using held_until_run [OF c fits2 start j(3) later] l by auto
  have "log_items b (run_log hold b d0 t0 (?pre @ post @ [Drain T])) = items"
    using new_run_log [OF c, of hold b d0 t0 "?pre @ post @ [Drain T]"] fits run by simp
  moreover have "run_log hold b d0 t0 (?pre @ post @ [Drain T]) = (es, snd (log_drain hold (es, p) T))"
    using l by (simp add: run_log_def log_drain_def)
  moreover have "j < snd (log_drain hold (es, p) T)"
    by (rule drain_passes [OF held(1) hT]) (rule log_within_ring(1) [OF c fits2 l])
  ultimately have "items ! j = Delivered d seq t" "j < length items"
    using held j(1) nth_q_items by (auto simp: log_items_def held_until_def)
  then show ?thesis by (metis nth_mem)
qed

theorem reorder_accepted_is_delivered_witness:
  "\<exists>s items. reorder_run (with_capacity 50 64) [Ins 5 [1] 0, Ins 7 [3] 5, Ins 6 [2] 9, Ins 8 [4] 58, Drain 59] = (s, items)
     \<and> Delivered [2] 6 9 \<in> set items"
proof -
  let ?ops = "Ins 5 [1] 0 # [Ins 7 [3] 5] @ Ins 6 [2] 9 # [Ins 8 [4] 58] @ [Drain 59]"
  let ?mid = "Ins 5 [1] 0 # [Ins 7 [3] 5]"
  obtain s items where r: "reorder_run (with_capacity 50 64) ?ops = (s, items)" by fastforce
  obtain s1 i1 where m: "reorder_run (with_capacity 50 64) ?mid = (s1, i1)" by fastforce
  obtain s2 oc where a: "reorder_insert s1 6 [2] 9 = (s2, oc)" by fastforce
  have "\<not> stale (snd (reorder_insert (fst (reorder_run (with_capacity 50 64) ?mid)) 6 [2] 9))
    \<and> \<not> duplicate (snd (reorder_insert (fst (reorder_run (with_capacity 50 64) ?mid)) 6 [2] 9))"
    by code_simp
  then have oc: "\<not> stale oc \<and> \<not> duplicate oc" unfolding m fst_conv a snd_conv .
  have fits: "run_fits (with_capacity 50 64) ?ops" by code_simp
  have "Delivered [2] 6 9 \<in> set items"
  proof (rule reorder_accepted_is_delivered [OF _ fits r m a])
    show "u + 50 \<le> 59" if "Ins q e u \<in> set (Ins 5 [1] 0 # [Ins 7 [3] 5] @ [Ins 6 [2] 9])" for q e u
      using that by auto
    show "u + 50 \<le> 59 \<or> unat (q - 6) < 32768" if "Ins q e u \<in> set [Ins 8 [4] 58]" for q e u
      using that by auto
  qed (use oc in simp_all)
  with r show ?thesis by simp
qed

text \<open>
  C21: Refinement. On every well-formed buffer, \<open>insert\<close> (unless the buffer is idle and the packet
  jumps one to two rings ahead) and \<open>drain_ready\<close> do to the ring what the operations of a plain
  queue of packets and gaps do, with the same outcome flags, flush counts and items, and leave
  the buffer well-formed.
\<close>

theorem reorder_refines_queue:
  assumes "reorder_inv rb"
  shows "(\<not> idle_jump rb seq \<longrightarrow>
      (case reorder_insert rb seq data now of (rb', outcome) \<Rightarrow>
         reorder_inv rb' \<and> (queue_of rb', outcome) = q_insert (capacity rb) (queue_of rb) seq data now))
    \<and> (case drain_ready rb now of (rb', items) \<Rightarrow>
         reorder_inv rb' \<and> (queue_of rb', items) = q_drain (buffer_time rb) (queue_of rb) now)"
  using insert_refines [OF assms, of seq data now] drain_refines [OF assms, of now]
  by (auto split: prod.split)

theorem reorder_refines_queue_witness:
  "\<exists>rb. queue_of rb = Some (5, [Filled [1] 0, Gap 5, Filled [3] 5])
     \<and> (queue_of (fst (drain_ready rb 60)), snd (drain_ready rb 60)) = q_drain 50 (queue_of rb) 60"
proof -
  define rb where "rb = fst (reorder_run (with_capacity 50 64) [Ins 5 [1] 0, Ins 7 [3] 5])"
  have q: "queue_of rb = Some (5, [Filled [1] 0, Gap 5, Filled [3] 5])" "buffer_time rb = 50"
    unfolding rb_def by code_simp+
  have fits: "run_fits (with_capacity 50 64) [Ins 5 [1] 0, Ins 7 [3] 5]" by code_simp
  have "reorder_inv rb"
    using new_run_log [OF _ fits, of "fst (reorder_run (with_capacity 50 64) [Ins 5 [1] 0, Ins 7 [3] 5])"
        "snd (reorder_run (with_capacity 50 64) [Ins 5 [1] 0, Ins 7 [3] 5])"] by (simp add: rb_def)
  from reorder_refines_queue [OF this, of 0 "[]" 60] q show ?thesis
    by (intro exI [of _ rb]) (auto split: prod.splits)
qed

text \<open>What a drain releases has been held long enough, and what it stops at has not.\<close>

lemma drained_items_held:
  assumes "reorder_inv rb" "drain_ready rb now = (rb', items)" "Delivered d q t \<in> set items"
  shows "buffer_time rb \<le> now - t"
proof -
  obtain b es where q: "queue_of rb = Some (b, es)" "items = q_items b (takeWhile (ripe (buffer_time rb) now) es)"
    using drain_refines [OF assms(1,2)] assms(3) by (cases "queue_of rb") (auto simp: Let_def)
  then obtain j where "j < length (takeWhile (ripe (buffer_time rb) now) es)"
    "Delivered d q t = drain_item (b + of_nat j) (takeWhile (ripe (buffer_time rb) now) es ! j)"
    using assms(3) by (auto simp: in_set_conv_nth nth_q_items)
  moreover from this have "ripe (buffer_time rb) now (takeWhile (ripe (buffer_time rb) now) es ! j)"
    by (metis nth_mem set_takeWhileD)
  ultimately show ?thesis
    by (cases "takeWhile (ripe (buffer_time rb) now) es ! j") (auto simp: ripe_def)
qed

lemma drain_head_deadline:
  assumes "reorder_inv rb" "drain_ready rb now = (rb', items)" "queue_of rb' = Some (b, e # es)"
  shows "next_drain_time rb' clock = Some (held_since e + buffer_time rb) \<and> now < held_since e + buffer_time rb"
proof -
  note r = drain_refines [OF assms(1,2)]
  have "\<not> ripe (buffer_time rb) now e"
  proof (cases "queue_of rb")
    case (Some a)
    then obtain b0 es0 where "queue_of rb = Some (b0, es0)" by (cases a) auto
    with r assms(3) have "dropWhile (ripe (buffer_time rb) now) es0 = e # es"
      by (auto simp: Let_def dropWhile_eq_drop)
    then show ?thesis by (metis hd_dropWhile list.sel(1) list.distinct(1))
  qed (use r assms(3) in simp)
  moreover have "next_drain_time rb' clock = Some (held_since e + buffer_time rb)"
    using head_slot [OF _ assms(3)] r by (cases e) (auto simp: next_drain_time_def Let_def)
  ultimately show ?thesis by (simp add: ripe_def)
qed

text \<open>
  With nothing in the window the slot at the base is empty, so the deadline is none if that slot
  carries the base's number, and the clock itself otherwise.
\<close>

lemma idle_deadline_exact:
  assumes "reorder_inv rb" "queue_of rb = Some (b, [])"
  shows "next_drain_time rb clock = (if slot_seq (slots rb ! slot_index rb b) = b then None else Some clock)"
proof -
  obtain h where h: "base_seq rb = Some b" "highest_seq rb = Some h"
    using assms(2) by (auto simp: queue_of_def split: option.splits)
  let ?w = "window (capacity rb) b (slots rb)" and ?n = "entry_count b h"
  have ok: "ring_ok rb" and sh: "shape b ?n ?w" and es: "map slot_state (take ?n ?w) = []"
    using assms h by (auto simp: reorder_inv_def queue_of_def)
  have "min (capacity rb) ?n = 0" using arg_cong [OF es, of length] by simp
  then have "?n = 0" using ring_okD(6) [OF ok] by (simp add: min_def split: if_splits)
  moreover have "slots rb ! slot_index rb b = ?w ! 0"
    using slot_at_offset [OF ok, of 0 b] ring_okD(6) [OF ok] by simp
  ultimately have "slot_state (slots rb ! slot_index rb b) = Empty"
    using sh ring_okD(6) [OF ok] by (simp add: shape_def del: nth_window)
  with h show ?thesis by (simp add: next_drain_time_def Let_def)
qed

lemma idle_deadline:
  assumes "reorder_inv rb" "queue_of rb = None \<or> queue_of rb = Some (b, [])"
  shows "next_drain_time rb clock = None \<or> next_drain_time rb clock = Some clock"
proof (cases "queue_of rb")
  case None
  then have "base_seq rb = None"
    using assms(1) by (auto simp: queue_of_def reorder_inv_def split: option.splits)
  then show ?thesis by (simp add: next_drain_time_def)
next
  case (Some be)
  with assms(2) have "queue_of rb = Some (b, [])" by simp
  from idle_deadline_exact [OF assms(1) this] show ?thesis by simp
qed

text \<open>
  C33: Timing. Every packet a drain delivers has been held for the buffer time, and a drain stops
  only at an entry that has not: \<open>next_drain_time\<close> then is the moment the entry's hold ends, and
  that lies after the drain.
\<close>

theorem drain_respects_hold:
  assumes "reorder_inv rb" "drain_ready rb now = (rb', items)"
  shows "(\<forall>d q t. Delivered d q t \<in> set items \<longrightarrow> buffer_time rb \<le> now - t)
    \<and> (\<forall>b e es. queue_of rb' = Some (b, e # es) \<longrightarrow>
         next_drain_time rb' clock = Some (held_since e + buffer_time rb)
         \<and> now < held_since e + buffer_time rb)"
  using drained_items_held [OF assms] drain_head_deadline [OF assms] by blast

theorem drain_respects_hold_witness:
  "\<exists>rb rb' items. drain_ready rb 52 = (rb', items) \<and> queue_of rb' = Some (6, [Gap 5, Filled [3] 5])
     \<and> next_drain_time rb' 52 = Some 55"
proof -
  define rb where "rb = fst (reorder_run (with_capacity 50 64) [Ins 5 [1] 0, Ins 7 [3] 5])"
  obtain rb' items where d: "drain_ready rb 52 = (rb', items)" by fastforce
  have "queue_of (fst (drain_ready (fst (reorder_run (with_capacity 50 64) [Ins 5 [1] 0, Ins 7 [3] 5])) 52))
      = Some (6, [Gap 5, Filled [3] 5])" by code_simp
  then have q: "queue_of rb' = Some (6, [Gap 5, Filled [3] 5])" using d by (simp only: rb_def fst_conv)
  have hold: "buffer_time rb = 50" unfolding rb_def by code_simp
  have fits: "run_fits (with_capacity 50 64) [Ins 5 [1] 0, Ins 7 [3] 5]" by code_simp
  have "reorder_inv rb"
    using new_run_log [OF _ fits, of "fst (reorder_run (with_capacity 50 64) [Ins 5 [1] 0, Ins 7 [3] 5])"
        "snd (reorder_run (with_capacity 50 64) [Ins 5 [1] 0, Ins 7 [3] 5])"] by (simp add: rb_def)
  from drain_respects_hold [OF this d, of 52] q d hold show ?thesis by auto
qed

section \<open>Where the code departs\<close>

text \<open>What a jump does to an idle ring: the packet is written, then its slot is marked as a gap.\<close>

definition no_packets :: "ReorderBuffer \<Rightarrow> bool" where
  "no_packets rb \<longleftrightarrow> (\<forall>s \<in> set (slots rb). \<not> is_filled (slot_state s))"

definition only_packet :: "ReorderBuffer \<Rightarrow> u16 \<Rightarrow> bool" where
  "only_packet rb seq \<longleftrightarrow> length (slots rb) = capacity rb \<and> (\<forall>i < capacity rb. is_filled (slot_state (slots rb ! i)) \<longrightarrow>
     i = slot_index rb seq \<and> slot_seq (slots rb ! i) = seq)"

lemma no_packets_update: "no_packets rb \<Longrightarrow> \<not> is_filled (slot_state v) \<Longrightarrow> no_packets (rb\<lparr>slots := (slots rb)[i := v]\<rparr>)"
  using set_update_subset_insert [of "slots rb" i v] by (auto simp: no_packets_def)

lemma no_packets_updates [simp]:
  "no_packets (rb\<lparr>base_seq := b\<rparr>) = no_packets rb" "no_packets (rb\<lparr>highest_seq := h\<rparr>) = no_packets rb"
  by (simp_all add: no_packets_def)

lemma flush_no_packets:
  "ring_ok rb \<Longrightarrow> no_packets rb \<Longrightarrow> foldl flush_slot (rb, f) qs = (rb', f') \<Longrightarrow>
    no_packets rb' \<and> ring_ok rb' \<and> f' = f \<and> capacity rb' = capacity rb"
proof (induction qs arbitrary: rb f)
  case (Cons q qs)
  let ?rb = "rb\<lparr>slots := (slots rb)[slot_index rb q := empty_slot]\<rparr>"
  have "slots rb ! slot_index rb q \<in> set (slots rb)"
    using Cons.prems(1) by (simp add: ring_ok_index ring_okD)
  with Cons.prems(2) have "flush_slot (rb, f) q = (?rb, f)"
    by (auto simp: flush_slot_def Let_def no_packets_def)
  moreover have "no_packets ?rb" using Cons.prems(2) by (intro no_packets_update) (simp_all add: empty_slot_def)
  moreover have "ring_ok ?rb" using Cons.prems(1) by (simp add: ring_okD)
  ultimately show ?case using Cons.IH [of ?rb f] Cons.prems(3) by simp
qed simp

lemma mark_gap_only_packet:
  assumes "ring_ok rb" "only_packet rb seq" "mark_gap now seq (rb, g) q = (rb', g')"
  shows "ring_ok rb' \<and> only_packet rb' seq \<and> capacity rb' = capacity rb \<and> slot_index rb' = slot_index rb
    \<and> (no_packets rb \<longrightarrow> no_packets rb')
    \<and> (q \<noteq> seq \<and> slot_index rb q = slot_index rb seq \<longrightarrow> no_packets rb')"
proof (cases "q = seq")
  case True
  with assms show ?thesis by (simp add: mark_gap_def)
next
  case False
  let ?i = "slot_index rb q" and ?v = "\<lparr>slot_seq = q, slot_state = Gap now\<rparr>"
  have i: "?i < capacity rb" "length (slots rb) = capacity rb"
    using assms(1) by (simp_all add: ring_ok_index ring_okD)
  have none: "no_packets r" if "length (slots r) = capacity rb" "\<And>j. j < capacity rb \<Longrightarrow> \<not> is_filled (slot_state (slots r ! j))" for r
    using that by (auto simp: no_packets_def in_set_conv_nth)
  show ?thesis
  proof (cases "slot_state (slots rb ! ?i) = Empty \<or> slot_seq (slots rb ! ?i) \<noteq> q")
    case True
    with False assms(3) have rb': "rb' = rb\<lparr>slots := (slots rb)[?i := ?v]\<rparr>" by (auto simp: mark_gap_def Let_def)
    have "no_packets rb'" if same: "?i = slot_index rb seq"
    proof (rule none)
      fix j assume "j < capacity rb"
      then show "\<not> is_filled (slot_state (slots rb' ! j))"
        using same assms(2) i by (cases "j = ?i") (auto simp: rb' only_packet_def)
    qed (use i in \<open>simp add: rb'\<close>)
    moreover have "only_packet rb' seq"
      using assms(2) i by (auto simp: rb' only_packet_def slot_index_def nth_list_update)
    ultimately show ?thesis
      using assms(1) i by (auto simp: rb' slot_index_def fun_eq_iff intro!: no_packets_update)
  next
    case keep: False
    with False assms(3) have rb': "rb' = rb" by (auto simp: mark_gap_def Let_def)
    have "no_packets rb" if same: "?i = slot_index rb seq"
    proof (rule none)
      fix j assume "j < capacity rb"
      with assms(2) keep same False show "\<not> is_filled (slot_state (slots rb ! j))"
        by (auto simp: only_packet_def)
    qed (use i in simp)
    then show ?thesis using assms rb' by auto
  qed
qed

lemma mark_gaps_only_packet:
  assumes "ring_ok rb" "only_packet rb seq" "foldl (mark_gap now seq) (rb, g) qs = (rb', g')"
    and "no_packets rb \<or> (\<exists>q \<in> set qs. q \<noteq> seq \<and> slot_index rb q = slot_index rb seq)"
  shows "no_packets rb'"
  using assms
proof (induction qs arbitrary: rb g)
  case (Cons q qs)
  obtain rb1 g1 where st: "mark_gap now seq (rb, g) q = (rb1, g1)" by fastforce
  note m = mark_gap_only_packet [OF Cons.prems(1,2) st]
  show ?case
  proof (rule Cons.IH)
    show "foldl (mark_gap now seq) (rb1, g1) qs = (rb', g')" using Cons.prems(3) st by simp
    show "no_packets rb1 \<or> (\<exists>q \<in> set qs. q \<noteq> seq \<and> slot_index rb1 q = slot_index rb1 seq)"
      using Cons.prems(4) m by auto
  qed (use m in simp_all)
qed simp

lemma idle_ring:
  assumes "reorder_inv rb" "queue_of rb = Some (b, [])"
  shows "ring_ok rb \<and> no_packets rb \<and> base_seq rb = Some b \<and> highest_seq rb = Some (b - 1)"
proof -
  obtain h where bh: "base_seq rb = Some b" "highest_seq rb = Some h"
    using assms by (auto simp: queue_of_def reorder_inv_def split: option.splits)
  let ?w = "window (capacity rb) b (slots rb)"
  have ok: "ring_ok rb" and sh: "shape b (entry_count b h) ?w" and "take (entry_count b h) ?w = []"
    using assms bh by (auto simp: reorder_inv_def queue_of_def)
  then have n: "entry_count b h = 0" using ring_okD(6) [OF ok] by (auto dest: arg_cong [of _ _ length])
  have "set (slots rb) = set ?w"
    using window_all [of "capacity rb" "slots rb" b] ring_okD [OF ok] by (metis set_mset_mset)
  then have "no_packets rb" using sh n by (auto simp: no_packets_def shape_def in_set_conv_nth simp del: nth_window)
  moreover have "h = b - 1" using highest_word [of h b] n by simp
  ultimately show ?thesis using ok bh by simp
qed

lemma insert_overwritten:
  assumes ok: "ring_ok rb" and none: "no_packets rb" and k: "k = unat (seq - b)" "capacity rb \<le> k" "k < 32767"
    and r: "insert_in_window rb outcome seq data now (b - 1) = (rb', outcome')"
  shows "no_packets rb' \<and> stale outcome' = stale outcome \<and> duplicate outcome' = duplicate outcome
    \<and> overflow_flushed outcome' = overflow_flushed outcome"
proof -
  let ?i = "slot_index rb seq"
  have i: "?i < capacity rb" "length (slots rb) = capacity rb" using ok by (simp_all add: ring_ok_index ring_okD)
  have seq: "seq = b + of_nat k" by (simp add: k(1))
  have nf: "\<not> is_filled (slot_state (slots rb ! j))" if "j < capacity rb" for j
    using none i that by (simp add: no_packets_def)
  obtain v o2 where v: "extend_highest (rb\<lparr>slots := (slots rb)[?i := v]\<rparr>) o2 seq (b - 1) now = (rb', outcome')"
    "slot_seq v = seq" "stale o2 = stale outcome" "duplicate o2 = duplicate outcome"
    "overflow_flushed o2 = overflow_flushed outcome"
  proof (cases "slot_seq (slots rb ! ?i) = seq")
    case True
    with r nf [OF i(1)] show ?thesis
      by (cases "slot_state (slots rb ! ?i)") (auto simp: insert_in_window_def Let_def intro: that)
  next
    case False
    with r show ?thesis
      by (intro that [of "filled_slot seq data now" outcome]) (simp_all add: insert_in_window_def Let_def filled_slot_def)
  qed
  let ?rb = "rb\<lparr>slots := (slots rb)[?i := v]\<rparr>"
  have only: "ring_ok ?rb" "only_packet ?rb seq"
    using ok i v(2) nf by (auto simp: only_packet_def slot_index_def nth_list_update)
  have d: "seq - (b - 1) = of_nat (k + 1)" by (simp add: seq)
  have d': "0 < sint (seq - (b - 1))" "nat (sint (seq - (b - 1))) = k + 1"
    unfolding d using sint_of_nat_u16 [of "k + 1"] k(3) by simp_all
  obtain g where fold: "foldl (mark_gap now seq) (?rb, new_gaps o2) (map (\<lambda>i. (b - 1) + of_nat i) [1..<k + 1 + 1])
      = (rb'\<lparr>highest_seq := highest_seq (fst (foldl (mark_gap now seq) (?rb, new_gaps o2) (map (\<lambda>i. (b - 1) + of_nat i) [1..<k + 1 + 1])))\<rparr>, g)"
    and out: "outcome' = o2\<lparr>new_gaps := g\<rparr>"
    using v(1) d' by (auto simp: extend_highest_def Let_def simp del: upt_Suc split: prod.splits)
  let ?q = "(b - 1) + of_nat (k - capacity rb + 1)"
  have mem: "?q \<in> set (map (\<lambda>i. (b - 1) + of_nat i) [1..<k + 1 + 1])"
    using i(1) k(2) by (auto simp: image_iff intro!: bexI [of _ "k - capacity rb + 1"] simp del: upt_Suc)
  have qe: "?q = b + of_nat (k - capacity rb)" by simp
  have "unat (?q - b) = k - capacity rb" unfolding qe using k(3) unat_of_nat_u16 [of "k - capacity rb"] by simp
  then have "?q \<noteq> seq" using i(1) k(1,2) by auto
  moreover have "slot_index rb ?q = ?i"
  proof -
    have "(unat b + (k - capacity rb)) mod capacity rb = (unat b + k) mod capacity rb"
      using k(2) by (metis Nat.add_diff_assoc le_add_diff_inverse2 le_trans le_add2 mod_add_self2)
    then show ?thesis
      unfolding qe by (simp only: seq ring_ok_index [OF ok] ring_index_add [OF ring_okD(1,5) [OF ok]])
  qed
  ultimately have "\<exists>q \<in> set (map (\<lambda>i. (b - 1) + of_nat i) [1..<k + 1 + 1]). q \<noteq> seq \<and> slot_index ?rb q = slot_index ?rb seq"
    using mem by (auto simp: slot_index_def simp del: upt_Suc)
  from mark_gaps_only_packet [OF only fold] this have "no_packets rb'" by (simp del: upt_Suc set_map)
  with out v show ?thesis by simp
qed

text \<open>
  C38: An idle jump loses the packet it makes room for. On any well-formed buffer that has drained
  everything, a packet at least one ring and less than two rings ahead of the base is reported
  as accepted (not stale, not a duplicate, nothing flushed), but the gap marking overwrites its
  slot: no slot holds a packet afterwards. The highest number lies just below the base there, so
  \<open>highest_offset\<close> is 65535 and the restart of the window at the packet is not chosen.
\<close>

theorem idle_jump_loses_packet:
  assumes "reorder_inv rb" "idle_jump rb seq" "reorder_insert rb seq data now = (rb', outcome)"
  shows "\<not> stale outcome \<and> \<not> duplicate outcome \<and> overflow_flushed outcome = 0
    \<and> (\<forall>s \<in> set (slots rb'). \<not> is_filled (slot_state s))"
proof -
  obtain b where q: "queue_of rb = Some (b, [])" using assms(2) by (auto simp: idle_jump_def split: option.splits)
  define k where "k = unat (seq - b)"
  have k: "capacity rb \<le> k" "k < 2 * capacity rb - 1" using assms(2) q by (simp_all add: idle_jump_def k_def)
  have idle: "ring_ok rb" "no_packets rb" "base_seq rb = Some b" "highest_seq rb = Some (b - 1)"
    using idle_ring [OF assms(1) q] by simp_all
  have cap: "64 \<le> capacity rb" "capacity rb \<le> 16384" using ring_okD [OF idle(1)] by simp_all
  have s: "\<not> sint (seq - b) < 0" "nat (sint (seq - b)) = k"
    using k cap sint_u16_nonneg [of "seq - b"] by (auto simp: k_def)
  have ahead: "unat (of_nat (capacity rb) - 1 :: u16) = capacity rb - 1"
    using cap unat_of_nat_u16 [of "capacity rb - 1"] by (simp add: of_nat_diff)
  define a where "a = k - (capacity rb - 1)"
  have a: "nat (sint (seq - b)) - unat (of_nat (capacity rb) - 1 :: u16) = a"
    "unat (of_nat (capacity rb) - 1 :: u16) < nat (sint (seq - b))" using ahead s k cap by (simp_all add: a_def)
  have "unat (- 1 :: u16) = 65535" by (simp add: unsigned_minus_1_eq_mask mask_eq_exp_minus_1)
  then have cond: "\<not> (capacity rb \<le> a \<or> unat (- 1 :: u16) < a)" using k cap by (auto simp: a_def)
  obtain rb1 f where fl: "foldl flush_slot (rb, 0) (map (\<lambda>i. b + of_nat i) [0..<a]) = (rb1, f)" by fastforce
  note f = flush_no_packets [OF idle(1,2) fl]
  have "outcome_default\<lparr>overflow_flushed := 0\<rparr> = outcome_default" by (simp add: outcome_default_def)
  then have "insert_in_window (rb1\<lparr>base_seq := Some (b + of_nat a)\<rparr>) outcome_default seq data now (b - 1) = (rb', outcome)"
    using assms(3) idle(3,4) s(1) a cond fl f by (simp add: reorder_insert_def Let_def)
  from insert_overwritten [OF _ _ _ _ _ this] f k cap show ?thesis
    by (simp add: k_def no_packets_def outcome_default_def)
qed

theorem idle_jump_loses_packet_witness:
  "\<exists>rb rb' outcome. queue_of rb = Some (6, []) \<and> reorder_insert rb 79 [2] 200 = (rb', outcome)
     \<and> \<not> stale outcome \<and> (\<forall>s \<in> set (slots rb'). \<not> is_filled (slot_state s))"
proof -
  let ?ops = "[Ins 5 [1] 0, Drain 100]"
  define rb where "rb = fst (reorder_run (with_capacity 50 64) ?ops)"
  obtain rb' outcome where r: "reorder_insert rb 79 [2] 200 = (rb', outcome)" by fastforce
  have q: "queue_of rb = Some (6, [])" "capacity rb = 64" unfolding rb_def by code_simp+
  then have "idle_jump rb 79" by (simp add: idle_jump_def)
  moreover have fits: "run_fits (with_capacity 50 64) ?ops" by code_simp
  have "reorder_inv rb"
    using new_run_log [OF _ fits, of "fst (reorder_run (with_capacity 50 64) ?ops)"
        "snd (reorder_run (with_capacity 50 64) ?ops)"] by (simp add: rb_def)
  ultimately show ?thesis using idle_jump_loses_packet [of rb 79 "[2]" 200] r q by blast
qed

text \<open>
  C39: A drained buffer asks to be drained at once. Take any well-formed buffer that holds nothing:
  every number below its base \<open>b\<close> has been released and none from \<open>b\<close> on has arrived. A drain produces
  nothing and changes nothing, at any time; still \<open>next_drain_time\<close> returns the current time and no
  deadline ahead, unless the slot of the base happens to carry the number \<open>b\<close> already (a slot not
  used before carries 0, so this is so for \<open>b\<close> = 0 in the first pass over the ring), when it returns
  none. The delivery thread waits only for a deadline ahead of the clock, so but for that exception
  it polls without pause until the next packet arrives.
\<close>

theorem drained_buffer_deadline_is_now:
  assumes "reorder_inv rb" "queue_of rb = Some (b, [])"
  shows "(\<forall>now. drain_ready rb now = (rb, []))
    \<and> (\<forall>clock. next_drain_time rb clock = (if slot_seq (slots rb ! slot_index rb b) = b then None else Some clock))"
  using drain_idle [OF assms] idle_deadline_exact [OF assms] by blast

theorem drained_buffer_deadline_is_now_witness:
  "\<exists>rb. reorder_run (with_capacity 50 64) [Ins 5 [1] 10, Ins 7 [3] 11, Drain 61] = (rb, [Delivered [1] 5 10, Lost, Delivered [3] 7 11])
     \<and> (\<forall>clock. next_drain_time rb clock = Some clock)"
proof -
  let ?ops = "[Ins 5 [1] 10, Ins 7 [3] 11, Drain 61]"
  define rb where "rb = fst (reorder_run (with_capacity 50 64) ?ops)"
  have items: "snd (reorder_run (with_capacity 50 64) ?ops) = [Delivered [1] 5 10, Lost, Delivered [3] 7 11]" by code_simp
  then have run: "reorder_run (with_capacity 50 64) ?ops = (rb, [Delivered [1] 5 10, Lost, Delivered [3] 7 11])"
    by (simp add: rb_def prod_eq_iff)
  have "run_fits (with_capacity 50 64) ?ops" by code_simp
  from new_run_log [OF _ this run] have inv: "reorder_inv rb" by simp
  have q: "queue_of rb = Some (8, [])" "slot_seq (slots rb ! slot_index rb 8) \<noteq> 8" unfolding rb_def by code_simp+
  from drained_buffer_deadline_is_now [OF inv q(1)] q(2) run show ?thesis by auto
qed

end
