(* ===== verification/Rist_Nack_Scheduler.thy ===== *)
theory Rist_Nack_Scheduler
  imports Rist_Prelude "HOL-Library.Multiset"
begin

text \<open>
  The receiver's NACK scheduler, \<open>NackScheduler\<close> of \<open>protocol/nack_tracker.rs\<close>: which lost
  sequence numbers are being asked for, when the next request is due and how many were sent.
  The lemmas give the exact effect of each operation on the set of tracked numbers, show that
  the early return of \<open>get_pending_nacks\<close> never hides a due entry, and bound the requests of
  a whole run by \<open>max_retries\<close> per detected gap.
\<close>

unbundle bit_operations_syntax

section \<open>State and operations\<close>

record NackSlot =
  nslot_seq :: u16
  active :: bool
  next_nack_at :: instant
  nack_count :: u32

record NackScheduler =
  nslots :: "NackSlot list"
  ncapacity :: nat
  max_retries :: u32
  base_delay :: duration
  expected_seq :: "u16 option"
  scan_lo :: u16
  active_count :: u32

text \<open>\<open>Instant::now()\<close> is an argument where the source reads the clock.\<close>

definition nack_scheduler_new :: "u32 \<Rightarrow> duration \<Rightarrow> instant \<Rightarrow> NackScheduler" where
  "nack_scheduler_new retries delay clock =
     (let capacity = 4096;
          default_slot = \<lparr>nslot_seq = 0, active = False, next_nack_at = clock, nack_count = 0\<rparr>
      in \<lparr>nslots = replicate capacity default_slot, ncapacity = capacity, max_retries = retries,
          base_delay = delay, expected_seq = None, scan_lo = 0, active_count = 0\<rparr>)"

definition MAX_TRACKABLE_GAP :: nat where [simp]:
  "MAX_TRACKABLE_GAP = 1000"

text \<open>\<open>u32::saturating_sub(1)\<close>.\<close>

definition saturating_dec :: "u32 \<Rightarrow> u32" where
  "saturating_dec c = (if c = 0 then 0 else c - 1)"

definition deactivate :: "NackScheduler \<Rightarrow> u16 \<Rightarrow> NackScheduler" where
  "deactivate s seq =
     (let idx = ring_index (ncapacity s) seq;
          slot = nslots s ! idx
      in if active slot \<and> nslot_seq slot = seq
         then s\<lparr>nslots := (nslots s)[idx := slot\<lparr>active := False\<rparr>],
                active_count := saturating_dec (active_count s)\<rparr>
         else s)"

text \<open>The body of the gap loop: start tracking one missing number.\<close>

definition track_missing ::
  "instant \<Rightarrow> NackScheduler \<times> u16 list \<Rightarrow> u16 \<Rightarrow> NackScheduler \<times> u16 list" where
  "track_missing now acc missing =
     (case acc of (s, new_gaps) \<Rightarrow>
        let idx = ring_index (ncapacity s) missing;
            slot = nslots s ! idx
        in if \<not> active slot \<or> nslot_seq slot \<noteq> missing
           then (s\<lparr>nslots := (nslots s)[idx := \<lparr>nslot_seq = missing, active = True,
                                 next_nack_at = now + base_delay s, nack_count = 0\<rparr>],
                   active_count := active_count s + 1\<rparr>,
                 new_gaps @ [missing])
           else (s, new_gaps))"

definition on_packet_received ::
  "NackScheduler \<Rightarrow> u16 \<Rightarrow> instant \<Rightarrow> NackScheduler \<times> u16 list" where
  "on_packet_received s seq now =
     (case expected_seq s of
        None \<Rightarrow> (s\<lparr>expected_seq := Some (seq + 1), scan_lo := seq\<rparr>, [])
      | Some expected \<Rightarrow>
          let diff = sint (seq - expected)
          in if diff > 0
             then let gap = nat diff;
                      (s', new_gaps) =
                        (if gap \<le> MAX_TRACKABLE_GAP
                         then foldl (track_missing now) (s, []) (map (\<lambda>i. expected + of_nat i) [0..<gap])
                         else (s, []))
                  in (s'\<lparr>expected_seq := Some (seq + 1)\<rparr>, new_gaps)
             else if diff = 0 then (s\<lparr>expected_seq := Some (seq + 1)\<rparr>, [])
             else (deactivate s seq, []))"

definition on_packet_recovered :: "NackScheduler \<Rightarrow> u16 \<Rightarrow> NackScheduler" where
  "on_packet_recovered s seq = deactivate s seq"

text \<open>The scan of the ring: the slots as the loop leaves them, the counter, what is due.\<close>

fun scan_slots ::
  "instant \<Rightarrow> u32 \<Rightarrow> duration \<Rightarrow> NackSlot list \<Rightarrow> u32 \<Rightarrow> NackSlot list \<times> u32 \<times> u16 list" where
  "scan_slots now retries retry_delay [] c = ([], c, [])"
| "scan_slots now retries retry_delay (slot # slots) c =
     (let (slot', c', out) =
        (if \<not> active slot then (slot, c, [])
         else if now \<ge> next_nack_at slot
         then if nack_count slot \<ge> retries
              then (slot\<lparr>active := False\<rparr>, saturating_dec c, [])
              else (slot\<lparr>nack_count := nack_count slot + 1, next_nack_at := now + retry_delay\<rparr>,
                    c, [nslot_seq slot])
         else (slot, c, []));
        (slots', c'', out') = scan_slots now retries retry_delay slots c'
      in (slot' # slots', c'', out @ out'))"

definition get_pending_nacks ::
  "NackScheduler \<Rightarrow> instant \<Rightarrow> duration option \<Rightarrow> NackScheduler \<times> u16 list" where
  "get_pending_nacks s now rtt =
     (if active_count s = 0 then (s, [])
      else let retry_delay = (case rtt of Some d \<Rightarrow> d | None \<Rightarrow> base_delay s);
               (slots', count, to_nack) =
                 scan_slots now (max_retries s) retry_delay (nslots s) (active_count s)
           in (s\<lparr>nslots := slots', active_count := count\<rparr>, sort to_nack))"

definition pending_count :: "NackScheduler \<Rightarrow> nat" where
  "pending_count s = unat (active_count s)"

definition update_base_delay :: "NackScheduler \<Rightarrow> duration \<Rightarrow> NackScheduler" where
  "update_base_delay s delay = s\<lparr>base_delay := delay\<rparr>"

section \<open>Invariant and abstract view\<close>

text \<open>A number is tracked when the slot at its index is active for it.\<close>

definition tracked :: "NackScheduler \<Rightarrow> u16 \<Rightarrow> bool" where
  "tracked s q \<longleftrightarrow> (let slot = nslots s ! ring_index (ncapacity s) q
                   in active slot \<and> nslot_seq slot = q)"

definition active_slots :: "NackScheduler \<Rightarrow> nat" where
  "active_slots s = length (filter active (nslots s))"

text \<open>
  The well-formedness of the ring: an active slot sits at the index of its number and has
  not used up more than its retries.
\<close>

definition slot_ok :: "u32 \<Rightarrow> nat \<Rightarrow> NackSlot \<Rightarrow> bool" where
  "slot_ok retries i slot \<longleftrightarrow>
     (active slot \<longrightarrow> ring_index 4096 (nslot_seq slot) = i \<and> nack_count slot \<le> retries)"

definition sched_inv :: "NackScheduler \<Rightarrow> bool" where
  "sched_inv s \<longleftrightarrow> ncapacity s = 4096 \<and> length (nslots s) = 4096
     \<and> (\<forall>i < 4096. slot_ok (max_retries s) i (nslots s ! i))"

lemma is_pow2_4096 [simp]: "is_pow2 4096"
  unfolding is_pow2_def by (rule exI [of _ 12]) simp

lemma sched_inv_index [simp]: "sched_inv s \<Longrightarrow> ring_index (ncapacity s) q < length (nslots s)"
  by (simp add: sched_inv_def)

lemma sched_inv_sizes [simp]:
  "sched_inv s \<Longrightarrow> ncapacity s = 4096" "sched_inv s \<Longrightarrow> length (nslots s) = 4096"
  by (simp_all add: sched_inv_def)

lemma sched_inv_new [simp]: "sched_inv (nack_scheduler_new r d t)"
  by (simp add: sched_inv_def slot_ok_def nack_scheduler_new_def Let_def)

lemma sched_inv_update:
  assumes "sched_inv s" and "slot_ok (max_retries s) i v"
  shows "sched_inv (s\<lparr>nslots := (nslots s)[i := v], active_count := c\<rparr>)"
proof (cases "i < 4096")
  case True
  with assms(1) have at: "(nslots s)[i := v] ! j = (if i = j then v else nslots s ! j)" for j
    by (simp add: nth_list_update)
  show ?thesis using assms by (simp add: sched_inv_def at del: sched_inv_sizes)
next
  case False
  then have "(nslots s)[i := v] = nslots s" using assms(1) by (simp add: list_update_beyond)
  with assms(1) show ?thesis by (simp add: sched_inv_def del: sched_inv_sizes)
qed

lemma sched_inv_deactivate [simp]: "sched_inv s \<Longrightarrow> sched_inv (deactivate s q)"
  by (auto simp: deactivate_def slot_ok_def Let_def intro: sched_inv_update)

lemma sched_inv_track:
  "sched_inv s \<Longrightarrow> sched_inv (fst (track_missing now (s, gs) q))"
  by (auto simp: track_missing_def slot_ok_def Let_def intro: sched_inv_update)

text \<open>What one step of the gap loop changes, and what it keeps.\<close>

lemma track_missing_keeps [simp]:
  "ncapacity (fst (track_missing now (s, gs) q)) = ncapacity s"
  "max_retries (fst (track_missing now (s, gs) q)) = max_retries s"
  "base_delay (fst (track_missing now (s, gs) q)) = base_delay s"
  by (simp_all add: track_missing_def Let_def)

lemma tracked_track_missing:
  assumes "sched_inv s"
  shows "tracked (fst (track_missing now (s, gs) m)) q \<longleftrightarrow>
    q = m \<or> tracked s q \<and> ring_index 4096 q \<noteq> ring_index 4096 m"
  using assms
  by (cases "ring_index 4096 q = ring_index 4096 m")
    (auto simp: track_missing_def tracked_def Let_def)

lemma snd_track_missing:
  "snd (track_missing now (s, gs) m) = gs @ (if tracked s m then [] else [m])"
  by (auto simp: track_missing_def tracked_def Let_def)

lemma track_missing_split:
  "track_missing now (s, gs) m
   = (fst (track_missing now (s, []) m), gs @ (if tracked s m then [] else [m]))"
  by (auto simp: track_missing_def tracked_def Let_def)

text \<open>The whole gap loop, for missing numbers that occupy different slots.\<close>

lemma sched_inv_track_all:
  "sched_inv s \<Longrightarrow> sched_inv (fst (foldl (track_missing now) (s, gs) ms))
     \<and> max_retries (fst (foldl (track_missing now) (s, gs) ms)) = max_retries s"
proof (induction ms arbitrary: s gs)
  case (Cons m ms)
  from Cons.IH [OF sched_inv_track [OF Cons.prems, of now gs m]] show ?case
    by (simp add: track_missing_split [of _ s gs] sched_inv_track [OF Cons.prems, of now "[]"])
qed simp

lemma track_all:
  assumes "sched_inv s" "distinct ms" "inj_on (ring_index 4096) (set ms)"
  shows "tracked (fst (foldl (track_missing now) (s, gs) ms)) q \<longleftrightarrow>
      q \<in> set ms \<or> tracked s q \<and> ring_index 4096 q \<notin> ring_index 4096 ` set ms" (is ?T)
    and "snd (foldl (track_missing now) (s, gs) ms) = gs @ filter (\<lambda>m. \<not> tracked s m) ms" (is ?G)
proof -
  have "?T \<and> ?G" using assms
  proof (induction ms arbitrary: s gs)
    case (Cons m ms)
    let ?s1 = "fst (track_missing now (s, []) m)"
    have IH: "tracked (fst (foldl (track_missing now) (?s1, gs') ms)) q \<longleftrightarrow>
        q \<in> set ms \<or> tracked ?s1 q \<and> ring_index 4096 q \<notin> ring_index 4096 ` set ms"
      "snd (foldl (track_missing now) (?s1, gs') ms) = gs' @ filter (\<lambda>m. \<not> tracked ?s1 m) ms" for gs'
      using Cons.IH [of ?s1 gs'] Cons.prems by (auto simp: sched_inv_track)
    have sep: "ring_index 4096 x \<noteq> ring_index 4096 m" "x \<noteq> m" if "x \<in> set ms" for x
      using Cons.prems that by (auto simp: image_iff)
    have "filter (\<lambda>m. \<not> tracked ?s1 m) ms = filter (\<lambda>m. \<not> tracked s m) ms"
      using Cons.prems sep by (intro filter_cong) (auto simp: tracked_track_missing)
    with IH Cons.prems sep show ?case
      by (auto simp: track_missing_split [of _ s gs] tracked_track_missing)
  qed simp
  then show ?T ?G by simp_all
qed

lemma gap_run_indices:
  assumes "gap \<le> 4096"
  shows "distinct (map (\<lambda>i. e + of_nat i :: u16) [0..<gap])"
    and "inj_on (ring_index 4096) (set (map (\<lambda>i. e + of_nat i :: u16) [0..<gap]))"
proof -
  have eq: "i = j" if "ring_index 4096 (e + of_nat i) = ring_index 4096 (e + of_nat j)"
    "i < gap" "j < gap" for i j
    using that assms ring_index_inj [of 4096 i j e] by simp
  show "inj_on (ring_index 4096) (set (map (\<lambda>i. e + of_nat i :: u16) [0..<gap]))"
    by (auto simp: inj_on_def dest: eq)
  have "inj_on (\<lambda>i. e + of_nat i :: u16) {0..<gap}"
    by (rule inj_onI) (metis atLeastLessThan_iff eq)
  then show "distinct (map (\<lambda>i. e + of_nat i :: u16) [0..<gap])"
    by (simp add: distinct_map)
qed

section \<open>Detection\<close>

text \<open>The numbers a packet reveals as missing: those between the expected one and its own.\<close>

definition missing_before :: "u16 \<Rightarrow> u16 \<Rightarrow> u16 list" where
  "missing_before expected seq = map (\<lambda>i. expected + of_nat i) [0..<unat (seq - expected)]"

lemma not_tracked_new [simp]: "\<not> tracked (nack_scheduler_new r d t) q"
  by (simp add: tracked_def nack_scheduler_new_def Let_def)

lemma tracked_expected_update [simp]: "tracked (s\<lparr>expected_seq := e\<rparr>) q = tracked s q"
  by (simp add: tracked_def)

text \<open>
  C27: Loss detection is exact. When a packet arrives ahead of the expected number by a gap of
  at most 1000, every number in between becomes tracked, a number outside the gap stays tracked
  unless its ring slot is taken over, nothing else becomes tracked, and the reported gaps are
  the missing numbers that were not tracked yet, in sequence order.
\<close>

theorem on_packet_received_tracks_gap:
  assumes "sched_inv s" "expected_seq s = Some e" "0 < unat (seq - e)" "unat (seq - e) \<le> 1000"
    and "on_packet_received s seq now = (s', gaps)"
  shows "(\<forall>q. tracked s' q \<longleftrightarrow> q \<in> set (missing_before e seq)
          \<or> tracked s q \<and> ring_index 4096 q \<notin> ring_index 4096 ` set (missing_before e seq))
    \<and> gaps = filter (\<lambda>m. \<not> tracked s m) (missing_before e seq)
    \<and> expected_seq s' = Some (seq + 1)"
proof -
  have d: "sint (seq - e) = int (unat (seq - e))" "0 < sint (seq - e)"
    using assms sint_u16_nonneg [of "seq - e"] sint_u16_pos_iff [of "seq - e"] by linarith+
  have n: "nat (sint (seq - e)) = unat (seq - e)"
    using d(1) by (metis nat_int)
  have "on_packet_received s seq now =
    (let r = foldl (track_missing now) (s, []) (missing_before e seq)
     in ((fst r)\<lparr>expected_seq := Some (seq + 1)\<rparr>, snd r))"
    using assms(2-4) d(2)
    by (simp add: on_packet_received_def n missing_before_def Let_def split_beta)
  then have r: "s' = (fst (foldl (track_missing now) (s, []) (missing_before e seq)))
        \<lparr>expected_seq := Some (seq + 1)\<rparr>"
    "gaps = snd (foldl (track_missing now) (s, []) (missing_before e seq))"
    using assms(5) by (simp_all add: Let_def)
  have "unat (seq - e) \<le> 4096" using assms(4) by simp
  note run = gap_run_indices [OF this, of e, folded missing_before_def]
  show ?thesis
    by (simp add: r(1) track_all(1) [OF assms(1) run]) (simp add: r(2) track_all(2) [OF assms(1) run])
qed

theorem on_packet_received_tracks_gap_witness:
  "\<exists>s' gaps. on_packet_received ((nack_scheduler_new 10 50 0)\<lparr>expected_seq := Some 65535\<rparr>) 1 7 = (s', gaps)
     \<and> tracked s' 0 \<and> gaps = [65535, 0]"
proof -
  let ?s = "(nack_scheduler_new 10 50 0)\<lparr>expected_seq := Some 65535\<rparr>"
  obtain s' gaps where r: "on_packet_received ?s 1 7 = (s', gaps)" by (cases "on_packet_received ?s 1 7")
  have inv: "sched_inv ?s"
    using sched_inv_new [of 10 50 0] by (simp add: sched_inv_def del: sched_inv_sizes sched_inv_new)
  have m: "missing_before 65535 1 = [65535, 0]" by (simp add: missing_before_def upt_rec)
  note t = on_packet_received_tracks_gap [OF inv _ _ _ r, of 65535]
  show ?thesis using r t by (auto simp: m)
qed

text \<open>A gap wider than 1000 is a discontinuity: the scheduler resynchronises and tracks nothing.\<close>

lemma on_packet_received_resync:
  assumes "expected_seq s = Some e" "1000 < unat (seq - e)" "unat (seq - e) < 32768"
  shows "on_packet_received s seq now = (s\<lparr>expected_seq := Some (seq + 1)\<rparr>, [])"
proof -
  have "0 < sint (seq - e)" "nat (sint (seq - e)) = unat (seq - e)"
    using assms sint_u16_nonneg [of "seq - e"] sint_u16_pos_iff [of "seq - e"] by linarith+
  with assms show ?thesis by (simp add: on_packet_received_def)
qed

text \<open>A recovered packet is not asked for again, and no other number is affected.\<close>

lemma tracked_deactivate:
  "sched_inv s \<Longrightarrow> tracked (deactivate s m) q \<longleftrightarrow> tracked s q \<and> q \<noteq> m"
  by (cases "ring_index 4096 q = ring_index 4096 m")
    (auto simp: deactivate_def tracked_def Let_def)

section \<open>The pump\<close>

text \<open>What the scan does to one slot, and when it reports it.\<close>

definition due :: "instant \<Rightarrow> u32 \<Rightarrow> NackSlot \<Rightarrow> bool" where
  "due now retries slot \<longleftrightarrow> active slot \<and> next_nack_at slot \<le> now \<and> nack_count slot < retries"

definition spent :: "instant \<Rightarrow> u32 \<Rightarrow> NackSlot \<Rightarrow> bool" where
  "spent now retries slot \<longleftrightarrow> active slot \<and> next_nack_at slot \<le> now \<and> retries \<le> nack_count slot"

definition slot_after :: "instant \<Rightarrow> u32 \<Rightarrow> duration \<Rightarrow> NackSlot \<Rightarrow> NackSlot" where
  "slot_after now retries delay slot =
     (if due now retries slot
      then slot\<lparr>nack_count := nack_count slot + 1, next_nack_at := now + delay\<rparr>
      else if spent now retries slot then slot\<lparr>active := False\<rparr> else slot)"

lemma scan_slots_eq:
  "scan_slots now retries delay slots c =
     (map (slot_after now retries delay) slots,
      (saturating_dec ^^ length (filter (spent now retries) slots)) c,
      map nslot_seq (filter (due now retries) slots))"
proof (induction slots arbitrary: c)
  case (Cons slot slots)
  then show ?case
    by (auto simp: slot_after_def due_def spent_def not_le not_less funpow_swap1)
qed simp

lemma unat_saturating_dec: "unat (saturating_dec c) = unat c - 1"
proof (cases "c = 0")
  case False
  then show ?thesis by (simp add: saturating_dec_def unat_minus_one)
qed (simp add: saturating_dec_def)

lemma unat_saturating_dec_funpow: "unat ((saturating_dec ^^ n) c) = unat c - n"
  by (induction n) (simp_all add: unat_saturating_dec)

lemma active_slot_after: "active (slot_after now r d slot) \<longleftrightarrow> active slot \<and> \<not> spent now r slot"
  by (auto simp: slot_after_def due_def spent_def)

lemma nslot_seq_after [simp]: "nslot_seq (slot_after now r d slot) = nslot_seq slot"
  by (simp add: slot_after_def)

lemma filter_active_scan:
  "length (filter active (map (slot_after now r d) slots)) + length (filter (spent now r) slots)
   = length (filter active slots)"
  by (induction slots) (auto simp: active_slot_after spent_def)

text \<open>The scan without the early return, the meaning \<open>get_pending_nacks\<close> is to have.\<close>

definition full_scan :: "NackScheduler \<Rightarrow> instant \<Rightarrow> duration option \<Rightarrow> NackScheduler \<times> u16 list" where
  "full_scan s now rtt =
     (s\<lparr>nslots := map (slot_after now (max_retries s) (case rtt of Some d \<Rightarrow> d | None \<Rightarrow> base_delay s)) (nslots s),
        active_count := (saturating_dec ^^ length (filter (spent now (max_retries s)) (nslots s))) (active_count s)\<rparr>,
      sort (map nslot_seq (filter (due now (max_retries s)) (nslots s))))"

lemma get_pending_nacks_eq:
  "get_pending_nacks s now rtt = (if active_count s = 0 then (s, []) else full_scan s now rtt)"
  by (simp add: get_pending_nacks_def full_scan_def scan_slots_eq)

lemma slot_after_inactive: "\<not> active slot \<Longrightarrow> slot_after now r d slot = slot"
  by (simp add: slot_after_def due_def spent_def)

lemma full_scan_idle:
  assumes "active_slots s = 0"
  shows "full_scan s now rtt = (s, [])"
proof -
  have idle: "\<not> active slot" if "slot \<in> set (nslots s)" for slot
    using assms that by (simp add: active_slots_def filter_empty_conv)
  then have "filter (due now r) (nslots s) = []" "filter (spent now r) (nslots s) = []" for r
    by (auto simp: filter_empty_conv due_def spent_def)
  moreover have "map (slot_after now r d) (nslots s) = nslots s" for r d
    using idle by (intro map_idI) (simp add: slot_after_inactive)
  ultimately show ?thesis by (simp add: full_scan_def)
qed

lemma unat_nack_count_step:
  "nack_count slot < r \<Longrightarrow> unat (nack_count slot + 1) = unat (nack_count slot) + 1"
  using unat_mono [of "nack_count slot" r] unsigned_less [of r, where 'a = nat]
  by (simp add: unat_word_ariths)

lemma slot_ok_after: "slot_ok r i slot \<Longrightarrow> slot_ok r i (slot_after now r d slot)"
  using unat_nack_count_step [of slot r]
  by (auto simp: slot_ok_def slot_after_def due_def spent_def word_le_nat_alt word_less_nat_alt)

lemma sched_inv_full_scan: "sched_inv s \<Longrightarrow> sched_inv (fst (full_scan s now rtt))"
  unfolding full_scan_def
  by (simp add: sched_inv_def slot_ok_after del: sched_inv_sizes)

lemma sched_inv_pump [simp]: "sched_inv s \<Longrightarrow> sched_inv (fst (get_pending_nacks s now rtt))"
  by (simp add: get_pending_nacks_eq sched_inv_full_scan)

lemma sched_inv_expected [simp]: "sched_inv (s\<lparr>expected_seq := e\<rparr>) = sched_inv s"
  "sched_inv (s\<lparr>scan_lo := l\<rparr>) = sched_inv s" "sched_inv (s\<lparr>base_delay := d\<rparr>) = sched_inv s"
  by (simp_all add: sched_inv_def del: sched_inv_sizes)

text \<open>Packet arrival, by its cases: the state is the old one, one number dropped, or a gap run tracked.\<close>

lemma on_packet_received_cases:
  obtains (same) e l where "on_packet_received s seq now = (s\<lparr>expected_seq := e, scan_lo := l\<rparr>, [])"
  | (drop) "on_packet_received s seq now = (deactivate s seq, [])"
  | (gap) e ms where "length ms \<le> 1000"
      "on_packet_received s seq now =
        (let r = foldl (track_missing now) (s, []) ms in ((fst r)\<lparr>expected_seq := e\<rparr>, snd r))"
proof (cases "expected_seq s")
  case None
  then show thesis by (intro same) (simp add: on_packet_received_def)
next
  case (Some e)
  consider "0 < sint (seq - e)" "nat (sint (seq - e)) \<le> 1000"
    | "0 < sint (seq - e)" "1000 < nat (sint (seq - e))"
    | "sint (seq - e) = 0" | "sint (seq - e) < 0"
    by linarith
  then show thesis
  proof cases
    case 1
    with Some show thesis
      by (intro gap [of "map (\<lambda>i. e + of_nat i) [0..<nat (sint (seq - e))]"])
        (simp_all add: on_packet_received_def Let_def split_beta)
  next
    case 2
    with Some show thesis
      by (intro same [where e = "Some (seq + 1)" and l = "scan_lo s"]) (simp add: on_packet_received_def)
  next
    case 3
    with Some show thesis
      by (intro same [where e = "Some (seq + 1)" and l = "scan_lo s"]) (simp add: on_packet_received_def)
  next
    case 4
    with Some show thesis by (intro drop) (simp add: on_packet_received_def)
  qed
qed

lemma sched_inv_received [simp]: "sched_inv s \<Longrightarrow> sched_inv (fst (on_packet_received s seq now))"
  by (cases rule: on_packet_received_cases [of s seq now])
    (simp_all add: Let_def sched_inv_track_all)

section \<open>Runs\<close>

text \<open>The operations the receiver interleaves, in any order, and what a run reports.\<close>

datatype SchedOp =
    Received u16 instant
  | Recovered u16
  | Pump instant "duration option"
  | SetDelay duration

fun sched_op :: "NackScheduler \<Rightarrow> SchedOp \<Rightarrow> NackScheduler \<times> u16 list \<times> u16 list" where
  "sched_op s (Received seq now) = (let (s', gaps) = on_packet_received s seq now in (s', gaps, []))"
| "sched_op s (Recovered seq) = (on_packet_recovered s seq, [], [])"
| "sched_op s (Pump now rtt) = (let (s', nacks) = get_pending_nacks s now rtt in (s', [], nacks))"
| "sched_op s (SetDelay d) = (update_base_delay s d, [], [])"

fun sched_run :: "NackScheduler \<Rightarrow> SchedOp list \<Rightarrow> NackScheduler \<times> u16 list \<times> u16 list" where
  "sched_run s [] = (s, [], [])"
| "sched_run s (x # xs) =
     (let (s1, gaps, nacks) = sched_op s x;
          (s2, gaps', nacks') = sched_run s1 xs
      in (s2, gaps @ gaps', nacks @ nacks'))"

lemma sched_op_inv: "sched_inv s \<Longrightarrow> sched_inv (fst (sched_op s x))"
  by (cases x) (simp_all add: split_beta Let_def on_packet_recovered_def update_base_delay_def)

lemma sched_op_retries: "sched_inv s \<Longrightarrow> max_retries (fst (sched_op s x)) = max_retries s"
proof (cases x)
  case (Received seq now)
  assume "sched_inv s"
  with Received show ?thesis
    by (cases rule: on_packet_received_cases [of s seq now])
      (simp_all add: split_beta Let_def sched_inv_track_all deactivate_def)
qed (simp_all add: split_beta Let_def on_packet_recovered_def update_base_delay_def deactivate_def
      get_pending_nacks_eq full_scan_def)

subsection \<open>The counter never under-counts\<close>

definition counted :: "nat \<Rightarrow> NackScheduler \<Rightarrow> bool" where
  "counted n s \<longleftrightarrow> active_slots s \<le> unat (active_count s) \<and> unat (active_count s) \<le> n"

lemma length_filter_update:
  assumes "i < length xs"
  shows "length (filter P (xs[i := v])) + of_bool (P (xs ! i)) = length (filter P xs) + of_bool (P v)"
proof -
  have "length (filter P ys) = sum_list (map (\<lambda>y. of_bool (P y)) ys)" for ys
    by (induction ys) auto
  moreover have "of_bool (P (xs ! i)) \<le> (sum_list (map (\<lambda>y. of_bool (P y)) xs) :: nat)"
    using assms elem_le_sum_list [of i "map (\<lambda>y. of_bool (P y) :: nat) xs"] by simp
  ultimately show ?thesis
    using assms by (simp add: map_update sum_list_update)
qed

lemma counted_track:
  assumes "sched_inv s" "counted n s" "n + 1 < 2 ^ 32"
  shows "counted (n + 1) (fst (track_missing now (s, gs) m))"
proof -
  have "unat (active_count s + 1) = unat (active_count s) + 1"
    using assms by (simp add: counted_def unat_word_ariths)
  moreover have "length (filter active ((nslots s)[ring_index 4096 m := v])) \<le> active_slots s + 1" for v
    using assms(1) length_filter_update [of "ring_index 4096 m" "nslots s" active v]
    by (cases "active v") (simp_all add: active_slots_def)
  ultimately show ?thesis
    using assms by (auto simp: counted_def active_slots_def track_missing_def Let_def intro: le_trans)
qed

text \<open>
  Where the counter over-counts: a missing number that takes over the active slot of another
  number replaces an entry, yet \<open>active_count\<close> grows, and no later step takes the excess back.
\<close>

lemma track_missing_overcounts:
  assumes "sched_inv s" "active (nslots s ! ring_index 4096 m)" "nslot_seq (nslots s ! ring_index 4096 m) \<noteq> m"
  shows "active_slots (fst (track_missing now (s, gs) m)) = active_slots s
    \<and> active_count (fst (track_missing now (s, gs) m)) = active_count s + 1"
  using assms length_filter_update [of "ring_index 4096 m" "nslots s" active
      "\<lparr>nslot_seq = m, active = True, next_nack_at = now + base_delay s, nack_count = 0\<rparr>"]
  by (simp add: track_missing_def active_slots_def Let_def)

lemma counted_track_all:
  assumes "sched_inv s" "counted n s" "n + length ms < 2 ^ 32"
  shows "counted (n + length ms) (fst (foldl (track_missing now) (s, gs) ms))"
  using assms
proof (induction ms arbitrary: s gs n)
  case (Cons m ms)
  have "counted (n + 1 + length ms)
     (fst (foldl (track_missing now) (track_missing now (s, gs) m) ms))"
    using Cons.IH [of "fst (track_missing now (s, gs) m)" "n + 1" "snd (track_missing now (s, gs) m)"]
      Cons.prems counted_track [of s n now gs m] by (simp add: sched_inv_track)
  then show ?case by simp
qed simp

lemma counted_mono: "counted n s \<Longrightarrow> n \<le> m \<Longrightarrow> counted m s"
  by (auto simp: counted_def)

lemma counted_updates [simp]:
  "counted n (s\<lparr>expected_seq := e\<rparr>) = counted n s" "counted n (s\<lparr>scan_lo := l\<rparr>) = counted n s"
  "counted n (s\<lparr>base_delay := d\<rparr>) = counted n s"
  by (simp_all add: counted_def active_slots_def)

lemma counted_deactivate: "sched_inv s \<Longrightarrow> counted n s \<Longrightarrow> counted n (deactivate s m)"
  using length_filter_update [of "ring_index 4096 m" "nslots s" active
      "(nslots s ! ring_index 4096 m)\<lparr>active := False\<rparr>"]
  by (auto simp: counted_def active_slots_def deactivate_def Let_def unat_saturating_dec)

lemma counted_full_scan: "counted n s \<Longrightarrow> counted n (fst (full_scan s now rtt))"
  using filter_active_scan [of now "max_retries s" "case rtt of Some d \<Rightarrow> d | None \<Rightarrow> base_delay s" "nslots s"]
  by (auto simp: counted_def active_slots_def full_scan_def unat_saturating_dec_funpow)

lemma counted_op:
  assumes "sched_inv s" "counted n s" "n + 1000 < 2 ^ 32"
  shows "counted (n + 1000) (fst (sched_op s x))"
proof -
  note wider = counted_mono [OF assms(2), of "n + 1000", simplified]
  show ?thesis
  proof (cases x)
    case (Received seq now)
    show ?thesis
    proof (cases rule: on_packet_received_cases [of s seq now])
      case (gap e ms)
      then have "counted (n + length ms) (fst (foldl (track_missing now) (s, []) ms))"
        using assms by (intro counted_track_all) auto
      then have "counted (n + 1000) (fst (foldl (track_missing now) (s, []) ms))"
        using gap by (elim counted_mono) simp
      with Received gap show ?thesis by (simp add: Let_def)
    qed (use Received assms(1) wider in \<open>simp_all add: counted_deactivate\<close>)
  qed (use assms(1) wider in \<open>simp_all add: split_beta Let_def on_packet_recovered_def
        update_base_delay_def get_pending_nacks_eq counted_full_scan counted_deactivate\<close>)
qed

lemma counted_run:
  assumes "sched_inv s" "counted n s" "n + 1000 * length xs < 2 ^ 32"
  shows "counted (n + 1000 * length xs) (fst (sched_run s xs))"
  using assms
proof (induction xs arbitrary: s n)
  case (Cons x xs)
  have "counted (n + 1000 + 1000 * length xs) (fst (sched_run (fst (sched_op s x)) xs))"
    using Cons.prems by (intro Cons.IH sched_op_inv counted_op) auto
  then show ?case by (simp add: split_beta Let_def add.assoc)
qed simp

lemma pump_is_full_scan:
  assumes "s = fst (sched_run (nack_scheduler_new r d t) ops)" "length ops \<le> 4000000"
  shows "active_slots s \<le> unat (active_count s) \<and> get_pending_nacks s now rtt = full_scan s now rtt"
proof -
  have "counted 0 (nack_scheduler_new r d t)"
    by (simp add: counted_def active_slots_def nack_scheduler_new_def Let_def)
  then have "counted (0 + 1000 * length ops) s"
    unfolding assms(1) using assms(2) by (intro counted_run) auto
  then have "active_slots s \<le> unat (active_count s)" by (simp add: counted_def)
  then show ?thesis by (auto simp: get_pending_nacks_eq full_scan_idle)
qed

text \<open>
  C28: The early return of \<open>get_pending_nacks\<close> on \<open>active_count == 0\<close> never hides a due request:
  after any run of up to four million operations from a fresh scheduler, the counter is at
  least the number of active slots (it can exceed it), and the result and the new state are
  those of the full scan of the ring. Four million operations of at most 1000 new gaps each is
  what the 32-bit counter holds without wrapping.
\<close>

theorem pump_early_return_sound:
  assumes "s = fst (sched_run (nack_scheduler_new r d t) ops)" "length ops \<le> 4000000"
  shows "active_slots s \<le> pending_count s \<and> get_pending_nacks s now rtt = full_scan s now rtt"
  using pump_is_full_scan [OF assms] by (simp add: pending_count_def)

theorem pump_early_return_sound_witness:
  "\<exists>s. s = fst (sched_run (nack_scheduler_new 3 50 0) [Received 10 5, Received 12 6, Recovered 11])
     \<and> active_slots s \<le> pending_count s \<and> get_pending_nacks s 900 None = full_scan s 900 None"
  using pump_early_return_sound
    [of _ 3 50 0 "[Received 10 5, Received 12 6, Recovered 11]" 900 None] by simp

subsection \<open>Requests are bounded by detections\<close>

text \<open>The requests still open for a number: what its slot has left of \<open>max_retries\<close>.\<close>

definition requests_left :: "NackScheduler \<Rightarrow> u16 \<Rightarrow> nat" where
  "requests_left s q =
     (if tracked s q
      then unat (max_retries s) - unat (nack_count (nslots s ! ring_index (ncapacity s) q)) else 0)"

lemma requests_left_updates [simp]:
  "requests_left (s\<lparr>expected_seq := e\<rparr>) q = requests_left s q"
  "requests_left (s\<lparr>scan_lo := l\<rparr>) q = requests_left s q"
  "requests_left (s\<lparr>base_delay := d\<rparr>) q = requests_left s q"
  by (simp_all add: requests_left_def tracked_def)

lemma slot_at_track:
  "sched_inv s \<Longrightarrow> nslots (fst (track_missing now (s, gs) m)) ! ring_index 4096 q =
    (if ring_index 4096 m = ring_index 4096 q \<and> \<not> tracked s m
     then \<lparr>nslot_seq = m, active = True, next_nack_at = now + base_delay s, nack_count = 0\<rparr>
     else nslots s ! ring_index 4096 q)"
  by (cases "ring_index 4096 m = ring_index 4096 q")
    (simp_all add: track_missing_def tracked_def Let_def)

lemma slot_at_deactivate:
  "sched_inv s \<Longrightarrow> q \<noteq> m \<Longrightarrow> tracked s q \<Longrightarrow>
    nslots (deactivate s m) ! ring_index 4096 q = nslots s ! ring_index 4096 q"
  by (cases "ring_index 4096 m = ring_index 4096 q") (auto simp: tracked_def deactivate_def Let_def)

lemma deactivate_keeps [simp]:
  "ncapacity (deactivate s m) = ncapacity s" "max_retries (deactivate s m) = max_retries s"
  by (simp_all add: deactivate_def Let_def)

lemma requests_left_deactivate: "sched_inv s \<Longrightarrow> requests_left (deactivate s m) q \<le> requests_left s q"
  by (simp add: requests_left_def tracked_deactivate slot_at_deactivate)

lemma requests_left_track:
  assumes "sched_inv s"
  shows "requests_left (fst (track_missing now (s, gs) m)) q
    \<le> requests_left s q + unat (max_retries s) * of_bool (m = q \<and> \<not> tracked s m)"
  using assms
  by (cases "m = q") (simp_all add: requests_left_def tracked_track_missing slot_at_track)

lemma requests_left_track_all:
  assumes "sched_inv s"
  shows "requests_left (fst (foldl (track_missing now) (s, gs) ms)) q
      + unat (max_retries s) * count_list gs q
    \<le> requests_left s q + unat (max_retries s) * count_list (snd (foldl (track_missing now) (s, gs) ms)) q"
  using assms
proof (induction ms arbitrary: s gs)
  case (Cons m ms)
  let ?s1 = "fst (track_missing now (s, []) m)" and ?gs1 = "gs @ (if tracked s m then [] else [m])"
  have "requests_left (fst (foldl (track_missing now) (?s1, ?gs1) ms)) q
      + unat (max_retries ?s1) * count_list ?gs1 q
    \<le> requests_left ?s1 q + unat (max_retries ?s1) * count_list (snd (foldl (track_missing now) (?s1, ?gs1) ms)) q"
    by (rule Cons.IH [OF sched_inv_track [OF Cons.prems]])
  moreover note requests_left_track [OF Cons.prems, of now "[]" m q]
  moreover have "count_list ?gs1 q = count_list gs q + of_bool (m = q \<and> \<not> tracked s m)" by simp
  ultimately show ?case
    by (simp only: foldl_Cons track_missing_split [of _ s gs] track_missing_keeps distrib_left)
qed simp

text \<open>A scan reports a number at most once, when the slot of the number is due for it.\<close>

lemma count_list_sort: "count_list (sort ys) q = count_list ys q"
  by (metis count_mset mset_sort)

lemma count_list_map_filter:
  "count_list (map f (filter P xs)) q = length (filter (\<lambda>x. P x \<and> f x = q) xs)"
  by (induction xs) auto

lemma count_due:
  assumes "sched_inv s"
  shows "count_list (sort (map nslot_seq (filter (due now (max_retries s)) (nslots s)))) q =
    of_bool (tracked s q \<and> due now (max_retries s) (nslots s ! ring_index 4096 q))" (is "?c = _")
proof -
  let ?P = "\<lambda>slot. due now (max_retries s) slot \<and> nslot_seq slot = q"
  have "?c = length (filter ?P (nslots s))"
    by (simp add: count_list_sort count_list_map_filter)
  also have "\<dots> = card {i. i < 4096 \<and> ?P (nslots s ! i)}"
    using assms by (simp add: length_filter_conv_card)
  also have "{i. i < 4096 \<and> ?P (nslots s ! i)}
    = (if ?P (nslots s ! ring_index 4096 q) then {ring_index 4096 q} else {})"
    using assms by (auto simp: sched_inv_def slot_ok_def due_def simp del: sched_inv_sizes)
  finally have "?c = of_bool (?P (nslots s ! ring_index 4096 q))" by simp
  also have "?P (nslots s ! ring_index 4096 q) \<longleftrightarrow>
      tracked s q \<and> due now (max_retries s) (nslots s ! ring_index 4096 q)"
    using assms by (auto simp: tracked_def due_def Let_def)
  finally show ?thesis .
qed

lemma requests_left_full_scan:
  assumes "sched_inv s"
  shows "requests_left (fst (full_scan s now rtt)) q + count_list (snd (full_scan s now rtt)) q
    \<le> requests_left s q"
proof -
  let ?slot = "nslots s ! ring_index 4096 q" and ?r = "max_retries s"
  let ?d = "case rtt of Some d \<Rightarrow> d | None \<Rightarrow> base_delay s"
  have at: "nslots (fst (full_scan s now rtt)) ! ring_index 4096 q = slot_after now ?r ?d ?slot"
    using assms by (simp add: full_scan_def)
  have left: "requests_left (fst (full_scan s now rtt)) q =
    (if active (slot_after now ?r ?d ?slot) \<and> nslot_seq (slot_after now ?r ?d ?slot) = q
     then unat ?r - unat (nack_count (slot_after now ?r ?d ?slot)) else 0)"
    using assms at by (simp add: requests_left_def tracked_def full_scan_def Let_def)
  have old: "requests_left s q = (if active ?slot \<and> nslot_seq ?slot = q
     then unat ?r - unat (nack_count ?slot) else 0)"
    using assms by (simp add: requests_left_def tracked_def Let_def)
  have out: "count_list (snd (full_scan s now rtt)) q
      = of_bool (active ?slot \<and> nslot_seq ?slot = q \<and> due now ?r ?slot)"
    using assms count_due [OF assms, of now q] by (simp add: full_scan_def tracked_def Let_def)
  show ?thesis
  proof (cases "due now ?r ?slot")
    case True
    then have "unat (nack_count ?slot + 1) = unat (nack_count ?slot) + 1"
      "unat (nack_count ?slot) < unat ?r"
      using unat_nack_count_step [of ?slot ?r] by (auto simp: due_def word_less_nat_alt)
    with True show ?thesis by (simp add: left old out slot_after_def due_def Suc_diff_Suc)
  next
    case False
    then show ?thesis by (simp add: left old out slot_after_def)
  qed
qed

lemma requests_left_op:
  assumes "sched_inv s" "sched_op s x = (s', gaps, nacks)"
  shows "requests_left s' q + count_list nacks q
    \<le> requests_left s q + unat (max_retries s) * count_list gaps q"
proof (cases x)
  case (Received seq now)
  show ?thesis
  proof (cases rule: on_packet_received_cases [of s seq now])
    case (gap e ms)
    with requests_left_track_all [OF assms(1), of now "[]" ms q] Received assms(2)
    show ?thesis by (auto simp: Let_def)
  qed (use Received assms requests_left_deactivate in auto)
next
  case (Pump now rtt)
  with assms requests_left_full_scan [OF assms(1), of now rtt q] show ?thesis
    by (auto simp: get_pending_nacks_eq split: if_splits prod.splits)
qed (use assms requests_left_deactivate in
    \<open>auto simp: on_packet_recovered_def update_base_delay_def\<close>)

lemma requests_left_run:
  "sched_inv s \<Longrightarrow> sched_run s xs = (s', gaps, nacks) \<Longrightarrow>
    requests_left s' q + count_list nacks q
    \<le> requests_left s q + unat (max_retries s) * count_list gaps q"
proof (induction xs arbitrary: s gaps nacks)
  case (Cons x xs)
  obtain s1 g1 n1 where op: "sched_op s x = (s1, g1, n1)" by (cases "sched_op s x")
  obtain g2 n2 where run: "sched_run s1 xs = (s', g2, n2)" "gaps = g1 @ g2" "nacks = n1 @ n2"
    using Cons.prems(2) op by (auto split: prod.splits)
  have "sched_inv s1" "max_retries s1 = max_retries s"
    using sched_op_inv [of s x] sched_op_retries [of s x] Cons.prems(1) op by simp_all
  with Cons.IH [of s1 g2 n2] requests_left_op [OF Cons.prems(1) op, of q] run show ?case
    by (simp add: distrib_left)
qed simp

text \<open>
  No NACK storm: over any run of arrivals, recoveries, pumps and delay changes from a fresh
  scheduler, in any order and at any times, each sequence number is requested at most
  \<open>max_retries\<close> times for each time it was detected as missing.
\<close>

lemma nack_requests_bounded:
  assumes "sched_run (nack_scheduler_new r d t) ops = (s, gaps, nacks)"
  shows "count_list nacks q \<le> unat r * count_list gaps q"
  using requests_left_run [OF sched_inv_new assms, of q]
  by (simp add: requests_left_def nack_scheduler_new_def Let_def tracked_def)

lemma sched_run_keeps: "sched_inv s \<Longrightarrow> sched_inv (fst (sched_run s ops)) \<and> max_retries (fst (sched_run s ops)) = max_retries s"
  by (induction ops arbitrary: s) (simp_all add: split_beta Let_def sched_op_inv sched_op_retries)

lemma full_scan_slot:
  "sched_inv s \<Longrightarrow> full_scan s now rtt = (s', nacks) \<Longrightarrow> nslots s' ! ring_index 4096 q
    = slot_after now (max_retries s) (case rtt of Some d \<Rightarrow> d | None \<Rightarrow> base_delay s) (nslots s ! ring_index 4096 q)"
  by (auto simp: full_scan_def)

lemma full_scan_reports:
  assumes "sched_inv s" "full_scan s now rtt = (s', nacks)"
  shows "sorted nacks \<and> distinct nacks
    \<and> (\<forall>q. q \<in> set nacks \<longleftrightarrow> tracked s q \<and> due now (max_retries s) (nslots s ! ring_index 4096 q))
    \<and> (\<forall>q. tracked s' q \<longleftrightarrow> tracked s q \<and> \<not> spent now (max_retries s) (nslots s ! ring_index 4096 q))"
proof -
  have nacks: "nacks = sort (map nslot_seq (filter (due now (max_retries s)) (nslots s)))"
    using assms(2) by (simp add: full_scan_def)
  have c: "count_list nacks q = of_bool (tracked s q \<and> due now (max_retries s) (nslots s ! ring_index 4096 q))" for q
    using count_due [OF assms(1)] by (simp add: nacks)
  have mem: "q \<in> set nacks \<longleftrightarrow> count_list nacks q \<noteq> 0" for q by (simp add: count_list_0_iff)
  have "distinct nacks"
    by (simp add: distinct_count_atmost_1 count_mset c mem flip: count_list_0_iff)
  moreover have "tracked s' q \<longleftrightarrow> tracked s q \<and> \<not> spent now (max_retries s) (nslots s ! ring_index 4096 q)" for q
    using assms by (auto simp: full_scan_def tracked_def Let_def active_slot_after)
  moreover have "sorted nacks" by (simp add: nacks)
  ultimately show ?thesis by (simp add: mem c)
qed

text \<open>
  C29: A pump asks for exactly what is due. After any run of up to four million operations of a new
  scheduler with \<open>r\<close> retries, a pump returns, in increasing order and without repetition, the tracked
  numbers whose time has come and that were asked for less than \<open>r\<close> times. It counts the request of
  each, which then is not due before the retry delay (the round-trip time when one is known, else
  the base delay) has passed; it gives up exactly the numbers whose time has come with all their
  retries used; and it leaves every other tracked number as it is.
\<close>

theorem pump_exact:
  assumes "s = fst (sched_run (nack_scheduler_new r d t) ops)" "length ops \<le> 4000000"
    and "get_pending_nacks s now rtt = (s', nacks)"
  shows "sorted nacks \<and> distinct nacks
    \<and> (\<forall>q. q \<in> set nacks \<longleftrightarrow> tracked s q \<and> next_nack_at (nslots s ! ring_index 4096 q) \<le> now
         \<and> nack_count (nslots s ! ring_index 4096 q) < r)
    \<and> (\<forall>q \<in> set nacks. tracked s' q \<and> nack_count (nslots s' ! ring_index 4096 q) = nack_count (nslots s ! ring_index 4096 q) + 1
         \<and> next_nack_at (nslots s' ! ring_index 4096 q) = now + (case rtt of Some d \<Rightarrow> d | None \<Rightarrow> base_delay s))
    \<and> (\<forall>q. tracked s q \<and> q \<notin> set nacks \<longrightarrow>
         (if next_nack_at (nslots s ! ring_index 4096 q) \<le> now then \<not> tracked s' q
          else tracked s' q \<and> nslots s' ! ring_index 4096 q = nslots s ! ring_index 4096 q))
    \<and> (\<forall>q. tracked s' q \<longrightarrow> tracked s q)"
proof -
  have s: "sched_inv s" "max_retries s = r" using sched_run_keeps [of "nack_scheduler_new r d t" ops]
    by (simp_all add: assms(1)) (simp_all add: nack_scheduler_new_def Let_def)
  have full: "full_scan s now rtt = (s', nacks)" using pump_is_full_scan [OF assms(1,2), of now rtt] assms(3) by simp
  note scan = full_scan_reports [OF s(1) full, unfolded s(2)] and slot = full_scan_slot [OF s(1) full, unfolded s(2)]
  have act: "active (nslots s ! ring_index 4096 q)" if "tracked s q" for q using that s(1) by (simp add: tracked_def Let_def)
  have due: "q \<in> set nacks \<longleftrightarrow> tracked s q \<and> next_nack_at (nslots s ! ring_index 4096 q) \<le> now
      \<and> nack_count (nslots s ! ring_index 4096 q) < r" for q using scan act by (auto simp: due_def)
  have kept: "tracked s' q \<longleftrightarrow> tracked s q \<and> \<not> (next_nack_at (nslots s ! ring_index 4096 q) \<le> now \<and> r \<le> nack_count (nslots s ! ring_index 4096 q))"
    for q using scan act by (auto simp: spent_def)
  have "tracked s' q \<and> nack_count (nslots s' ! ring_index 4096 q) = nack_count (nslots s ! ring_index 4096 q) + 1
      \<and> next_nack_at (nslots s' ! ring_index 4096 q) = now + (case rtt of Some d \<Rightarrow> d | None \<Rightarrow> base_delay s)" if "q \<in> set nacks" for q
    using that due [of q] kept [of q] act [of q] by (auto simp: slot slot_after_def due_def not_le)
  moreover have "if next_nack_at (nslots s ! ring_index 4096 q) \<le> now then \<not> tracked s' q
      else tracked s' q \<and> nslots s' ! ring_index 4096 q = nslots s ! ring_index 4096 q" if "tracked s q \<and> q \<notin> set nacks" for q
    using that due [of q] kept [of q] by (auto simp: slot slot_after_def due_def spent_def)
  ultimately show ?thesis using scan due kept by blast
qed

theorem pump_exact_witness:
  "\<exists>s'. get_pending_nacks (fst (sched_run (nack_scheduler_new 1 50 0) [Received 10 0, Received 12 0])) 60 None = (s', [11])
     \<and> nack_count (nslots s' ! ring_index 4096 11) = 1"
proof -
  define s where "s = fst (sched_run (nack_scheduler_new 1 50 0) [Received 10 0, Received 12 0])"
  let ?new = "\<lparr>nslot_seq = 11, active = True, next_nack_at = 50, nack_count = 0\<rparr>"
  have slots: "nslots s = (nslots (nack_scheduler_new 1 50 0))[ring_index 4096 11 := ?new]" "ncapacity s = 4096"
    by (simp_all add: s_def on_packet_received_def track_missing_def nack_scheduler_new_def Let_def)
  have idle: "\<not> active (nslots (nack_scheduler_new 1 50 0) ! ring_index 4096 q)" "length (nslots (nack_scheduler_new 1 50 0)) = 4096" for q
    by (simp_all add: nack_scheduler_new_def Let_def)
  have tracked: "tracked s q \<longleftrightarrow> q = 11" for q
    unfolding tracked_def slots using idle by (cases "ring_index 4096 q = ring_index 4096 11") (auto simp: Let_def)
  have at: "nslots s ! ring_index 4096 11 = ?new" unfolding slots using idle(2) by simp
  obtain s' nacks where p: "get_pending_nacks s 60 None = (s', nacks)" by fastforce
  have len: "length [Received 10 0, Received 12 0] \<le> 4000000" by simp
  note e = pump_exact [OF s_def len p]
  have all: "\<forall>q. q \<in> set nacks \<longleftrightarrow> tracked s q \<and> next_nack_at (nslots s ! ring_index 4096 q) \<le> 60 \<and> nack_count (nslots s ! ring_index 4096 q) < 1"
    and dist: "distinct nacks"
    and step: "\<forall>q \<in> set nacks. nack_count (nslots s' ! ring_index 4096 q) = nack_count (nslots s ! ring_index 4096 q) + 1"
    using e by blast+
  have mem: "q \<in> set nacks \<longleftrightarrow> q = 11" for q using all tracked [of q] at by (cases "q = 11") simp_all
  then have set: "set nacks = {11}" by blast
  then have "length nacks = 1" using distinct_card [OF dist] by simp
  then obtain x where "nacks = [x]" by (auto simp: length_Suc_conv)
  with set have "nacks = [11]" by simp
  moreover have "nack_count (nslots s' ! ring_index 4096 11) = 1" using step mem [of 11] at by simp
  ultimately show ?thesis using p unfolding s_def by blast
qed

end
