(* ===== verification/Rist_Receiver.thy ===== *)
theory Rist_Receiver
  imports Rist_Sender Rist_Reorder Rist_Nack_Scheduler "HOL-Library.Sublist"
begin

text \<open>
  The receiver of \<open>receiver.rs\<close>: one handler per arm of the \<open>select!\<close> loop of the receive task and
  one for an iteration of the delivery thread, on a record of the variables both own. The mutex
  around the reorder buffer makes a burst of inserts and a drain atomic with respect to each
  other, so the two threads are interleaved at the granularity of these handlers. RTCP datagrams
  handed to the socket are appended to \<open>rx_rtcp_sent\<close>, packets accepted by the application channel
  to \<open>delivered\<close>.
\<close>

unbundle bit_operations_syntax

section \<open>State\<close>

definition MAX_UDP_RECV :: nat where [simp]:
  "MAX_UDP_RECV = 2048"

definition MIN_NACK_RETRY_DELAY :: duration where [simp]:
  "MIN_NACK_RETRY_DELAY = 20000000"

definition MAX_BATCH :: nat where [simp]:
  "MAX_BATCH = 32"

record ParsedRtp =
  p_seq :: u16
  p_ssrc :: u32
  p_rtp_ts :: u32
  p_payload :: bytes
  p_arrival_us :: u64
  p_payload_len :: nat
  p_is_retransmit :: bool

text \<open>The slice from \<open>header_size\<close> is within the buffer: parsing has checked the length.\<close>

definition parse_rtp :: "bytes_api \<Rightarrow> bytes \<Rightarrow> instant \<Rightarrow> instant \<Rightarrow> ParsedRtp option" where
  "parse_rtp B buf t_start now =
     (case rtp_header_parse B buf of
        Ok (hdr, header_size) \<Rightarrow>
          Some \<lparr>p_seq = sequence_number hdr, p_ssrc = rtp_ssrc hdr, p_rtp_ts = timestamp hdr,
                p_payload = drop header_size buf, p_arrival_us = of_nat (as_micros (now - t_start)),
                p_payload_len = length buf - header_size, p_is_retransmit = is_retransmit hdr\<rparr>
      | _ \<Rightarrow> None)"

record RistDelivered =
  dl_data :: bytes
  dl_arrival :: instant
  dl_rtp_seq :: u16

record ReceiverState =
  rx_ssrc :: u32
  rx_rtcp_state :: RtcpReceiverState
  nack_scheduler :: NackScheduler
  rx_rtt_estimator :: RttEstimator
  observed_media_ssrc :: "u32 option"
  reorder :: ReorderBuffer
  pinned_source_ip :: "IpAddr option"
  sender_rtp_addr :: "SocketAddr option"
  rtp_peer_live :: "instant option"
  sender_rtcp_addr :: "SocketAddr option"
  rx_rtcp_peer_live :: "instant option"
  rx_epoch :: instant
  rx_rtt_echo :: bool
  rx_stats :: RistConnStats
  rx_rtcp_sent :: "datagram list"
  delivered :: "RistDelivered list"

definition receiver_init ::
  "RistSocketConfig \<Rightarrow> u32 \<Rightarrow> bytes \<Rightarrow> instant \<Rightarrow> instant \<Rightarrow> ReceiverState" where
  "receiver_init config rnd_ssrc local_name sched_clock t_start =
     (let src = rnd_ssrc AND NOT 1;
          name = (case cfg_cname config of Some c \<Rightarrow> c | None \<Rightarrow> local_name)
      in \<lparr>rx_ssrc = src, rx_rtcp_state = receiver_state_new src name (rtcp_interval config),
          nack_scheduler = nack_scheduler_new (max_nack_retries config) MIN_NACK_RETRY_DELAY sched_clock,
          rx_rtt_estimator = rtt_new (rtcp_interval config * 10), observed_media_ssrc = None,
          reorder = reorder_new (buffer_size config),
          pinned_source_ip = map_option sock_ip (remote_addr config),
          sender_rtp_addr = None, rtp_peer_live = None, sender_rtcp_addr = None, rx_rtcp_peer_live = None,
          rx_epoch = t_start, rx_rtt_echo = rtt_echo_enabled config, rx_stats = stats_new,
          rx_rtcp_sent = [], delivered = []\<rparr>)"

section \<open>Media\<close>

text \<open>
  The \<open>try_recv_from\<close> loop: \<open>waiting\<close> is what the socket returns, each datagram with its source and
  the clock when it is read, until nothing more is ready or the bounds on the batch and on the
  datagrams read are met.
\<close>

fun read_burst ::
  "bytes_api \<Rightarrow> instant \<Rightarrow> SocketAddr \<Rightarrow> nat \<Rightarrow> ParsedRtp list \<Rightarrow> (bytes \<times> SocketAddr \<times> instant) list \<Rightarrow> ParsedRtp list" where
  "read_burst B t_start from drained batch [] = batch"
| "read_burst B t_start from drained batch ((dg, src, now) # waiting) =
     (if \<not> (length batch < MAX_BATCH \<and> drained < MAX_BATCH) then batch
      else let drained = drained + 1
           in if src \<noteq> from then read_burst B t_start from drained batch waiting
              else case parse_rtp B (take MAX_UDP_RECV dg) t_start now of
                     Some p \<Rightarrow> read_burst B t_start from drained (batch @ [p]) waiting
                   | None \<Rightarrow> read_burst B t_start from drained batch waiting)"

text \<open>The inserts of a batch under one lock.\<close>

fun insert_batch :: "ReorderBuffer \<Rightarrow> instant \<Rightarrow> ParsedRtp list \<Rightarrow> ReorderBuffer \<times> InsertOutcome list" where
  "insert_batch g now [] = (g, [])"
| "insert_batch g now (p # batch) =
     (let (g, outcome) = reorder_insert g (p_seq p) (p_payload p) now;
          (g, outcomes) = insert_batch g now batch
      in (g, outcome # outcomes))"

text \<open>The accounting of one packet of the batch.\<close>

definition account_packet :: "instant \<Rightarrow> ReceiverState \<Rightarrow> ParsedRtp \<times> InsertOutcome \<Rightarrow> ReceiverState" where
  "account_packet now st po =
     (case po of (p, oc) \<Rightarrow>
        let st = st\<lparr>rx_rtcp_state := receiver_on_packet_received (rx_rtcp_state st) (p_seq p) (p_rtp_ts p)
                                     (p_arrival_us p) (duplicate oc)\<rparr>;
            st = st\<lparr>nack_scheduler := fst (on_packet_received (nack_scheduler st) (p_seq p) now)\<rparr>;
            ss = rx_stats st;
            ss = ss\<lparr>st_packets_received := st_packets_received ss + 1,
                    st_bytes_received := st_bytes_received ss + of_nat (p_payload_len p)\<rparr>;
            ss = (if p_is_retransmit p
                  then ss\<lparr>st_retransmits_received := st_retransmits_received ss + 1\<rparr> else ss);
            ss = (if duplicate oc then ss\<lparr>st_duplicates := st_duplicates ss + 1\<rparr> else ss);
            ss = (if recovered oc then ss\<lparr>st_packets_recovered := st_packets_recovered ss + 1\<rparr> else ss);
            ss = (if stale oc then ss\<lparr>st_reorder_drops := st_reorder_drops ss + 1\<rparr> else ss);
            ss = (if overflow_flushed oc > 0
                  then ss\<lparr>st_packets_lost := st_packets_lost ss + of_nat (overflow_flushed oc)\<rparr> else ss)
        in st\<lparr>rx_stats := ss\<rparr>)"

definition jitter_micros :: "RtcpReceiverState \<Rightarrow> u64" where
  "jitter_micros rst = of_nat (f64_to_nat (2 ^ 64 - 1) (f64_div (f64_mul (jitter rst) 1000000) 90000))"

definition receiver_on_batch :: "ReceiverState \<Rightarrow> ParsedRtp list \<Rightarrow> instant \<Rightarrow> ReceiverState" where
  "receiver_on_batch st batch now =
     (if batch = [] then st
      else let st = st\<lparr>rtp_peer_live := Some now\<rparr>;
               (g, outcomes) = insert_batch (reorder st) now batch;
               st = st\<lparr>reorder := g\<rparr>;
               st = foldl (account_packet now) st (zip batch outcomes)
           in st\<lparr>rx_stats := (rx_stats st)\<lparr>st_jitter_us := jitter_micros (rx_rtcp_state st)\<rparr>\<rparr>)"

text \<open>
  The RTP arm: the first datagram with its source, read at \<open>arrived_at\<close> and parsed at \<open>parsed_at\<close>,
  what else is waiting, and the clock of the inserts.
\<close>

definition receiver_on_rtp ::
  "bytes_api \<Rightarrow> ReceiverState \<Rightarrow> bytes \<Rightarrow> SocketAddr \<Rightarrow> instant \<Rightarrow> instant \<Rightarrow>
   (bytes \<times> SocketAddr \<times> instant) list \<Rightarrow> instant \<Rightarrow> ReceiverState" where
  "receiver_on_rtp B st dg from arrived_at parsed_at waiting now =
     (if \<not> source_allowed from (pinned_source_ip st) (sender_rtp_addr st) (rtp_peer_live st) arrived_at then st
      else let st = (if sender_rtp_addr st \<noteq> Some from
                     then st\<lparr>sender_rtp_addr := Some from, sender_rtcp_addr := Some (rtcp_addr_for from)\<rparr>
                     else st);
               first = parse_rtp B (take MAX_UDP_RECV dg) (rx_epoch st) parsed_at;
               st = (case first of
                       Some p \<Rightarrow> if observed_media_ssrc st = None then st\<lparr>observed_media_ssrc := Some (p_ssrc p)\<rparr> else st
                     | None \<Rightarrow> st);
               batch = (case first of Some p \<Rightarrow> [p] | None \<Rightarrow> []);
               batch = read_burst B (rx_epoch st) from 1 batch waiting
           in receiver_on_batch st batch now)"

section \<open>RTCP from the sender\<close>

text \<open>\<open>Option::max\<close>: \<open>None\<close> is below every \<open>Some\<close>.\<close>

fun option_max :: "instant option \<Rightarrow> instant option \<Rightarrow> instant option" where
  "option_max None b = b"
| "option_max a None = a"
| "option_max (Some a) (Some b) = Some (max a b)"

text \<open>One sub-packet; \<open>now\<close> is the arrival of the datagram, \<open>clock\<close> the time the answer is built.\<close>

definition receiver_on_packet ::
  "bytes_api \<Rightarrow> SocketAddr \<Rightarrow> instant \<Rightarrow> instant \<Rightarrow> ReceiverState \<Rightarrow> RtcpPacket \<Rightarrow> ReceiverState" where
  "receiver_on_packet B from now clock st pkt =
     (case pkt of
        SenderReport sr \<Rightarrow> st\<lparr>rx_rtcp_state := on_sr_received (rx_rtcp_state st) sr now\<rparr>
      | App (RttEchoRequest req) \<Rightarrow>
          st\<lparr>rx_rtcp_sent := rx_rtcp_sent st @ [(from, echo_reply B (rx_ssrc st) req (clock - now))]\<rparr>
      | App (RttEchoResponse resp) \<Rightarrow>
          let est = on_response (rx_rtt_estimator st) now (resp_timestamp_msw resp)
                      (resp_timestamp_lsw resp) (processing_delay_us resp);
              st = st\<lparr>rx_rtt_estimator := est\<rparr>
          in (case srtt est of
                Some rtt \<Rightarrow>
                  let st = st\<lparr>rx_stats := (rx_stats st)\<lparr>st_rtt_us := of_nat (as_micros rtt)\<rparr>\<rparr>;
                      retry = max (rtt div 2) MIN_NACK_RETRY_DELAY
                  in st\<lparr>nack_scheduler := update_base_delay (nack_scheduler st) retry\<rparr>
              | None \<Rightarrow> st)
      | _ \<Rightarrow> st)"

fun receiver_on_packets ::
  "bytes_api \<Rightarrow> SocketAddr \<Rightarrow> instant \<Rightarrow> (nat \<Rightarrow> instant) \<Rightarrow> nat \<Rightarrow> ReceiverState \<Rightarrow> RtcpPacket list \<Rightarrow> ReceiverState" where
  "receiver_on_packets B from now clock i st [] = st"
| "receiver_on_packets B from now clock i st (pkt # pkts) =
     receiver_on_packets B from now clock (i + 1) (receiver_on_packet B from now (clock i) st pkt) pkts"

definition receiver_on_rtcp ::
  "bytes_api \<Rightarrow> (nat \<Rightarrow> instant) \<Rightarrow> ReceiverState \<Rightarrow> bytes \<Rightarrow> SocketAddr \<Rightarrow> instant \<Rightarrow> ReceiverState" where
  "receiver_on_rtcp B clock st dg from now =
     (let live = option_max (rx_rtcp_peer_live st) (rtp_peer_live st)
      in if \<not> source_allowed from (pinned_source_ip st) (sender_rtcp_addr st) live now then st
         else case compound_parse B (take MAX_UDP_RECV dg) of
                Ok compound \<Rightarrow>
                  if packets compound = [] then st
                  else let st = (if sender_rtcp_addr st \<noteq> Some from then st\<lparr>sender_rtcp_addr := Some from\<rparr> else st);
                           st = st\<lparr>rx_rtcp_peer_live := Some now\<rparr>
                       in receiver_on_packets B from now clock 0 st (packets compound)
              | _ \<Rightarrow> st)"

section \<open>Requests and reports\<close>

text \<open>The NACK pump; \<open>sent\<close> is whether the send succeeds.\<close>

definition receiver_on_pump :: "bytes_api \<Rightarrow> bool \<Rightarrow> ReceiverState \<Rightarrow> instant \<Rightarrow> ReceiverState" where
  "receiver_on_pump B sent st now =
     (case sender_rtcp_addr st of
        None \<Rightarrow> st
      | Some rtcp_dest \<Rightarrow>
          let (sched, pending_nacks) = get_pending_nacks (nack_scheduler st) now (srtt (rx_rtt_estimator st));
              st = st\<lparr>nack_scheduler := sched\<rparr>
          in if pending_nacks = [] then st
             else let media_ssrc = (case sender_ssrc (rx_rtcp_state st) of
                                      Some s \<Rightarrow> s
                                    | None \<Rightarrow> (case observed_media_ssrc st of Some s \<Rightarrow> s | None \<Rightarrow> 0));
                      nack_pkt = build_bitmask \<lparr>b_sender_ssrc = rx_ssrc st, b_media_ssrc = media_ssrc\<rparr> pending_nacks;
                      (rst, rr) = generate_rr (rx_rtcp_state st) now;
                      st = st\<lparr>rx_rtcp_state := rst,
                              rx_rtcp_sent := rx_rtcp_sent st
                                @ [(rtcp_dest, compound_serialize B \<lparr>packets = [ReceiverReport rr, Nack nack_pkt]\<rparr>)]\<rparr>
                  in if sent
                     then st\<lparr>rx_stats := (rx_stats st)\<lparr>st_nacks_sent :=
                            st_nacks_sent (rx_stats st) + of_nat (length pending_nacks)\<rparr>\<rparr>
                     else st)"

definition receiver_on_tick :: "bytes_api \<Rightarrow> ReceiverState \<Rightarrow> instant \<Rightarrow> ReceiverState" where
  "receiver_on_tick B st now =
     (case sender_rtcp_addr st of
        None \<Rightarrow> st
      | Some rtcp_dest \<Rightarrow>
          let (rst, rr) = generate_rr (rx_rtcp_state st) now;
              sdes = receiver_generate_sdes rst;
              st = st\<lparr>rx_rtcp_state := rst\<rparr>;
              pkts = [ReceiverReport rr, Sdes sdes];
              (st, pkts) =
                (if rx_rtt_echo st \<and> should_send_request (rx_rtt_estimator st) now
                 then let (est, msw, lsw) = generate_request (rx_rtt_estimator st) now
                      in (st\<lparr>rx_rtt_estimator := est\<rparr>,
                          pkts @ [App (RttEchoRequest \<lparr>req_ssrc = rx_ssrc st, req_timestamp_msw = msw,
                                                       req_timestamp_lsw = lsw\<rparr>)])
                 else (st, pkts))
          in st\<lparr>rx_rtcp_sent := rx_rtcp_sent st @ [(rtcp_dest, compound_serialize B \<lparr>packets = pkts\<rparr>)]\<rparr>)"

section \<open>The delivery thread\<close>

text \<open>What the thread does after a drain that produced nothing.\<close>

datatype DrainWait = Park | WaitFor duration | Again

text \<open>\<open>chan_ok k\<close> says whether the channel takes the \<open>k\<close>-th packet of the iteration; a full channel drops it.\<close>

definition deliver_item :: "(nat \<Rightarrow> bool) \<Rightarrow> ReceiverState \<times> nat \<Rightarrow> DrainItem \<Rightarrow> ReceiverState \<times> nat" where
  "deliver_item chan_ok acc item =
     (case acc of (st, k) \<Rightarrow>
        (case item of
           Delivered data q arrival \<Rightarrow>
             (if chan_ok k
              then st\<lparr>delivered := delivered st @ [\<lparr>dl_data = data, dl_arrival = arrival, dl_rtp_seq = q\<rparr>]\<rparr>
              else st\<lparr>rx_stats := (rx_stats st)\<lparr>st_reorder_drops := st_reorder_drops (rx_stats st) + 1\<rparr>\<rparr>, k + 1)
         | Lost \<Rightarrow> (st\<lparr>rx_stats := (rx_stats st)\<lparr>st_packets_lost := st_packets_lost (rx_stats st) + 1\<rparr>\<rparr>, k)))"

text \<open>
  One iteration of \<open>run_drain_thread\<close>: the drain at \<open>now\<close>, then either the deliveries or the wait,
  for which the clock is read again (\<open>now2\<close>).
\<close>

definition drain_iteration ::
  "(nat \<Rightarrow> bool) \<Rightarrow> ReceiverState \<Rightarrow> instant \<Rightarrow> instant \<Rightarrow> instant \<Rightarrow> ReceiverState \<times> DrainWait" where
  "drain_iteration chan_ok st now deadline_clock now2 =
     (let (guard, scratch) = drain_ready (reorder st) now;
          st = st\<lparr>reorder := guard\<rparr>
      in if scratch = []
         then (st, case next_drain_time guard deadline_clock of
                     None \<Rightarrow> Park
                   | Some deadline \<Rightarrow> if deadline > now2 then WaitFor (deadline - now2) else Again)
         else (fst (foldl (deliver_item chan_ok) (st, 0) scratch), Again))"

section \<open>Runs\<close>

text \<open>
  One turn of the receive task or of the delivery thread: a media datagram with what is waiting
  behind it, an RTCP datagram, the NACK pump, the report timer, an iteration of the thread.
\<close>

datatype ReceiverEvent =
    RtpIn bytes SocketAddr instant instant "(bytes \<times> SocketAddr \<times> instant) list" instant
  | RtcpIn bytes SocketAddr instant "nat \<Rightarrow> instant"
  | PumpTick instant bool
  | RxTick instant
  | DrainTurn "nat \<Rightarrow> bool" instant instant instant

fun receiver_step :: "bytes_api \<Rightarrow> ReceiverState \<Rightarrow> ReceiverEvent \<Rightarrow> ReceiverState" where
  "receiver_step B st (RtpIn dg from arrived_at parsed_at waiting now) =
     receiver_on_rtp B st dg from arrived_at parsed_at waiting now"
| "receiver_step B st (RtcpIn dg from now clock) = receiver_on_rtcp B clock st dg from now"
| "receiver_step B st (PumpTick now sent) = receiver_on_pump B sent st now"
| "receiver_step B st (RxTick now) = receiver_on_tick B st now"
| "receiver_step B st (DrainTurn chan_ok now clock now2) = fst (drain_iteration chan_ok st now clock now2)"

definition receiver_run :: "bytes_api \<Rightarrow> ReceiverState \<Rightarrow> ReceiverEvent list \<Rightarrow> ReceiverState" where
  "receiver_run B st evs = foldl (receiver_step B) st evs"

lemma receiver_run_simps [simp]:
  "receiver_run B st [] = st" "receiver_run B st (ev # evs) = receiver_run B (receiver_step B st ev) evs"
  by (simp_all add: receiver_run_def)

section \<open>The burst\<close>

text \<open>The loop reads at most 31 more datagrams and keeps those of the admitted source that decode.\<close>

lemma read_burst_eq:
  assumes "length batch \<le> drained"
  shows "read_burst B t0 from drained batch waiting =
    batch @ List.map_filter (\<lambda>(dg, src, now). if src = from then parse_rtp B (take MAX_UDP_RECV dg) t0 now else None)
      (take (MAX_BATCH - drained) waiting)"
  using assms
proof (induction B t0 "from" drained batch waiting rule: read_burst.induct)
  case (2 B t0 a drained batch dg src now waiting)
  show ?case
  proof (cases "drained < MAX_BATCH")
    case False
    then show ?thesis by (simp add: List.map_filter_def)
  next
    case True
    then have n: "MAX_BATCH - drained = Suc (MAX_BATCH - (drained + 1))" by simp
    from True 2 show ?thesis unfolding n
      by (cases "parse_rtp B (take MAX_UDP_RECV dg) t0 now") (auto simp: List.map_filter_def Let_def)
  qed
qed (simp add: List.map_filter_def)

lemma length_map_filter_le: "length (List.map_filter f xs) \<le> length xs"
  by (simp add: List.map_filter_def)

lemma read_burst_bounded:
  assumes "length batch \<le> 1"
  shows "length (read_burst B t0 from 1 batch waiting) \<le> MAX_BATCH"
proof -
  have "length (read_burst B t0 from 1 batch waiting) \<le> length batch + length (take (MAX_BATCH - 1) waiting)"
    unfolding read_burst_eq [OF assms] length_append by (intro add_left_mono length_map_filter_le)
  also have "\<dots> \<le> 1 + (MAX_BATCH - 1)" using assms by (intro add_mono) simp_all
  finally show ?thesis by simp
qed

section \<open>What each handler leaves alone\<close>

definition rtp_batch ::
  "bytes_api \<Rightarrow> ReceiverState \<Rightarrow> bytes \<Rightarrow> SocketAddr \<Rightarrow> instant \<Rightarrow> (bytes \<times> SocketAddr \<times> instant) list \<Rightarrow> ParsedRtp list" where
  "rtp_batch B st dg from parsed_at waiting =
     read_burst B (rx_epoch st) from 1
       (case parse_rtp B (take MAX_UDP_RECV dg) (rx_epoch st) parsed_at of Some p \<Rightarrow> [p] | None \<Rightarrow> []) waiting"

lemma account_frame:
  "reorder (foldl (account_packet now) st xs) = reorder st"
  "delivered (foldl (account_packet now) st xs) = delivered st"
  "pinned_source_ip (foldl (account_packet now) st xs) = pinned_source_ip st"
  "rx_epoch (foldl (account_packet now) st xs) = rx_epoch st"
  "sender_rtp_addr (foldl (account_packet now) st xs) = sender_rtp_addr st"
  "sender_rtcp_addr (foldl (account_packet now) st xs) = sender_rtcp_addr st"
  "rtp_peer_live (foldl (account_packet now) st xs) = rtp_peer_live st"
  "rx_rtcp_peer_live (foldl (account_packet now) st xs) = rx_rtcp_peer_live st"
  "observed_media_ssrc (foldl (account_packet now) st xs) = observed_media_ssrc st"
  "rx_rtcp_sent (foldl (account_packet now) st xs) = rx_rtcp_sent st"
  "rx_ssrc (foldl (account_packet now) st xs) = rx_ssrc st"
  "rx_rtt_estimator (foldl (account_packet now) st xs) = rx_rtt_estimator st"
  by (induction xs arbitrary: st) (simp_all add: account_packet_def Let_def split: prod.splits)

lemma receiver_on_batch_frame:
  "reorder (receiver_on_batch st batch now) = fst (insert_batch (reorder st) now batch)"
  "delivered (receiver_on_batch st batch now) = delivered st"
  "pinned_source_ip (receiver_on_batch st batch now) = pinned_source_ip st"
  "rx_epoch (receiver_on_batch st batch now) = rx_epoch st"
  "sender_rtp_addr (receiver_on_batch st batch now) = sender_rtp_addr st"
  "sender_rtcp_addr (receiver_on_batch st batch now) = sender_rtcp_addr st"
  "rtp_peer_live (receiver_on_batch st batch now) = (if batch = [] then rtp_peer_live st else Some now)"
  "rx_rtcp_peer_live (receiver_on_batch st batch now) = rx_rtcp_peer_live st"
  "observed_media_ssrc (receiver_on_batch st batch now) = observed_media_ssrc st"
  "rx_rtcp_sent (receiver_on_batch st batch now) = rx_rtcp_sent st"
  "rx_ssrc (receiver_on_batch st batch now) = rx_ssrc st"
  "rx_rtt_estimator (receiver_on_batch st batch now) = rx_rtt_estimator st"
  by (simp_all add: receiver_on_batch_def Let_def account_frame split: prod.splits)

lemma receiver_on_rtp_frame:
  "reorder (receiver_on_rtp B st dg from a p w now) =
     (if source_allowed from (pinned_source_ip st) (sender_rtp_addr st) (rtp_peer_live st) a
      then fst (insert_batch (reorder st) now (rtp_batch B st dg from p w)) else reorder st)"
  "delivered (receiver_on_rtp B st dg from a p w now) = delivered st"
  "pinned_source_ip (receiver_on_rtp B st dg from a p w now) = pinned_source_ip st"
  "rx_epoch (receiver_on_rtp B st dg from a p w now) = rx_epoch st"
  "rx_ssrc (receiver_on_rtp B st dg from a p w now) = rx_ssrc st"
  "rx_rtcp_sent (receiver_on_rtp B st dg from a p w now) = rx_rtcp_sent st"
  by (simp_all add: receiver_on_rtp_def rtp_batch_def Let_def receiver_on_batch_frame split: option.splits)

text \<open>An admitted burst is handled as one batch, on a state that differs only in what was learned of the source.\<close>

lemma receiver_on_rtp_as_batch:
  assumes "source_allowed a (pinned_source_ip st) (sender_rtp_addr st) (rtp_peer_live st) t1"
  obtains st1 where "receiver_on_rtp B st dg a t1 t2 w now = receiver_on_batch st1 (rtp_batch B st dg a t2 w) now"
    "reorder st1 = reorder st" "rx_stats st1 = rx_stats st" "delivered st1 = delivered st"
    "nack_scheduler st1 = nack_scheduler st"
proof -
  define st0 where "st0 = (if sender_rtp_addr st \<noteq> Some a
    then st\<lparr>sender_rtp_addr := Some a, sender_rtcp_addr := Some (rtcp_addr_for a)\<rparr> else st)"
  define st1 where "st1 = (case parse_rtp B (take MAX_UDP_RECV dg) (rx_epoch st) t2 of
      Some p \<Rightarrow> if observed_media_ssrc st0 = None then st0\<lparr>observed_media_ssrc := Some (p_ssrc p)\<rparr> else st0
    | None \<Rightarrow> st0)"
  have ep: "rx_epoch st0 = rx_epoch st" "rx_epoch st1 = rx_epoch st"
    by (simp_all add: st1_def st0_def split: option.splits)
  have "receiver_on_rtp B st dg a t1 t2 w now = receiver_on_batch st1 (rtp_batch B st dg a t2 w) now"
    using assms ep unfolding receiver_on_rtp_def rtp_batch_def Let_def st0_def [symmetric]
    by (simp only: st1_def [symmetric] if_True if_False not_True_eq_False)
  moreover have "reorder st1 = reorder st" "rx_stats st1 = rx_stats st" "delivered st1 = delivered st"
    "nack_scheduler st1 = nack_scheduler st"
    by (simp_all add: st1_def st0_def split: option.splits)
  ultimately show ?thesis using that by blast
qed

lemma receiver_on_packet_frame:
  "reorder (receiver_on_packet B from now clock st pkt) = reorder st"
  "delivered (receiver_on_packet B from now clock st pkt) = delivered st"
  "pinned_source_ip (receiver_on_packet B from now clock st pkt) = pinned_source_ip st"
  "rx_epoch (receiver_on_packet B from now clock st pkt) = rx_epoch st"
  "rx_ssrc (receiver_on_packet B from now clock st pkt) = rx_ssrc st"
  "sender_rtp_addr (receiver_on_packet B from now clock st pkt) = sender_rtp_addr st"
  "sender_rtcp_addr (receiver_on_packet B from now clock st pkt) = sender_rtcp_addr st"
  "rtp_peer_live (receiver_on_packet B from now clock st pkt) = rtp_peer_live st"
  "observed_media_ssrc (receiver_on_packet B from now clock st pkt) = observed_media_ssrc st"
  by (simp_all add: receiver_on_packet_def Let_def split: RtcpPacket.splits RistApp.splits option.splits)

lemma receiver_on_packets_frame:
  "reorder (receiver_on_packets B from now clock i st pkts) = reorder st"
  "delivered (receiver_on_packets B from now clock i st pkts) = delivered st"
  "pinned_source_ip (receiver_on_packets B from now clock i st pkts) = pinned_source_ip st"
  "rx_epoch (receiver_on_packets B from now clock i st pkts) = rx_epoch st"
  "rx_ssrc (receiver_on_packets B from now clock i st pkts) = rx_ssrc st"
  "sender_rtp_addr (receiver_on_packets B from now clock i st pkts) = sender_rtp_addr st"
  "sender_rtcp_addr (receiver_on_packets B from now clock i st pkts) = sender_rtcp_addr st"
  "rtp_peer_live (receiver_on_packets B from now clock i st pkts) = rtp_peer_live st"
  "observed_media_ssrc (receiver_on_packets B from now clock i st pkts) = observed_media_ssrc st"
  by (induction pkts arbitrary: i st) (simp_all add: receiver_on_packet_frame)

lemma receiver_on_rtcp_frame:
  "reorder (receiver_on_rtcp B clock st dg from now) = reorder st"
  "delivered (receiver_on_rtcp B clock st dg from now) = delivered st"
  "pinned_source_ip (receiver_on_rtcp B clock st dg from now) = pinned_source_ip st"
  "rx_epoch (receiver_on_rtcp B clock st dg from now) = rx_epoch st"
  "rx_ssrc (receiver_on_rtcp B clock st dg from now) = rx_ssrc st"
  "sender_rtp_addr (receiver_on_rtcp B clock st dg from now) = sender_rtp_addr st"
  by (simp_all add: receiver_on_rtcp_def Let_def receiver_on_packets_frame split: res.splits)

lemma receiver_on_pump_frame:
  "reorder (receiver_on_pump B sent st now) = reorder st"
  "delivered (receiver_on_pump B sent st now) = delivered st"
  "pinned_source_ip (receiver_on_pump B sent st now) = pinned_source_ip st"
  "rx_epoch (receiver_on_pump B sent st now) = rx_epoch st"
  "rx_ssrc (receiver_on_pump B sent st now) = rx_ssrc st"
  by (simp_all add: receiver_on_pump_def Let_def split_beta split: option.splits)

lemma receiver_on_tick_frame:
  "reorder (receiver_on_tick B st now) = reorder st"
  "delivered (receiver_on_tick B st now) = delivered st"
  "pinned_source_ip (receiver_on_tick B st now) = pinned_source_ip st"
  "rx_epoch (receiver_on_tick B st now) = rx_epoch st"
  "rx_ssrc (receiver_on_tick B st now) = rx_ssrc st"
  by (simp_all add: receiver_on_tick_def Let_def split_beta split: option.splits)

lemma deliver_items_frame:
  "reorder (fst (foldl (deliver_item ok) (st, k) items)) = reorder st"
  "pinned_source_ip (fst (foldl (deliver_item ok) (st, k) items)) = pinned_source_ip st"
  "rx_epoch (fst (foldl (deliver_item ok) (st, k) items)) = rx_epoch st"
  "rx_ssrc (fst (foldl (deliver_item ok) (st, k) items)) = rx_ssrc st"
  by (induction items arbitrary: st k) (simp_all add: deliver_item_def split: DrainItem.splits)

lemma drain_iteration_frame:
  "reorder (fst (drain_iteration ok st now c now2)) = fst (drain_ready (reorder st) now)"
  "pinned_source_ip (fst (drain_iteration ok st now c now2)) = pinned_source_ip st"
  "rx_epoch (fst (drain_iteration ok st now c now2)) = rx_epoch st"
  "rx_ssrc (fst (drain_iteration ok st now c now2)) = rx_ssrc st"
  by (simp_all add: drain_iteration_def Let_def split_beta deliver_items_frame)

lemmas receiver_frames = receiver_on_rtp_frame receiver_on_rtcp_frame receiver_on_pump_frame
  receiver_on_tick_frame drain_iteration_frame

lemma receiver_step_frame:
  "pinned_source_ip (receiver_step B st ev) = pinned_source_ip st"
  "rx_epoch (receiver_step B st ev) = rx_epoch st" "rx_ssrc (receiver_step B st ev) = rx_ssrc st"
  by (cases ev; simp add: receiver_frames)+

section \<open>A pinned receiver\<close>

text \<open>
  The part of an event the pinned host causes: datagrams from elsewhere are dropped, as is what
  waits behind an admitted datagram and comes from another socket. Timers and the delivery
  thread stay.
\<close>

fun own_event :: "IpAddr \<Rightarrow> ReceiverEvent \<Rightarrow> ReceiverEvent option" where
  "own_event ip (RtpIn dg from arrived_at parsed_at waiting now) =
     (if sock_ip from = ip
      then Some (RtpIn dg from arrived_at parsed_at
             (filter (\<lambda>(_, src, _). src = from) (take (MAX_BATCH - 1) waiting)) now)
      else None)"
| "own_event ip (RtcpIn dg from now clock) = (if sock_ip from = ip then Some (RtcpIn dg from now clock) else None)"
| "own_event ip ev = Some ev"

lemma map_filter_own:
  "List.map_filter (\<lambda>(dg, src, now). if src = a then f dg now else None) (filter (\<lambda>(_, src, _). src = a) xs)
   = List.map_filter (\<lambda>(dg, src, now). if src = a then f dg now else None) xs"
  by (induction xs) (auto simp: List.map_filter_simps split: option.splits if_splits)

lemma rtp_batch_own:
  "rtp_batch B st dg a t (filter (\<lambda>(_, src, _). src = a) (take (MAX_BATCH - 1) waiting)) = rtp_batch B st dg a t waiting"
proof -
  have len: "length (case parse_rtp B (take MAX_UDP_RECV dg) (rx_epoch st) t of Some p \<Rightarrow> [p] | None \<Rightarrow> []) \<le> 1"
    by (simp split: option.splits)
  have "length (filter P (take n xs)) \<le> n" for P n and xs :: "(bytes \<times> SocketAddr \<times> instant) list"
    by (rule le_trans [OF length_filter_le]) simp
  then show ?thesis by (simp only: rtp_batch_def read_burst_eq [OF len] map_filter_own take_all)
qed

lemma receiver_on_rtp_batch:
  "receiver_on_rtp B st dg a t1 t2 w now = receiver_on_rtp B st dg a t1 t2 w' now"
  if "rtp_batch B st dg a t2 w = rtp_batch B st dg a t2 w'"
  using that by (cases "parse_rtp B (take MAX_UDP_RECV dg) (rx_epoch st) t2")
    (simp_all add: receiver_on_rtp_def rtp_batch_def Let_def)

lemma own_event_step:
  assumes "pinned_source_ip st = Some ip"
  shows "receiver_step B st ev = (case own_event ip ev of Some ev' \<Rightarrow> receiver_step B st ev' | None \<Rightarrow> st)"
proof (cases ev)
  case (RtpIn dg a t1 t2 w now)
  have "receiver_on_rtp B st dg a t1 t2 w now
      = receiver_on_rtp B st dg a t1 t2 (filter (\<lambda>(_, src, _). src = a) (take (MAX_BATCH - 1) w)) now"
    by (rule receiver_on_rtp_batch) (rule rtp_batch_own [symmetric])
  with RtpIn assms show ?thesis
    by (cases "sock_ip a = ip") (simp_all add: receiver_on_rtp_def [of B st dg a] source_allowed_def del: MAX_BATCH_def)
next
  case (RtcpIn dg a now clock)
  with assms show ?thesis by (simp add: receiver_on_rtcp_def source_allowed_def Let_def)
qed simp_all

text \<open>
  C8: A pinned receiver is deaf to every other host. When the configuration names the sender, a
  run of the receiver ends in exactly the state of the run without the datagrams of other hosts,
  whatever they contain and however they are interleaved, also when they arrive in the middle
  of a burst: counters, reports, requests, buffered and delivered packets are the same.
\<close>

theorem pinned_receiver_ignores_others:
  assumes "pinned_source_ip st = Some ip"
  shows "receiver_run B st evs = receiver_run B st (List.map_filter (own_event ip) evs)"
  using assms
proof (induction evs arbitrary: st)
  case Nil
  show ?case by (simp add: List.map_filter_def)
next
  case (Cons ev evs)
  have "pinned_source_ip (receiver_step B st ev) = Some ip" using Cons.prems by (simp add: receiver_step_frame)
  with Cons own_event_step [OF Cons.prems, of B ev] show ?case
    by (cases "own_event ip ev") (simp_all add: List.map_filter_simps)
qed

theorem pinned_receiver_ignores_others_witness:
  "receiver_run be_bytes_api (receiver_init (config_default\<lparr>remote_addr := Some (SocketV4 1 5000)\<rparr>) 3 [] 0 0)
     [RtpIn [0x80, 33, 0, 1] (SocketV4 2 5000) 5 5 [] 5, RxTick 9]
   = receiver_run be_bytes_api (receiver_init (config_default\<lparr>remote_addr := Some (SocketV4 1 5000)\<rparr>) 3 [] 0 0)
     [RxTick 9]"
  using pinned_receiver_ignores_others
    [of "receiver_init (config_default\<lparr>remote_addr := Some (SocketV4 1 5000)\<rparr>) 3 [] 0 0" "IpV4 1" be_bytes_api
        "[RtpIn [0x80, 33, 0, 1] (SocketV4 2 5000) 5 5 [] 5, RxTick 9]"]
  by (simp add: receiver_init_def Let_def List.map_filter_simps)

section \<open>The reorder buffer of a run\<close>

text \<open>The operations a run performs on the reorder buffer.\<close>

fun event_ops :: "bytes_api \<Rightarrow> ReceiverState \<Rightarrow> ReceiverEvent \<Rightarrow> ReorderOp list" where
  "event_ops B st (RtpIn dg from arrived_at parsed_at waiting now) =
     (if source_allowed from (pinned_source_ip st) (sender_rtp_addr st) (rtp_peer_live st) arrived_at
      then map (\<lambda>p. Ins (p_seq p) (p_payload p) now) (rtp_batch B st dg from parsed_at waiting) else [])"
| "event_ops B st (DrainTurn chan_ok now clock now2) = [Drain now]"
| "event_ops B st _ = []"

fun rx_ops :: "bytes_api \<Rightarrow> ReceiverState \<Rightarrow> ReceiverEvent list \<Rightarrow> ReorderOp list" where
  "rx_ops B st [] = []"
| "rx_ops B st (ev # evs) = event_ops B st ev @ rx_ops B (receiver_step B st ev) evs"

definition as_item :: "RistDelivered \<Rightarrow> DrainItem" where
  "as_item d = Delivered (dl_data d) (dl_rtp_seq d) (dl_arrival d)"

lemma insert_batch_run:
  "reorder_run g (map (\<lambda>p. Ins (p_seq p) (p_payload p) now) batch) = (fst (insert_batch g now batch), [])"
  by (induction batch arbitrary: g) (simp_all add: split_beta Let_def)

lemma delivered_items:
  "\<exists>ds. delivered (fst (foldl (deliver_item ok) (st, k) items)) = delivered st @ ds \<and> subseq (map as_item ds) items
     \<and> ((\<forall>k. ok k) \<longrightarrow> map as_item ds = filter (\<lambda>x. x \<noteq> Lost) items)"
proof (induction items arbitrary: st k)
  case (Cons x items)
  show ?case
  proof (cases x)
    case (Delivered d q t)
    let ?p = "\<lparr>dl_data = d, dl_arrival = t, dl_rtp_seq = q\<rparr>"
    have item: "as_item ?p = Delivered d q t" by (simp add: as_item_def)
    obtain st1 where st1: "deliver_item ok (st, k) x = (st1, k + 1)"
      "delivered st1 = delivered st @ (if ok k then [?p] else [])"
      using Delivered by (simp add: deliver_item_def)
    from Cons [of st1 "k + 1"] obtain ds where
      "delivered (fst (foldl (deliver_item ok) (st1, k + 1) items)) = delivered st1 @ ds"
      "subseq (map as_item ds) items" "(\<forall>k. ok k) \<longrightarrow> map as_item ds = filter (\<lambda>x. x \<noteq> Lost) items" by blast
    with st1 Delivered show ?thesis
      by (intro exI [of _ "(if ok k then [?p] else []) @ ds"]) (auto simp: item)
  next
    case Lost
    obtain st1 where "deliver_item ok (st, k) x = (st1, k)" "delivered st1 = delivered st"
      using Lost by (simp add: deliver_item_def)
    with Cons [of st1 k] Lost show ?thesis by (auto intro: list_emb_Cons)
  qed
qed simp

lemma event_ops_run:
  "\<exists>ds. reorder_run (reorder st) (event_ops B st ev) = (reorder (receiver_step B st ev), snd (reorder_run (reorder st) (event_ops B st ev)))
     \<and> delivered (receiver_step B st ev) = delivered st @ ds
     \<and> subseq (map as_item ds) (snd (reorder_run (reorder st) (event_ops B st ev)))"
proof (cases ev)
  case (RtpIn dg a t1 t2 w now)
  then show ?thesis by (auto simp: receiver_on_rtp_frame insert_batch_run)
next
  case (DrainTurn ok now c now2)
  obtain g items where d: "drain_ready (reorder st) now = (g, items)" by force
  have "delivered (fst (drain_iteration ok st now c now2))
      = delivered (fst (foldl (deliver_item ok) (st\<lparr>reorder := g\<rparr>, 0) items))"
    by (simp add: drain_iteration_def d Let_def)
  with delivered_items [of ok "st\<lparr>reorder := g\<rparr>" 0 items] DrainTurn d show ?thesis
    by (auto simp: drain_iteration_frame)
qed (simp_all add: receiver_frames)

text \<open>The receiver's buffer and deliveries are those of the operations of the run.\<close>

lemma rx_ops_run:
  "reorder (receiver_run B st evs) = fst (reorder_run (reorder st) (rx_ops B st evs))
   \<and> (\<exists>ds. delivered (receiver_run B st evs) = delivered st @ ds
        \<and> subseq (map as_item ds) (snd (reorder_run (reorder st) (rx_ops B st evs))))"
proof (induction evs arbitrary: st)
  case (Cons ev evs)
  obtain ds items where 1: "reorder_run (reorder st) (event_ops B st ev) = (reorder (receiver_step B st ev), items)"
    "delivered (receiver_step B st ev) = delivered st @ ds" "subseq (map as_item ds) items"
    using event_ops_run [of st B ev] by auto
  from Cons [of "receiver_step B st ev"] obtain ds' where
    2: "reorder (receiver_run B st (ev # evs))
        = fst (reorder_run (reorder (receiver_step B st ev)) (rx_ops B (receiver_step B st ev) evs))"
    "delivered (receiver_run B st (ev # evs)) = delivered st @ ds @ ds'"
    "subseq (map as_item ds') (snd (reorder_run (reorder (receiver_step B st ev)) (rx_ops B (receiver_step B st ev) evs)))"
    using 1(2) by auto
  have "subseq (map as_item (ds @ ds')) (items @ snd (reorder_run (reorder (receiver_step B st ev)) (rx_ops B (receiver_step B st ev) evs)))"
    using list_emb_append_mono [OF 1(3) 2(3)] by simp
  with 1(1) 2 show ?case by (auto simp: reorder_run_append split_beta Let_def)
qed simp

section \<open>In-order delivery to the application\<close>

lemma subseq_indices:
  assumes "subseq xs ys"
  shows "\<exists>js. length js = length xs \<and> sorted_wrt (<) js \<and> (\<forall>n < length xs. js ! n < length ys \<and> ys ! (js ! n) = xs ! n)"
  using assms
proof induction
  case (list_emb_Cons xs ys y)
  then obtain js where js: "length js = length xs" "sorted_wrt (<) js"
    "\<forall>n < length xs. js ! n < length ys \<and> ys ! (js ! n) = xs ! n" by blast
  then show ?case by (intro exI [of _ "map Suc js"]) (simp add: sorted_wrt_map)
next
  case (list_emb_Cons2 x y xs ys)
  then obtain js where js: "length js = length xs" "sorted_wrt (<) js"
    "\<forall>n < length xs. js ! n < length ys \<and> ys ! (js ! n) = xs ! n" by blast
  with list_emb_Cons2 show ?case
    by (intro exI [of _ "0 # map Suc js"]) (auto simp: sorted_wrt_map nth_Cons split: nat.splits)
qed simp

fun is_drain :: "ReorderOp \<Rightarrow> bool" where
  "is_drain (Drain _) = True"
| "is_drain _ = False"

lemma drain_new: "drain_ready (reorder_new hold) now = (reorder_new hold, [])"
  by (subst drain_ready.simps) (simp add: reorder_new_def with_capacity_def Let_def)

text \<open>Drains before the first packet do nothing.\<close>

lemma leading_drains:
  "reorder_run (reorder_new hold) ops = reorder_run (reorder_new hold) (dropWhile is_drain ops)
   \<and> run_fits (reorder_new hold) ops = run_fits (reorder_new hold) (dropWhile is_drain ops)"
proof (induction ops)
  case (Cons x ops)
  then show ?case by (cases x) (simp_all add: drain_new reorder_new_inv)
qed simp

lemma run_items_in_order:
  assumes "run_fits (reorder_new hold) ops" "reorder_run (reorder_new hold) ops = (s, items)"
  shows "\<exists>b. \<forall>j < length items. items ! j = Lost
    \<or> (\<exists>d t. items ! j = Delivered d (b + of_nat j) t \<and> Ins (b + of_nat j) d t \<in> set ops)"
proof (cases "dropWhile is_drain ops")
  case Nil
  with assms leading_drains [of hold ops] show ?thesis by simp
next
  case (Cons x rest)
  then have "\<not> is_drain x" by (metis hd_dropWhile list.distinct(1) list.sel(1))
  then obtain b d0 t0 where x: "x = Ins b d0 t0" by (cases x) auto
  have sub: "set (Ins b d0 t0 # rest) \<subseteq> set ops" using Cons x by (metis set_dropWhileD subsetI)
  have "run_fits (with_capacity hold 8192) (Ins b d0 t0 # rest)"
    "reorder_run (with_capacity hold 8192) (Ins b d0 t0 # rest) = (s, items)"
    using assms leading_drains [of hold ops] Cons x by (simp_all add: reorder_new_def)
  from drained_items_in_order [OF _ this] have "items ! j = Lost
      \<or> (\<exists>d t. items ! j = Delivered d (b + of_nat j) t \<and> Ins (b + of_nat j) d t \<in> set (Ins b d0 t0 # rest))"
    if "j < length items" for j using that by simp
  with sub show ?thesis by blast
qed

text \<open>The media datagrams an event list brings, and where an inserted packet comes from.\<close>

fun rtp_datagrams :: "ReceiverEvent \<Rightarrow> bytes list" where
  "rtp_datagrams (RtpIn dg from arrived_at parsed_at waiting now) = dg # map fst waiting"
| "rtp_datagrams _ = []"

lemma parse_rtp_Some:
  "parse_rtp B buf t0 now = Some p \<Longrightarrow> \<exists>h n. rtp_header_parse B buf = Ok (h, n) \<and> p_seq p = sequence_number h
     \<and> p_payload p = drop n buf \<and> p_is_retransmit p = is_retransmit h \<and> p_ssrc p = rtp_ssrc h"
  by (auto simp: parse_rtp_def split: res.splits)

lemma rtp_batch_origin:
  assumes "p \<in> set (rtp_batch B st dg a t w)"
  shows "\<exists>d \<in> set (dg # map fst w). \<exists>h n. rtp_header_parse B (take MAX_UDP_RECV d) = Ok (h, n)
    \<and> p_seq p = sequence_number h \<and> p_payload p = drop n (take MAX_UDP_RECV d)"
proof -
  let ?first = "case parse_rtp B (take MAX_UDP_RECV dg) (rx_epoch st) t of Some p \<Rightarrow> [p] | None \<Rightarrow> []"
  have len: "length ?first \<le> 1" by (simp split: option.splits)
  consider "p \<in> set ?first" | x where "x \<in> set w"
    "(case x of (dg, src, now) \<Rightarrow> if src = a then parse_rtp B (take MAX_UDP_RECV dg) (rx_epoch st) now else None) = Some p"
    using assms unfolding rtp_batch_def read_burst_eq [OF len] List.map_filter_def
    by (auto dest: in_set_takeD)
  then obtain d t' where "d \<in> set (dg # map fst w)" "parse_rtp B (take MAX_UDP_RECV d) (rx_epoch st) t' = Some p"
  proof cases
    case 1
    with that [of dg t] show ?thesis by (cases "parse_rtp B (take MAX_UDP_RECV dg) (rx_epoch st) t") simp_all
  next
    case (2 x)
    obtain d src now where "x = (d, src, now)" by (cases x)
    with 2 that [of d now] show ?thesis by (force split: if_splits)
  qed
  with parse_rtp_Some show ?thesis by blast
qed

lemma rx_ops_origin:
  assumes "Ins q d t \<in> set (rx_ops B st evs)"
  shows "\<exists>ev \<in> set evs. \<exists>dg \<in> set (rtp_datagrams ev). \<exists>h n. rtp_header_parse B (take MAX_UDP_RECV dg) = Ok (h, n)
    \<and> q = sequence_number h \<and> d = drop n (take MAX_UDP_RECV dg)"
  using assms
proof (induction evs arbitrary: st)
  case (Cons ev evs)
  show ?case
  proof (cases "Ins q d t \<in> set (event_ops B st ev)")
    case True
    then obtain dg a t1 t2 w p where "ev = RtpIn dg a t1 t2 w t" "p \<in> set (rtp_batch B st dg a t2 w)"
      "q = p_seq p" "d = p_payload p"
      by (cases ev) (auto split: if_splits)
    with rtp_batch_origin [of p B st dg a t2 w] show ?thesis by simp
  next
    case False
    with Cons show ?thesis by force
  qed
qed simp

text \<open>With an application that keeps up, everything the buffer releases is handed over.\<close>

fun channel_keeps_up :: "ReceiverEvent \<Rightarrow> bool" where
  "channel_keeps_up (DrainTurn chan_ok now clock now2) \<longleftrightarrow> (\<forall>k. chan_ok k)"
| "channel_keeps_up _ \<longleftrightarrow> True"

lemma rx_ops_run_all:
  assumes "\<forall>ev \<in> set evs. channel_keeps_up ev"
  shows "\<exists>ds. delivered (receiver_run B st evs) = delivered st @ ds
    \<and> map as_item ds = filter (\<lambda>x. x \<noteq> Lost) (snd (reorder_run (reorder st) (rx_ops B st evs)))"
  using assms
proof (induction evs arbitrary: st)
  case (Cons ev evs)
  have one: "\<exists>ds. delivered (receiver_step B st ev) = delivered st @ ds
      \<and> map as_item ds = filter (\<lambda>x. x \<noteq> Lost) (snd (reorder_run (reorder st) (event_ops B st ev)))"
  proof (cases ev)
    case (RtpIn dg a t1 t2 w now)
    then show ?thesis by (simp add: receiver_on_rtp_frame insert_batch_run)
  next
    case (DrainTurn ok now c now2)
    obtain g items where d: "drain_ready (reorder st) now = (g, items)" by force
    have "delivered (fst (drain_iteration ok st now c now2))
        = delivered (fst (foldl (deliver_item ok) (st\<lparr>reorder := g\<rparr>, 0) items))"
      by (simp add: drain_iteration_def d Let_def)
    with delivered_items [of ok "st\<lparr>reorder := g\<rparr>" 0 items] DrainTurn Cons.prems d show ?thesis by auto
  qed (simp_all add: receiver_frames)
  then obtain ds where 1: "delivered (receiver_step B st ev) = delivered st @ ds"
    "map as_item ds = filter (\<lambda>x. x \<noteq> Lost) (snd (reorder_run (reorder st) (event_ops B st ev)))" by blast
  from Cons.IH [of "receiver_step B st ev"] Cons.prems obtain ds' where
    2: "delivered (receiver_run B st (ev # evs)) = delivered st @ ds @ ds'"
    "map as_item ds' = filter (\<lambda>x. x \<noteq> Lost)
       (snd (reorder_run (reorder (receiver_step B st ev)) (rx_ops B (receiver_step B st ev) evs)))"
    using 1(1) by auto
  have "fst (reorder_run (reorder st) (event_ops B st ev)) = reorder (receiver_step B st ev)"
    using event_ops_run [of st B ev] by (metis fst_conv)
  with 1(2) 2 show ?case
    by (intro exI [of _ "ds @ ds'"]) (simp add: reorder_run_append split_beta Let_def)
qed simp

text \<open>What the drains of a run have taken out of the buffer, in the order they did.\<close>

fun released :: "bytes_api \<Rightarrow> ReceiverState \<Rightarrow> ReceiverEvent list \<Rightarrow> DrainItem list" where
  "released B st [] = []"
| "released B st (DrainTurn chan_ok now clock now2 # evs) =
     snd (drain_ready (reorder st) now) @ released B (receiver_step B st (DrainTurn chan_ok now clock now2)) evs"
| "released B st (ev # evs) = released B (receiver_step B st ev) evs"

lemma released_run: "released B st evs = snd (reorder_run (reorder st) (rx_ops B st evs))"
proof (induction evs arbitrary: st)
  case (Cons ev evs)
  have "fst (reorder_run (reorder st) (event_ops B st ev)) = reorder (receiver_step B st ev)"
    using event_ops_run [of st B ev] by (metis fst_conv)
  moreover have "released B st (ev # evs) = snd (reorder_run (reorder st) (event_ops B st ev)) @ released B (receiver_step B st ev) evs"
    by (cases ev) (simp_all add: insert_batch_run split_beta Let_def)
  ultimately show ?case using Cons [of "receiver_step B st ev"] by (simp add: reorder_run_append split_beta Let_def)
qed simp

text \<open>
  C5: What the application receives, in order. Over any run of a receiver, as long as no packet lies
  outside the reorder window, the drains release one item for each sequence number from a first
  one on, without gaps and across the wrap-around: the item at place \<open>j\<close> is a loss or the packet with
  number \<open>b + j\<close>. The packets handed over are items at strictly increasing places of that list, each
  as it was released, and each is the payload of a media datagram that arrived with its number:
  nothing is delivered twice, out of order or altered. When the application keeps up they are all
  the packets released.
\<close>

theorem receiver_delivers_in_order:
  assumes "init = receiver_init config rs name t0 t1" and "st = receiver_run B init evs"
    and "run_fits (reorder_new (buffer_size config)) (rx_ops B init evs)"
  shows "\<exists>b js. (\<forall>j < length (released B init evs). released B init evs ! j = Lost
        \<or> (\<exists>d t. released B init evs ! j = Delivered d (b + of_nat j) t))
    \<and> length js = length (delivered st) \<and> sorted_wrt (<) js
    \<and> (\<forall>n < length (delivered st). js ! n < length (released B init evs)
        \<and> released B init evs ! (js ! n)
            = Delivered (dl_data (delivered st ! n)) (dl_rtp_seq (delivered st ! n)) (dl_arrival (delivered st ! n))
        \<and> (\<exists>ev \<in> set evs. \<exists>dg \<in> set (rtp_datagrams ev). \<exists>h k. rtp_header_parse B (take MAX_UDP_RECV dg) = Ok (h, k)
             \<and> sequence_number h = dl_rtp_seq (delivered st ! n)
             \<and> dl_data (delivered st ! n) = drop k (take MAX_UDP_RECV dg)))
    \<and> ((\<forall>ev \<in> set evs. channel_keeps_up ev) \<longrightarrow>
        map as_item (delivered st) = filter (\<lambda>x. x \<noteq> Lost) (released B init evs))"
proof -
  let ?ops = "rx_ops B init evs" and ?items = "released B init evs"
  have init: "reorder init = reorder_new (buffer_size config)" "delivered init = []"
    by (simp_all add: assms(1) receiver_init_def Let_def)
  obtain s where run: "reorder_run (reorder_new (buffer_size config)) ?ops = (s, ?items)"
    using released_run [of B init evs] by (cases "reorder_run (reorder_new (buffer_size config)) ?ops") (simp add: init)
  have "subseq (map as_item (delivered st)) ?items"
    using rx_ops_run [of B init evs] by (simp add: init run assms(2))
  from subseq_indices [OF this] obtain js where js: "length js = length (delivered st)" "sorted_wrt (<) js"
    "\<forall>n < length (delivered st). js ! n < length ?items \<and> ?items ! (js ! n) = as_item (delivered st ! n)"
    by auto
  obtain b where b: "\<forall>j < length ?items. ?items ! j = Lost
      \<or> (\<exists>d t. ?items ! j = Delivered d (b + of_nat j) t \<and> Ins (b + of_nat j) d t \<in> set ?ops)"
    using run_items_in_order [OF assms(3) run] by blast
  have origin: "\<exists>ev \<in> set evs. \<exists>dg \<in> set (rtp_datagrams ev). \<exists>h k. rtp_header_parse B (take MAX_UDP_RECV dg) = Ok (h, k)
      \<and> sequence_number h = dl_rtp_seq (delivered st ! n) \<and> dl_data (delivered st ! n) = drop k (take MAX_UDP_RECV dg)"
    if n: "n < length (delivered st)" for n
  proof -
    have "js ! n < length ?items" "?items ! (js ! n) = as_item (delivered st ! n)" using js(3) n by auto
    with b have "Ins (dl_rtp_seq (delivered st ! n)) (dl_data (delivered st ! n)) (dl_arrival (delivered st ! n)) \<in> set ?ops"
      by (auto simp: as_item_def)
    from rx_ops_origin [OF this] show ?thesis by metis
  qed
  have "map as_item (delivered st) = filter (\<lambda>x. x \<noteq> Lost) ?items" if "\<forall>ev \<in> set evs. channel_keeps_up ev"
    using rx_ops_run_all [OF that, of B init] by (auto simp: assms(2) init run)
  with b js origin show ?thesis unfolding as_item_def by (intro exI [of _ b] exI [of _ js]) blast
qed

definition example_rx_events :: "ReceiverEvent list" where
  "example_rx_events =
     [RtpIn [0x80, 33, 0, 5, 0, 0, 0, 0, 0, 0, 0, 2, 0x47] (SocketV4 1 5000) 3 3 [] 4,
      DrainTurn (\<lambda>_. True) 2000000000 2000000000 2000000000]"

lemma example_rx_ops:
  "rx_ops be_bytes_api (receiver_init config_default 3 [] 0 0) example_rx_events = [Ins 5 [0x47] 4, Drain 2000000000]"
proof -
  let ?dg = "[0x80, 33, 0, 5, 0, 0, 0, 0, 0, 0, 0, 2, 0x47] :: bytes"
  have "parse_rtp be_bytes_api ?dg 0 3 = Some \<lparr>p_seq = 5, p_ssrc = 2, p_rtp_ts = 0, p_payload = [0x47],
      p_arrival_us = 0, p_payload_len = 1, p_is_retransmit = False\<rparr>" by code_simp
  then show ?thesis
    by (simp add: example_rx_events_def rtp_batch_def receiver_init_def Let_def source_allowed_def config_default_def)
qed

theorem receiver_delivers_in_order_witness:
  "map as_item (delivered (receiver_run be_bytes_api (receiver_init config_default 3 [] 0 0) example_rx_events))
     = filter (\<lambda>x. x \<noteq> Lost) (released be_bytes_api (receiver_init config_default 3 [] 0 0) example_rx_events)
   \<and> released be_bytes_api (receiver_init config_default 3 [] 0 0) example_rx_events = [Delivered [0x47] 5 4]"
proof
  let ?init = "receiver_init config_default 3 [] 0 0"
  have "run_fits (reorder_new (buffer_size config_default)) (rx_ops be_bytes_api ?init example_rx_events)"
    unfolding example_rx_ops by (simp add: reorder_new_inv)
  from receiver_delivers_in_order [OF refl refl this] show
    "map as_item (delivered (receiver_run be_bytes_api ?init example_rx_events))
      = filter (\<lambda>x. x \<noteq> Lost) (released be_bytes_api ?init example_rx_events)"
    by (auto simp: example_rx_events_def)
  obtain s items where run: "reorder_run (with_capacity (buffer_size config_default) 8192) [Ins 5 [0x47] 4, Drain 2000000000] = (s, items)"
    by fastforce
  have fits: "run_fits (with_capacity (buffer_size config_default) 8192) [Ins 5 [0x47] 4, Drain 2000000000]"
    using with_capacity_inv [of 8192 "buffer_size config_default"] by simp
  have "items = [Delivered [0x47] 5 4]"
    using new_run_log [OF _ fits run] by (auto simp: run_log_def log_items_def log_drain_def ripe_def config_default_def)
  moreover have "reorder ?init = with_capacity (buffer_size config_default) 8192" by (simp add: receiver_init_def Let_def reorder_new_def)
  ultimately show "released be_bytes_api ?init example_rx_events = [Delivered [0x47] 5 4]"
    unfolding released_run example_rx_ops using run by simp
qed

end
