(* ===== verification/Rist_Steps.thy ===== *)
theory Rist_Steps
  imports Main
begin

text \<open>
  What the state machines of the transport crate share: a predicate every step keeps holds after
  every run, and a step relation under which a measure decreases has only runs of bounded length,
  the longest of which end where no step is left to take.
\<close>

locale step_invariant =
  fixes step :: "'s \<Rightarrow> 's \<Rightarrow> bool" and inv :: "'s \<Rightarrow> bool"
  assumes inv_step: "\<lbrakk>step s s'; inv s\<rbrakk> \<Longrightarrow> inv s'"
begin

lemma inv_run: "\<lbrakk>step\<^sup>*\<^sup>* s s'; inv s\<rbrakk> \<Longrightarrow> inv s'"
  by (induction rule: rtranclp_induct) (auto intro: inv_step)

lemma inv_steps: "\<lbrakk>(step ^^ n) s s'; inv s\<rbrakk> \<Longrightarrow> inv s'"
  by (metis inv_run rtranclp_power)

end

locale step_measure = step_invariant step inv for step :: "'s \<Rightarrow> 's \<Rightarrow> bool" and inv +
  fixes left :: "'s \<Rightarrow> nat" and finished :: "'s \<Rightarrow> bool"
  assumes left_step: "\<lbrakk>step s s'; inv s\<rbrakk> \<Longrightarrow> left s' < left s"
    and progress: "\<lbrakk>inv s; \<not> finished s\<rbrakk> \<Longrightarrow> \<exists>s'. step s s'"
begin

lemma run_bounded: "\<lbrakk>(step ^^ n) s s'; inv s\<rbrakk> \<Longrightarrow> n + left s' \<le> left s"
proof (induction n arbitrary: s')
  case (Suc n)
  then obtain s1 where "(step ^^ n) s s1" "step s1 s'" by auto
  with Suc inv_steps left_step [of s1 s'] show ?case by fastforce
qed simp

lemma steps_bounded: "\<lbrakk>(step ^^ n) s s'; inv s\<rbrakk> \<Longrightarrow> n \<le> left s"
  using run_bounded by fastforce

lemma stuck_finished: "\<lbrakk>step\<^sup>*\<^sup>* s s'; inv s; \<nexists>s''. step s' s''\<rbrakk> \<Longrightarrow> finished s'"
  using inv_run progress by blast

end

end
