(* ===== verification/Rist_Threads.thy ===== *)
theory Rist_Threads
  imports Rist_Receiver Rist_Steps
begin

text \<open>
  The receive task and the delivery thread of \<open>receiver.rs\<close> as two threads over the mutex and the
  condition variable they share: every acquisition and release of the lock, the wait of
  \<open>run_drain_thread\<close>, the notifications of the receive task and the shutdown are steps of their
  own. The runs of this system are runs of the turn-by-turn model of \<open>Rist_Receiver\<close>; a packet
  never waits for a notification that was lost; and the shutdown ends unless the thread is
  between its test of the cancellation and its wait, in which case it may hang.
\<close>

section \<open>The threads\<close>

datatype LockOwner = RecvTask | DrainThread

text \<open>
  Where the delivery thread is: before the lock; with the lock before the test of the cancellation;
  with the lock before the drain; forwarding what it drained; in \<open>wait\<close>; in \<open>wait_timeout\<close> until
  an instant; woken and about to take the lock back; returned.
\<close>

datatype DrainPc = DLock | DCheck | DPass | DDeliver "DrainItem list" | DPark | DTimed instant | DWoken | DExited

text \<open>
  Where the receive task is: at the \<open>select!\<close>; with a batch before the lock; with the lock; after the
  inserts, before \<open>notify_one\<close>; before the accounting; after the loop, before \<open>notify_all\<close>; joining
  the thread; returned.
\<close>

datatype RecvPc = RSelect | RBatch "ParsedRtp list" instant | RInsert "ParsedRtp list" instant
  | RNotify "ParsedRtp list" instant "InsertOutcome list" | RAccount "ParsedRtp list" instant "InsertOutcome list"
  | RShutdown | RJoin | RDone

record Threads =
  lock_owner :: "LockOwner option"
  cancelled :: bool
  drain_pc :: DrainPc
  recv_pc :: RecvPc
  rx :: ReceiverState

definition threads_init :: "ReceiverState \<Rightarrow> Threads" where
  "threads_init st = \<lparr>lock_owner = None, cancelled = False, drain_pc = DLock, recv_pc = RSelect, rx = st\<rparr>"

text \<open>The RTP arm up to the batch, and the accounting after the inserts.\<close>

definition rtp_prepare ::
  "bytes_api \<Rightarrow> ReceiverState \<Rightarrow> bytes \<Rightarrow> SocketAddr \<Rightarrow> instant \<Rightarrow> instant \<Rightarrow>
   (bytes \<times> SocketAddr \<times> instant) list \<Rightarrow> ReceiverState \<times> ParsedRtp list" where
  "rtp_prepare B st dg from arrived_at parsed_at waiting =
     (if \<not> source_allowed from (pinned_source_ip st) (sender_rtp_addr st) (rtp_peer_live st) arrived_at then (st, [])
      else let st = (if sender_rtp_addr st \<noteq> Some from
                     then st\<lparr>sender_rtp_addr := Some from, sender_rtcp_addr := Some (rtcp_addr_for from)\<rparr>
                     else st);
               first = parse_rtp B (take MAX_UDP_RECV dg) (rx_epoch st) parsed_at;
               st = (case first of
                       Some p \<Rightarrow> if observed_media_ssrc st = None then st\<lparr>observed_media_ssrc := Some (p_ssrc p)\<rparr> else st
                     | None \<Rightarrow> st);
               batch = (case first of Some p \<Rightarrow> [p] | None \<Rightarrow> [])
           in (st, read_burst B (rx_epoch st) from 1 batch waiting))"

definition rtp_account :: "ReceiverState \<Rightarrow> ParsedRtp list \<Rightarrow> instant \<Rightarrow> InsertOutcome list \<Rightarrow> ReceiverState" where
  "rtp_account st batch now outcomes =
     (let st = foldl (account_packet now) st (zip batch outcomes)
      in st\<lparr>rx_stats := (rx_stats st)\<lparr>st_jitter_us := jitter_micros (rx_rtcp_state st)\<rparr>\<rparr>)"

text \<open>The arms of the receive task that do not touch the shared buffer.\<close>

fun control_event :: "ReceiverEvent \<Rightarrow> bool" where
  "control_event (RtcpIn _ _ _ _) = True"
| "control_event (PumpTick _ _) = True"
| "control_event (RxTick _) = True"
| "control_event _ = False"

text \<open>A notification on the condition variable: a waiting thread wakes, one that is not waiting misses it.\<close>

fun wake :: "DrainPc \<Rightarrow> DrainPc" where
  "wake DPark = DWoken"
| "wake (DTimed _) = DWoken"
| "wake pc = pc"

text \<open>The wait the thread chooses after a drain that produced nothing.\<close>

definition drain_wait :: "ReorderBuffer \<Rightarrow> instant \<Rightarrow> instant \<Rightarrow> DrainPc" where
  "drain_wait g clock now2 =
     (case next_drain_time g clock of
        None \<Rightarrow> DPark
      | Some deadline \<Rightarrow> if deadline > now2 then DTimed deadline else DLock)"

text \<open>
  The steps. \<open>spurious\<close> says whether a wait without a deadline may end by itself, as the library
  allows; a timed wait may end at any time. The instants are the clock readings of the code; the
  clock is monotonic.
\<close>

inductive thread_step :: "bytes_api \<Rightarrow> bool \<Rightarrow> Threads \<Rightarrow> Threads \<Rightarrow> bool" for B spurious where
  d_lock: "\<lbrakk>drain_pc s = DLock; lock_owner s = None\<rbrakk>
    \<Longrightarrow> thread_step B spurious s (s\<lparr>lock_owner := Some DrainThread, drain_pc := DCheck\<rparr>)"
| d_exit: "\<lbrakk>drain_pc s = DCheck; cancelled s\<rbrakk>
    \<Longrightarrow> thread_step B spurious s (s\<lparr>lock_owner := None, drain_pc := DExited\<rparr>)"
| d_check: "\<lbrakk>drain_pc s = DCheck; \<not> cancelled s\<rbrakk> \<Longrightarrow> thread_step B spurious s (s\<lparr>drain_pc := DPass\<rparr>)"
| d_drain: "\<lbrakk>drain_pc s = DPass; drain_ready (reorder (rx s)) now = (g, items); items \<noteq> []\<rbrakk>
    \<Longrightarrow> thread_step B spurious s (s\<lparr>lock_owner := None, drain_pc := DDeliver items, rx := (rx s)\<lparr>reorder := g\<rparr>\<rparr>)"
| d_wait: "\<lbrakk>drain_pc s = DPass; drain_ready (reorder (rx s)) now = (g, []); clock \<le> now2\<rbrakk>
    \<Longrightarrow> thread_step B spurious s
          (s\<lparr>lock_owner := None, drain_pc := drain_wait g clock now2, rx := (rx s)\<lparr>reorder := g\<rparr>\<rparr>)"
| d_deliver: "drain_pc s = DDeliver (item # items)
    \<Longrightarrow> thread_step B spurious s
          (s\<lparr>drain_pc := DDeliver items, rx := fst (deliver_item (\<lambda>_. ok) (rx s, 0) item)\<rparr>)"
| d_next: "drain_pc s = DDeliver [] \<Longrightarrow> thread_step B spurious s (s\<lparr>drain_pc := DLock\<rparr>)"
| d_timeout: "drain_pc s = DTimed deadline \<Longrightarrow> thread_step B spurious s (s\<lparr>drain_pc := DWoken\<rparr>)"
| d_spurious: "\<lbrakk>spurious; drain_pc s = DPark\<rbrakk> \<Longrightarrow> thread_step B spurious s (s\<lparr>drain_pc := DWoken\<rparr>)"
| d_relock: "\<lbrakk>drain_pc s = DWoken; lock_owner s = None\<rbrakk> \<Longrightarrow> thread_step B spurious s (s\<lparr>drain_pc := DLock\<rparr>)"
| r_nothing: "\<lbrakk>recv_pc s = RSelect; rtp_prepare B (rx s) dg src arrived_at parsed_at waiting = (st, [])\<rbrakk>
    \<Longrightarrow> thread_step B spurious s (s\<lparr>rx := st\<rparr>)"
| r_batch: "\<lbrakk>recv_pc s = RSelect; rtp_prepare B (rx s) dg src arrived_at parsed_at waiting = (st, batch); batch \<noteq> []\<rbrakk>
    \<Longrightarrow> thread_step B spurious s (s\<lparr>rx := st\<lparr>rtp_peer_live := Some now\<rparr>, recv_pc := RBatch batch now\<rparr>)"
| r_control: "\<lbrakk>recv_pc s = RSelect; control_event ev\<rbrakk>
    \<Longrightarrow> thread_step B spurious s (s\<lparr>rx := receiver_step B (rx s) ev\<rparr>)"
| r_lock: "\<lbrakk>recv_pc s = RBatch batch now; lock_owner s = None\<rbrakk>
    \<Longrightarrow> thread_step B spurious s (s\<lparr>lock_owner := Some RecvTask, recv_pc := RInsert batch now\<rparr>)"
| r_insert: "\<lbrakk>recv_pc s = RInsert batch now; insert_batch (reorder (rx s)) now batch = (g, outcomes)\<rbrakk>
    \<Longrightarrow> thread_step B spurious s
          (s\<lparr>lock_owner := None, recv_pc := RNotify batch now outcomes, rx := (rx s)\<lparr>reorder := g\<rparr>\<rparr>)"
| r_notify: "recv_pc s = RNotify batch now outcomes
    \<Longrightarrow> thread_step B spurious s (s\<lparr>drain_pc := wake (drain_pc s), recv_pc := RAccount batch now outcomes\<rparr>)"
| r_account: "recv_pc s = RAccount batch now outcomes
    \<Longrightarrow> thread_step B spurious s (s\<lparr>rx := rtp_account (rx s) batch now outcomes, recv_pc := RSelect\<rparr>)"
| close: "\<not> cancelled s \<Longrightarrow> thread_step B spurious s (s\<lparr>cancelled := True\<rparr>)"
| r_break: "\<lbrakk>recv_pc s = RSelect; cancelled s\<rbrakk> \<Longrightarrow> thread_step B spurious s (s\<lparr>recv_pc := RShutdown\<rparr>)"
| r_notify_all: "recv_pc s = RShutdown
    \<Longrightarrow> thread_step B spurious s (s\<lparr>drain_pc := wake (drain_pc s), recv_pc := RJoin\<rparr>)"
| r_join: "\<lbrakk>recv_pc s = RJoin; drain_pc s = DExited\<rbrakk> \<Longrightarrow> thread_step B spurious s (s\<lparr>recv_pc := RDone\<rparr>)"

abbreviation thread_run :: "bytes_api \<Rightarrow> bool \<Rightarrow> Threads \<Rightarrow> Threads \<Rightarrow> bool" where
  "thread_run B spurious \<equiv> (thread_step B spurious)\<^sup>*\<^sup>*"

section \<open>The lock\<close>

fun drain_holds :: "DrainPc \<Rightarrow> bool" where
  "drain_holds DCheck = True"
| "drain_holds DPass = True"
| "drain_holds _ = False"

fun recv_holds :: "RecvPc \<Rightarrow> bool" where
  "recv_holds (RInsert _ _) = True"
| "recv_holds _ = False"

text \<open>The lock is held by the thread that is in its critical section; the task shuts down only after a cancellation.\<close>

definition threads_ok :: "Threads \<Rightarrow> bool" where
  "threads_ok s \<longleftrightarrow> (lock_owner s = Some DrainThread \<longleftrightarrow> drain_holds (drain_pc s))
     \<and> (lock_owner s = Some RecvTask \<longleftrightarrow> recv_holds (recv_pc s))
     \<and> (recv_pc s \<in> {RShutdown, RJoin, RDone} \<longrightarrow> cancelled s)"

lemma drain_holds_wake [simp]: "drain_holds (wake pc) = drain_holds pc"
  by (cases pc) simp_all

lemma drain_holds_wait [simp]: "\<not> drain_holds (drain_wait g c n)"
  by (simp add: drain_wait_def split: option.splits)

lemma threads_ok_step:
  assumes "thread_step B spurious s s'" "threads_ok s"
  shows "threads_ok s'"
  using assms by cases (auto simp: threads_ok_def)

interpretation ok: step_invariant "thread_step B spurious" threads_ok for B spurious
  by unfold_locales (rule threads_ok_step)

lemma threads_ok_init: "threads_ok (threads_init st)"
  by (simp add: threads_ok_def threads_init_def)

lemma threads_ok_run: "thread_run B spurious (threads_init st) s \<Longrightarrow> threads_ok s"
  using ok.inv_run threads_ok_init by blast

section \<open>No packet waits for a lost notification\<close>

text \<open>Nothing can be drained before the deadline the thread waits for.\<close>

definition quiet_until :: "DrainPc \<Rightarrow> ReorderBuffer \<Rightarrow> bool" where
  "quiet_until pc g \<longleftrightarrow>
     (case pc of
        DPark \<Rightarrow> \<forall>now. drain_ready g now = (g, [])
      | DTimed deadline \<Rightarrow> \<forall>now < deadline. drain_ready g now = (g, [])
      | _ \<Rightarrow> True)"

lemma quiet_until_simps [simp]:
  "quiet_until (wake pc) g" "quiet_until DLock g" "quiet_until DCheck g" "quiet_until DPass g"
  "quiet_until (DDeliver items) g" "quiet_until DWoken g" "quiet_until DExited g"
  by (cases pc) (simp_all add: quiet_until_def)

lemma nothing_drained_same:
  "drain_ready g now = (g', []) \<Longrightarrow> g' = g"
  by (subst (asm) drain_ready.simps) (auto simp: Let_def split: option.splits if_splits prod.splits SlotState.splits)

lemma quiet_until_wait:
  assumes "drain_ready g now = (g, [])" "clock \<le> now2"
  shows "quiet_until (drain_wait g clock now2) g"
proof (cases "base_seq g")
  case None
  then show ?thesis
    by (simp add: drain_wait_def next_drain_time_def quiet_until_def drain_ready.simps [of g])
next
  case (Some b)
  let ?slot = "slots g ! slot_index g b"
  show ?thesis
  proof (cases "slot_seq ?slot = b")
    case False
    with Some assms(2) show ?thesis by (simp add: drain_wait_def next_drain_time_def Let_def)
  next
    case True
    with assms(1) Some show ?thesis
      by (cases "slot_state ?slot")
        (auto simp: drain_wait_def next_drain_time_def Let_def quiet_until_def drain_ready.simps [of g]
           split: option.splits if_splits prod.splits)
  qed
qed

definition woken_in_time :: "Threads \<Rightarrow> bool" where
  "woken_in_time s \<longleftrightarrow> quiet_until (drain_pc s) (reorder (rx s)) \<or> (\<exists>batch now outcomes. recv_pc s = RNotify batch now outcomes)"

lemma reorder_prepare: "rtp_prepare B st dg a t1 t2 w = (st', batch) \<Longrightarrow> reorder st' = reorder st"
  by (auto simp: rtp_prepare_def Let_def split: if_splits option.splits)

lemma reorder_account: "reorder (rtp_account st batch now outcomes) = reorder st"
  by (simp add: rtp_account_def account_frame Let_def)

lemma reorder_deliver: "reorder (fst (deliver_item ok (st, k) item)) = reorder st"
  by (cases item) (simp_all add: deliver_item_def)

lemma reorder_control: "control_event ev \<Longrightarrow> reorder (receiver_step B st ev) = reorder st"
  by (cases ev) (simp_all add: receiver_frames)

lemma woken_in_time_step:
  assumes "thread_step B spurious s s'" "woken_in_time s" "threads_ok s"
  shows "woken_in_time s'"
  using assms(1)
proof cases
  case (d_wait now g clock now2)
  from nothing_drained_same [OF d_wait(3)] d_wait show ?thesis
    by (simp add: woken_in_time_def quiet_until_wait)
qed (use assms(2,3) in \<open>auto simp: woken_in_time_def threads_ok_def reorder_prepare reorder_account reorder_deliver reorder_control\<close>)

interpretation woken: step_invariant "thread_step B spurious" "\<lambda>s. woken_in_time s \<and> threads_ok s" for B spurious
  by unfold_locales (blast intro: woken_in_time_step threads_ok_step)

lemma woken_in_time_run:
  assumes "thread_run B spurious (threads_init st) s"
  shows "woken_in_time s"
proof -
  have "woken_in_time (threads_init st)" by (simp add: woken_in_time_def threads_init_def)
  with woken.inv_run [OF assms] threads_ok_init show ?thesis by blast
qed

text \<open>
  C13: No wake-up for a packet is lost. In every reachable state of the two threads they are never
  both inside the lock; and whenever the delivery thread waits, either no drain before the end of
  its wait (at no time at all, for a wait without a deadline) could produce anything from the
  buffer as it is now, or the receive task has inserted packets and is about to notify it.
\<close>

theorem no_wakeup_lost:
  assumes "thread_run B spurious (threads_init st) s"
  shows "\<not> (drain_holds (drain_pc s) \<and> recv_holds (recv_pc s))
    \<and> (drain_pc s = DPark \<longrightarrow> (\<forall>now. drain_ready (reorder (rx s)) now = (reorder (rx s), []))
        \<or> (\<exists>batch now outcomes. recv_pc s = RNotify batch now outcomes))
    \<and> (\<forall>deadline. drain_pc s = DTimed deadline \<longrightarrow>
        (\<forall>now < deadline. drain_ready (reorder (rx s)) now = (reorder (rx s), []))
        \<or> (\<exists>batch now outcomes. recv_pc s = RNotify batch now outcomes))"
  using threads_ok_run [OF assms] woken_in_time_run [OF assms]
  by (auto simp: threads_ok_def woken_in_time_def quiet_until_def)

text \<open>The thread of a receiver that has seen no packet, on its way to the wait.\<close>

lemma reorder_init:
  "reorder (receiver_init config rs name t0 t1) = reorder_new (buffer_size config)"
  "(receiver_init config rs name t0 t1)\<lparr>reorder := reorder_new (buffer_size config)\<rparr> = receiver_init config rs name t0 t1"
  by (simp_all add: receiver_init_def Let_def)

lemma drain_wait_new: "drain_wait (reorder_new hold) clock now2 = DPark"
  by (simp add: drain_wait_def next_drain_time_def reorder_new_def with_capacity_def Let_def)

lemma thread_parks:
  assumes "drain_pc s = DPass" "rx s = receiver_init config rs name t0 t1"
  shows "thread_step B spurious s (s\<lparr>lock_owner := None, drain_pc := DPark\<rparr>)"
  using d_wait [of s 0 "reorder_new (buffer_size config)" 0 0 B spurious] assms
  by (cases s) (simp add: drain_new drain_wait_new reorder_init)

lemma thread_passes:
  "thread_run B spurious (threads_init st) ((threads_init st)\<lparr>lock_owner := Some DrainThread, drain_pc := DPass\<rparr>)"
proof -
  let ?s = "(threads_init st)\<lparr>lock_owner := Some DrainThread, drain_pc := DCheck\<rparr>"
  have "thread_step B spurious (threads_init st) ?s" by (rule d_lock) (simp_all add: threads_init_def)
  moreover have "thread_step B spurious ?s (?s\<lparr>drain_pc := DPass\<rparr>)" by (rule d_check) (simp_all add: threads_init_def)
  ultimately show ?thesis by (auto intro: converse_rtranclp_into_rtranclp)
qed

theorem no_wakeup_lost_witness:
  "\<exists>s :: Threads. drain_pc s = DPark \<and> (\<forall>now. drain_ready (reorder (rx s)) now = (reorder (rx s), []))"
proof -
  let ?st = "receiver_init config_default 3 [] 0 0"
  let ?s1 = "(threads_init ?st)\<lparr>lock_owner := Some DrainThread, drain_pc := DPass\<rparr>"
  let ?s2 = "?s1\<lparr>lock_owner := None, drain_pc := DPark\<rparr>"
  have "thread_step be_bytes_api True ?s1 ?s2" by (rule thread_parks) (simp_all add: threads_init_def)
  with thread_passes have "thread_run be_bytes_api True (threads_init ?st) ?s2" by (rule rtranclp.rtrancl_into_rtrancl)
  note r = no_wakeup_lost [OF this]
  show ?thesis by (rule exI [of _ ?s2]) (use r in \<open>simp add: threads_init_def\<close>)
qed

section \<open>Shutdown\<close>

text \<open>What is left of a shutdown once the thread can no longer begin another round.\<close>

fun drain_left :: "DrainPc \<Rightarrow> nat" where
  "drain_left (DDeliver items) = length items + 4"
| "drain_left DPark = 5"
| "drain_left (DTimed _) = 5"
| "drain_left DWoken = 4"
| "drain_left DLock = 3"
| "drain_left DCheck = 2"
| "drain_left DPass = 0"
| "drain_left DExited = 0"

fun recv_left :: "RecvPc \<Rightarrow> nat" where
  "recv_left RShutdown = 2"
| "recv_left RJoin = 1"
| "recv_left _ = 0"

definition shutdown_left :: "Threads \<Rightarrow> nat" where
  "shutdown_left s = drain_left (drain_pc s) + recv_left (recv_pc s)"

definition winding_down :: "Threads \<Rightarrow> bool" where
  "winding_down s \<longleftrightarrow> threads_ok s \<and> drain_pc s \<noteq> DPass
     \<and> (recv_pc s = RShutdown \<or> recv_pc s = RJoin \<and> drain_pc s \<noteq> DPark \<or> recv_pc s = RDone \<and> drain_pc s = DExited)"

lemma wake_left:
  "wake pc \<noteq> DPark" "wake pc = DPass \<longleftrightarrow> pc = DPass" "drain_left (wake pc) \<le> drain_left pc"
  by (cases pc; simp)+

lemma winding_down_step:
  assumes "thread_step B spurious s s'" "winding_down s"
  shows "winding_down s' \<and> shutdown_left s' < shutdown_left s"
proof -
  have ok: "threads_ok s" "threads_ok s'"
    using assms(2) threads_ok_step [OF assms(1)] by (simp_all add: winding_down_def)
  have "cancelled s" using assms(2) ok(1) by (auto simp: winding_down_def threads_ok_def)
  with assms(2) have *: "drain_pc s \<noteq> DPass" "recv_pc s = RShutdown \<or> recv_pc s = RJoin \<and> drain_pc s \<noteq> DPark
      \<or> recv_pc s = RDone \<and> drain_pc s = DExited" by (simp_all add: winding_down_def)
  have "drain_pc s' \<noteq> DPass \<and> (recv_pc s' = RShutdown \<or> recv_pc s' = RJoin \<and> drain_pc s' \<noteq> DPark
      \<or> recv_pc s' = RDone \<and> drain_pc s' = DExited) \<and> shutdown_left s' < shutdown_left s"
    using assms(1)
  proof cases
    case r_notify_all
    with * wake_left [of "drain_pc s"] show ?thesis by (simp add: shutdown_left_def)
  qed (use * \<open>cancelled s\<close> in \<open>auto simp: shutdown_left_def\<close>)
  with ok(2) show ?thesis by (simp add: winding_down_def)
qed

lemma winding_down_progress:
  assumes "winding_down s" "recv_pc s \<noteq> RDone"
  shows "\<exists>s'. thread_step B spurious s s'"
proof (cases "recv_pc s = RShutdown")
  case True
  then show ?thesis by (blast intro: r_notify_all)
next
  case False
  with assms have j: "recv_pc s = RJoin" "drain_pc s \<noteq> DPark" "drain_pc s \<noteq> DPass" "cancelled s"
    "lock_owner s = (if drain_holds (drain_pc s) then Some DrainThread else None)"
    by (auto simp: winding_down_def threads_ok_def intro: LockOwner.exhaust) (metis LockOwner.exhaust not_None_eq)
  show ?thesis
  proof (cases "drain_pc s")
    case (DDeliver items)
    then show ?thesis by (cases items) (blast intro: d_next d_deliver)+
  qed (use j in \<open>auto intro: thread_step.intros\<close>)
qed

interpretation winding: step_measure "thread_step B spurious" winding_down shutdown_left "\<lambda>s. recv_pc s = RDone" for B spurious
  by unfold_locales (blast intro: winding_down_progress dest: winding_down_step)+

text \<open>
  C17: Shutdown ends. From any reachable state in which the receive task has left its loop and is about
  to notify the delivery thread, and the thread is not between its test of the cancellation and
  its wait, every run is bounded by a number of steps known there, and every run that cannot be
  extended has joined the thread: the receive task returns.
\<close>

theorem shutdown_completes:
  assumes "thread_run B spurious (threads_init st) s" "recv_pc s = RShutdown" "drain_pc s \<noteq> DPass"
  shows "(\<forall>n s'. (thread_step B spurious ^^ n) s s' \<longrightarrow> n \<le> shutdown_left s)
    \<and> (\<forall>s'. thread_run B spurious s s' \<and> (\<nexists>s''. thread_step B spurious s' s'') \<longrightarrow> recv_pc s' = RDone)"
proof -
  have "winding_down s" using assms threads_ok_run [OF assms(1)] by (simp add: winding_down_def)
  then show ?thesis using winding.steps_bounded winding.stuck_finished by blast
qed

theorem shutdown_completes_witness:
  "\<exists>s. recv_pc s = RShutdown \<and> shutdown_left s = 5
     \<and> (\<forall>s'. thread_run be_bytes_api False s s' \<and> (\<nexists>s''. thread_step be_bytes_api False s' s'') \<longrightarrow> recv_pc s' = RDone)"
proof -
  let ?s0 = "threads_init (receiver_init config_default 3 [] 0 0)"
  let ?s1 = "?s0\<lparr>cancelled := True\<rparr>" and ?s2 = "?s0\<lparr>cancelled := True, recv_pc := RShutdown\<rparr>"
  have "thread_step be_bytes_api False ?s0 ?s1" by (rule close) (simp add: threads_init_def)
  moreover have "thread_step be_bytes_api False ?s1 ?s2"
    using r_break [of ?s1 be_bytes_api False] by (simp add: threads_init_def)
  ultimately have "thread_run be_bytes_api False ?s0 ?s2" by (auto intro: converse_rtranclp_into_rtranclp)
  note r = shutdown_completes [OF this]
  show ?thesis by (rule exI [of _ ?s2]) (use r in \<open>simp add: threads_init_def shutdown_left_def\<close>)
qed

text \<open>
  C18: Shutdown can hang. Before the first packet there is a run in which the cancellation and the one
  notification of the receive task fall between the delivery thread's test and its wait: the
  thread then waits without a deadline, the task waits for the thread, and unless the wait ends
  spuriously neither ever takes another step.
\<close>

theorem shutdown_can_hang:
  "\<exists>s. thread_run B False (threads_init (receiver_init config rs name t0 t1)) s
     \<and> cancelled s \<and> recv_pc s = RJoin \<and> drain_pc s = DPark \<and> (\<nexists>s'. thread_step B False s s')"
proof -
  let ?st = "receiver_init config rs name t0 t1"
  let ?s1 = "(threads_init ?st)\<lparr>lock_owner := Some DrainThread, drain_pc := DPass\<rparr>"
  let ?s2 = "?s1\<lparr>cancelled := True\<rparr>"
  let ?s3 = "?s2\<lparr>recv_pc := RShutdown\<rparr>"
  let ?s4 = "?s3\<lparr>drain_pc := wake (drain_pc ?s3), recv_pc := RJoin\<rparr>"
  let ?s5 = "?s4\<lparr>lock_owner := None, drain_pc := DPark\<rparr>"
  have "thread_step B False ?s1 ?s2" by (rule close) (simp add: threads_init_def)
  moreover have "thread_step B False ?s2 ?s3" by (rule r_break) (simp_all add: threads_init_def)
  moreover have "thread_step B False ?s3 ?s4" by (rule r_notify_all) simp
  moreover have "thread_step B False ?s4 ?s5"
    by (rule thread_parks) (simp_all add: threads_init_def)
  ultimately have "thread_run B False (threads_init ?st) ?s5"
    using thread_passes [of B False ?st] by (meson rtranclp.rtrancl_into_rtrancl)
  moreover have "\<not> thread_step B False ?s5 s'" for s'
    by (auto elim: thread_step.cases)
  ultimately show ?thesis by (intro exI [of _ ?s5]) (simp add: threads_init_def)
qed

section \<open>The threads refine the turns\<close>

text \<open>What the delivery thread adds to the shared state besides the buffer.\<close>

definition tally :: "RistDelivered list \<Rightarrow> u64 \<Rightarrow> u64 \<Rightarrow> ReceiverState \<Rightarrow> ReceiverState" where
  "tally ds dropped lost st =
     st\<lparr>delivered := delivered st @ ds,
        rx_stats := (rx_stats st)\<lparr>st_reorder_drops := st_reorder_drops (rx_stats st) + dropped,
                                  st_packets_lost := st_packets_lost (rx_stats st) + lost\<rparr>\<rparr>"

lemma tally_frame [simp]:
  "reorder (tally ds x y st) = reorder st" "tally ds x y (st\<lparr>reorder := g\<rparr>) = (tally ds x y st)\<lparr>reorder := g\<rparr>"
  "tally [] 0 0 st = st" "tally ds x y (st\<lparr>rtp_peer_live := l\<rparr>) = (tally ds x y st)\<lparr>rtp_peer_live := l\<rparr>"
  by (simp_all add: tally_def)

lemma tally_tally: "tally ds' x' y' (tally ds x y st) = tally (ds @ ds') (x + x') (y + y') st"
  by (simp add: tally_def add.assoc)

text \<open>A delivery is such an addition, whatever the state it starts in.\<close>

lemma deliver_item_tally:
  "\<exists>ds x y k'. \<forall>st. deliver_item ok (st, k) item = (tally ds x y st, k')"
proof (cases item)
  case (Delivered d q t)
  let ?p = "\<lparr>dl_data = d, dl_arrival = t, dl_rtp_seq = q\<rparr>"
  have "\<forall>st. deliver_item ok (st, k) item
      = (tally (if ok k then [?p] else []) (if ok k then 0 else 1) 0 st, k + 1)"
    using Delivered by (simp add: deliver_item_def tally_def)
  then show ?thesis by blast
next
  case Lost
  then have "\<forall>st. deliver_item ok (st, k) item = (tally [] 0 1 st, k)" by (simp add: deliver_item_def tally_def)
  then show ?thesis by blast
qed

lemma deliver_items_tally:
  "\<exists>ds x y. \<forall>st. fst (foldl (deliver_item ok) (st, k) items) = tally ds x y st"
proof (induction items arbitrary: k)
  case Nil
  have "\<forall>st. fst (foldl (deliver_item ok) (st, k) []) = tally [] 0 0 st" by simp
  then show ?case by blast
next
  case (Cons item items)
  obtain ds x y k' where 1: "deliver_item ok (st, k) item = (tally ds x y st, k')" for st
    using deliver_item_tally [of ok k item] by blast
  from Cons [of k'] obtain ds' x' y' where
    "fst (foldl (deliver_item ok) (st, k') items) = tally ds' x' y' st" for st by blast
  then have "\<forall>st. fst (foldl (deliver_item ok) (st, k) (item # items)) = tally (ds @ ds') (x + x') (y + y') st"
    by (simp add: 1 tally_tally)
  then show ?case by blast
qed

text \<open>The turns of the receive task commute with it.\<close>

lemma account_tally: "account_packet now (tally ds x y st) po = tally ds x y (account_packet now st po)"
proof -
  obtain p oc where po: "po = (p, oc)" by (cases po)
  have swap: "a + b + c = a + c + b" for a b c :: u64 by simp
  show ?thesis unfolding po
    by (cases "p_is_retransmit p"; cases "duplicate oc"; cases "recovered oc"; cases "stale oc"; cases "overflow_flushed oc > 0")
      (simp_all add: account_packet_def tally_def Let_def swap [of _ x] swap [of _ y])
qed

lemma rtp_account_tally: "rtp_account (tally ds x y st) batch now outs = tally ds x y (rtp_account st batch now outs)"
proof -
  have "foldl (account_packet now) (tally ds x y st) xs = tally ds x y (foldl (account_packet now) st xs)" for xs
    by (induction xs arbitrary: st) (simp_all add: account_tally)
  then show ?thesis by (simp add: rtp_account_def Let_def) (simp add: tally_def)
qed

lemma on_packet_tally:
  "receiver_on_packet B a now c (tally ds x y st) pkt = tally ds x y (receiver_on_packet B a now c st pkt)"
  by (simp add: receiver_on_packet_def tally_def Let_def split: RtcpPacket.splits RistApp.splits option.splits)

lemma on_packets_tally:
  "receiver_on_packets B a now c i (tally ds x y st) pkts = tally ds x y (receiver_on_packets B a now c i st pkts)"
  by (induction pkts arbitrary: i st) (simp_all add: on_packet_tally)

lemma on_rtcp_tally:
  "receiver_on_rtcp B c (tally ds x y st) dg a now = tally ds x y (receiver_on_rtcp B c st dg a now)"
proof -
  have upd: "(tally ds x y st)\<lparr>sender_rtcp_addr := u, rx_rtcp_peer_live := v\<rparr> = tally ds x y (st\<lparr>sender_rtcp_addr := u, rx_rtcp_peer_live := v\<rparr>)"
    "(tally ds x y st)\<lparr>rx_rtcp_peer_live := v\<rparr> = tally ds x y (st\<lparr>rx_rtcp_peer_live := v\<rparr>)" for u v
    by (simp_all add: tally_def)
  have "sender_rtcp_addr (tally ds x y st) = sender_rtcp_addr st" "rx_rtcp_peer_live (tally ds x y st) = rx_rtcp_peer_live st"
    "rtp_peer_live (tally ds x y st) = rtp_peer_live st" "pinned_source_ip (tally ds x y st) = pinned_source_ip st"
    by (simp_all add: tally_def)
  then show ?thesis by (simp add: receiver_on_rtcp_def Let_def upd on_packets_tally split: res.splits)
qed

lemma on_pump_tally: "receiver_on_pump B sent (tally ds x y st) now = tally ds x y (receiver_on_pump B sent st now)"
  by (simp add: receiver_on_pump_def tally_def Let_def split_beta split: option.splits)

lemma on_tick_tally: "receiver_on_tick B (tally ds x y st) now = tally ds x y (receiver_on_tick B st now)"
  by (simp add: receiver_on_tick_def tally_def Let_def split_beta split: option.splits)

lemma control_tally:
  "control_event ev \<Longrightarrow> receiver_step B (tally ds x y st) ev = tally ds x y (receiver_step B st ev)"
  by (cases ev) (simp_all add: on_rtcp_tally on_pump_tally on_tick_tally)

lemma prepare_tally:
  "rtp_prepare B (tally ds x y st) dg a t1 t2 w = (case rtp_prepare B st dg a t1 t2 w of (st', b) \<Rightarrow> (tally ds x y st', b))"
  by (simp add: rtp_prepare_def tally_def Let_def split: option.splits)

lemma prepare_reorder:
  "rtp_prepare B (st\<lparr>reorder := g\<rparr>) dg a t1 t2 w = (case rtp_prepare B st dg a t1 t2 w of (st', b) \<Rightarrow> (st'\<lparr>reorder := g\<rparr>, b))"
  by (simp add: rtp_prepare_def Let_def split: option.splits)

text \<open>The RTP arm of the turn-by-turn model, cut at the lock.\<close>

lemma rtp_turn:
  assumes "rtp_prepare B st dg a t1 t2 w = (st', batch)"
  shows "receiver_on_rtp B st dg a t1 t2 w now =
    (if batch = [] then st'
     else let (g, outs) = insert_batch (reorder st') now batch
          in rtp_account (st'\<lparr>rtp_peer_live := Some now, reorder := g\<rparr>) batch now outs)"
proof -
  have "receiver_on_rtp B st dg a t1 t2 w now = receiver_on_batch st' batch now"
    using assms by (auto simp: rtp_prepare_def receiver_on_rtp_def receiver_on_batch_def Let_def split: if_splits)
  then show ?thesis by (simp add: receiver_on_batch_def rtp_account_def Let_def split: prod.splits)
qed

lemma account_reorder: "rtp_account (st\<lparr>reorder := g\<rparr>) batch now outs = (rtp_account st batch now outs)\<lparr>reorder := g\<rparr>"
proof -
  have one: "account_packet now (st\<lparr>reorder := g\<rparr>) po = (account_packet now st po)\<lparr>reorder := g\<rparr>" for st po
  proof -
    obtain p oc where po: "po = (p, oc)" by (cases po)
    show ?thesis unfolding po
      by (cases "p_is_retransmit p"; cases "duplicate oc"; cases "recovered oc"; cases "stale oc"; cases "overflow_flushed oc > 0")
        (simp_all add: account_packet_def Let_def)
  qed
  have "foldl (account_packet now) (st\<lparr>reorder := g\<rparr>) xs = (foldl (account_packet now) st xs)\<lparr>reorder := g\<rparr>" for xs
    by (induction xs arbitrary: st) (simp_all add: one)
  then show ?thesis by (simp add: rtp_account_def Let_def)
qed

text \<open>A state the turn-by-turn model reaches, and what a state of the task in the middle of a turn is to it.\<close>

definition turn_state :: "bytes_api \<Rightarrow> ReceiverState \<Rightarrow> ReceiverState \<Rightarrow> bool" where
  "turn_state B st0 st \<longleftrightarrow> (\<exists>evs. st = receiver_run B st0 evs)"

lemma turn_state_step: "turn_state B st0 st \<Longrightarrow> turn_state B st0 (receiver_step B st ev)"
  unfolding turn_state_def receiver_run_def by (metis foldl_Cons foldl_Nil foldl_append)

definition prepared :: "bytes_api \<Rightarrow> ReceiverState \<Rightarrow> ParsedRtp list \<Rightarrow> instant \<Rightarrow> ReceiverState \<Rightarrow> bool" where
  "prepared B st0 batch now st \<longleftrightarrow> batch \<noteq> [] \<and>
     (\<exists>turn st1 dg src t1 t2 w. turn_state B st0 turn \<and> rtp_prepare B turn dg src t1 t2 w = (st1, batch)
        \<and> st = st1\<lparr>rtp_peer_live := Some now\<rparr>)"

lemma preparedI:
  "\<lbrakk>turn_state B st0 turn; rtp_prepare B turn dg src t1 t2 w = (st1, batch); batch \<noteq> []\<rbrakk>
   \<Longrightarrow> prepared B st0 batch now (st1\<lparr>rtp_peer_live := Some now\<rparr>)"
  unfolding prepared_def by blast

fun in_turn :: "bytes_api \<Rightarrow> ReceiverState \<Rightarrow> RecvPc \<Rightarrow> ReceiverState \<Rightarrow> bool" where
  "in_turn B st0 (RBatch batch now) st = prepared B st0 batch now st"
| "in_turn B st0 (RInsert batch now) st = prepared B st0 batch now st"
| "in_turn B st0 (RNotify batch now outs) st = turn_state B st0 (rtp_account st batch now outs)"
| "in_turn B st0 (RAccount batch now outs) st = turn_state B st0 (rtp_account st batch now outs)"
| "in_turn B st0 _ st = turn_state B st0 st"

fun pending_items :: "DrainPc \<Rightarrow> DrainItem list" where
  "pending_items (DDeliver items) = items"
| "pending_items _ = []"

lemma pending_items_wake [simp]: "pending_items (wake pc) = pending_items pc"
  "pending_items (drain_wait g c n) = []"
  by (cases pc) (simp_all add: drain_wait_def split: option.splits)

abbreviation deliver_all :: "(nat \<Rightarrow> bool) \<Rightarrow> DrainItem list \<Rightarrow> ReceiverState \<Rightarrow> ReceiverState" where
  "deliver_all ok items st \<equiv> fst (foldl (deliver_item ok) (st, 0) items)"

text \<open>Whatever the channel will take of what is still to be forwarded, the state is one of the turns.\<close>

definition refines_turns :: "bytes_api \<Rightarrow> ReceiverState \<Rightarrow> Threads \<Rightarrow> bool" where
  "refines_turns B st0 s \<longleftrightarrow> (\<forall>ok. in_turn B st0 (recv_pc s) (deliver_all ok (pending_items (drain_pc s)) (rx s)))"

lemma drain_turn:
  assumes "drain_ready (reorder st) now = (g, items)"
  shows "receiver_step B st (DrainTurn ok now c now2) = deliver_all ok items (st\<lparr>reorder := g\<rparr>)"
  using assms by (simp add: drain_iteration_def Let_def)

lemma prepared_drain:
  assumes "prepared B st0 batch t st" "drain_ready (reorder st) now = (g, items)"
  shows "prepared B st0 batch t (deliver_all ok items (st\<lparr>reorder := g\<rparr>))"
proof -
  from assms(1) obtain turn st1 dg src t1 t2 w where p: "batch \<noteq> []" "turn_state B st0 turn"
    "rtp_prepare B turn dg src t1 t2 w = (st1, batch)" "st = st1\<lparr>rtp_peer_live := Some t\<rparr>"
    unfolding prepared_def by blast
  obtain ds x y where T: "deliver_all ok items st = tally ds x y st" for st
    using deliver_items_tally [of ok 0 items] by blast
  let ?turn = "deliver_all ok items (turn\<lparr>reorder := g\<rparr>)"
  have "reorder turn = reorder st" using p(3,4) by (simp add: reorder_prepare)
  with assms(2) have "turn_state B st0 ?turn" using turn_state_step [OF p(2)] by (metis drain_turn)
  moreover have "rtp_prepare B ?turn dg src t1 t2 w = (deliver_all ok items (st1\<lparr>reorder := g\<rparr>), batch)"
    unfolding T prepare_tally prepare_reorder by (simp add: p(3))
  moreover have "deliver_all ok items (st\<lparr>reorder := g\<rparr>) = (deliver_all ok items (st1\<lparr>reorder := g\<rparr>))\<lparr>rtp_peer_live := Some t\<rparr>"
    unfolding T p(4) by (simp add: tally_def)
  ultimately show ?thesis using p(1) unfolding prepared_def by blast
qed

lemma in_turn_drain:
  assumes "in_turn B st0 pc st" "drain_ready (reorder st) now = (g, items)"
  shows "in_turn B st0 pc (deliver_all ok items (st\<lparr>reorder := g\<rparr>))"
proof -
  have turn: "turn_state B st0 (deliver_all ok items (st1\<lparr>reorder := g\<rparr>))"
    if "turn_state B st0 st1" "reorder st1 = reorder st" for st1
    using turn_state_step [OF that(1)] assms(2) that(2) by (metis drain_turn)
  obtain ds x y where T: "deliver_all ok items st = tally ds x y st" for st
    using deliver_items_tally [of ok 0 items] by blast
  have "rtp_account (deliver_all ok items (st\<lparr>reorder := g\<rparr>)) b t outs
      = deliver_all ok items ((rtp_account st b t outs)\<lparr>reorder := g\<rparr>)" for b t outs
    unfolding T rtp_account_tally account_reorder ..
  with assms turn show ?thesis by (cases pc) (simp_all add: prepared_drain reorder_account)
qed

lemma deliver_shift:
  "fst (foldl (deliver_item (\<lambda>i. ok (i + n))) (st, k) items) = fst (foldl (deliver_item ok) (st, k + n) items)"
proof (induction items arbitrary: st k)
  case (Cons x items)
  then show ?case by (cases x) (simp_all add: deliver_item_def flip: add_Suc)
qed simp

lemma deliver_split:
  "\<exists>ok'. \<forall>st. deliver_all ok' (item # items) st = deliver_all ok items (fst (deliver_item (\<lambda>_. taken) (st, 0) item))"
proof (cases item)
  case (Delivered d q t)
  let ?ok = "\<lambda>i. if i = 0 then taken else ok (i - 1)"
  have "deliver_all ok items st = fst (foldl (deliver_item ?ok) (st, 1) items)" for st
    using deliver_shift [of ?ok 1 st 0 items] by simp
  then have "\<forall>st. deliver_all ?ok (item # items) st = deliver_all ok items (fst (deliver_item (\<lambda>_. taken) (st, 0) item))"
    using Delivered by (simp add: deliver_item_def)
  then show ?thesis by blast
next
  case Lost
  then have "\<forall>st. deliver_all ok (item # items) st = deliver_all ok items (fst (deliver_item (\<lambda>_. taken) (st, 0) item))"
    by (simp add: deliver_item_def)
  then show ?thesis by blast
qed

lemma in_turn_nothing:
  assumes "turn_state B st0 (tally ds x y st)" "rtp_prepare B st dg a t1 t2 w = (st', [])"
  shows "turn_state B st0 (tally ds x y st')"
proof -
  have "rtp_prepare B (tally ds x y st) dg a t1 t2 w = (tally ds x y st', [])" by (simp add: prepare_tally assms(2))
  with turn_state_step [OF assms(1), of "RtpIn dg a t1 t2 w 0"] show ?thesis by (simp add: rtp_turn)
qed

lemma in_turn_insert:
  assumes "prepared B st0 batch now st" "insert_batch (reorder st) now batch = (g, outs)"
  shows "turn_state B st0 (rtp_account (st\<lparr>reorder := g\<rparr>) batch now outs)"
proof -
  from assms(1) obtain turn st1 dg src t1 t2 w where p: "batch \<noteq> []" "turn_state B st0 turn"
    "rtp_prepare B turn dg src t1 t2 w = (st1, batch)" "st = st1\<lparr>rtp_peer_live := Some now\<rparr>"
    unfolding prepared_def by blast
  from turn_state_step [OF p(2), of "RtpIn dg src t1 t2 w now"] assms(2) p(1,4) show ?thesis
    by (simp add: rtp_turn [OF p(3)])
qed

lemma refines_turns_step:
  assumes "thread_step B spurious s s'" "refines_turns B st0 s"
  shows "refines_turns B st0 s'"
  unfolding refines_turns_def
proof
  fix ok
  obtain ds x y where T: "deliver_all ok (pending_items (drain_pc s)) st = tally ds x y st" for st
    using deliver_items_tally [of ok 0 "pending_items (drain_pc s)"] by blast
  have now: "in_turn B st0 (recv_pc s) (tally ds x y (rx s))" using assms(2) by (simp add: refines_turns_def flip: T)
  have idle: "in_turn B st0 (recv_pc s) (rx s)" if "pending_items (drain_pc s) = []"
    using assms(2) that by (simp add: refines_turns_def)
  from assms(1) show "in_turn B st0 (recv_pc s') (deliver_all ok (pending_items (drain_pc s')) (rx s'))"
  proof cases
    case (d_drain t g items)
    with in_turn_drain [OF idle, of t g items ok] show ?thesis by simp
  next
    case (d_wait t g clock now2)
    with in_turn_drain [OF idle, of t g "[]" ok] show ?thesis by simp
  next
    case (d_deliver item items taken)
    obtain ok' where "deliver_all ok' (item # items) (rx s)
        = deliver_all ok items (fst (deliver_item (\<lambda>_. taken) (rx s, 0) item))"
      using deliver_split [of item items ok taken] by blast
    with assms(2) d_deliver show ?thesis by (auto simp: refines_turns_def dest: spec [of _ ok'])
  next
    case (r_nothing dg a t1 t2 w st)
    with in_turn_nothing [OF _ r_nothing(3)] now show ?thesis by (simp add: T)
  next
    case (r_batch dg a t1 t2 w st batch t)
    have "rtp_prepare B (tally ds x y (rx s)) dg a t1 t2 w = (tally ds x y st, batch)"
      by (simp add: prepare_tally r_batch(3))
    from preparedI [OF _ this r_batch(4)] r_batch now show ?thesis by (simp add: T)
  next
    case (r_control ev)
    with now show ?thesis by (simp add: T turn_state_step flip: control_tally)
  next
    case (r_insert batch t g outs)
    with in_turn_insert [of B st0 batch t "tally ds x y (rx s)" g outs] now show ?thesis by (simp add: T)
  next
    case (r_account batch t outs)
    with now show ?thesis by (simp add: T rtp_account_tally)
  qed (use now idle in \<open>simp_all add: T\<close>)
qed

interpretation turns: step_invariant "thread_step B spurious" "refines_turns B st0" for B spurious st0
  by unfold_locales (rule refines_turns_step)

lemma turns_of_threads:
  assumes "thread_run B spurious (threads_init st) s"
    and "recv_pc s \<in> {RSelect, RShutdown, RJoin, RDone}" "\<forall>item items. drain_pc s \<noteq> DDeliver (item # items)"
  shows "\<exists>evs. rx s = receiver_run B st evs"
proof -
  have "turn_state B st st" unfolding turn_state_def by (metis receiver_run_simps(1))
  then have "refines_turns B st (threads_init st)" by (simp add: refines_turns_def threads_init_def)
  with turns.inv_run [OF assms(1)] have "in_turn B st (recv_pc s) (deliver_all ok (pending_items (drain_pc s)) (rx s))" for ok
    by (simp add: refines_turns_def)
  moreover have "pending_items (drain_pc s) = []"
    using assms(3) by (cases "drain_pc s"; cases "pending_items (drain_pc s)") auto
  ultimately show ?thesis using assms(2) by (auto simp: turn_state_def)
qed

text \<open>
  C12: The threads refine the turns. Whatever the interleaving of the receive task and the delivery
  thread, in every reachable state in which the task is not in the middle of a media batch and the
  thread has forwarded what it drained, the state of the receiver is one the turn-by-turn model
  reaches by some sequence of its events.
\<close>

theorem threads_refine_turns:
  assumes "thread_run B spurious (threads_init st) s"
    and "recv_pc s \<in> {RSelect, RShutdown, RJoin, RDone}" "\<forall>item items. drain_pc s \<noteq> DDeliver (item # items)"
  shows "\<exists>evs. rx s = receiver_run B st evs"
  using assms by (rule turns_of_threads)

theorem threads_refine_turns_witness:
  "\<exists>s evs. thread_run be_bytes_api False (threads_init (receiver_init config_default 3 [] 0 0)) s
     \<and> drain_pc s = DPass \<and> rx s = receiver_run be_bytes_api (receiver_init config_default 3 [] 0 0) evs"
proof -
  let ?st = "receiver_init config_default 3 [] 0 0"
  let ?s1 = "(threads_init ?st)\<lparr>lock_owner := Some DrainThread, drain_pc := DPass\<rparr>"
  let ?s2 = "?s1\<lparr>rx := receiver_step be_bytes_api (rx ?s1) (RxTick 7)\<rparr>"
  have "thread_step be_bytes_api False ?s1 ?s2" by (rule r_control) (simp_all add: threads_init_def)
  with thread_passes have run: "thread_run be_bytes_api False (threads_init ?st) ?s2" by (rule rtranclp.rtrancl_into_rtrancl)
  have "\<exists>evs. rx ?s2 = receiver_run be_bytes_api ?st evs"
    by (rule threads_refine_turns [OF run]) (simp_all add: threads_init_def)
  with run show ?thesis by (auto intro!: exI [of _ ?s2])
qed

end
