(* ===== verification/Rist_Channel.thy ===== *)
theory Rist_Channel
  imports Rist_Guard
begin

text \<open>
  Binding the port pair of a session, \<open>RistChannel::bind\<close> of \<open>channel.rs\<close>. The calls of the
  operating system are parameters, with their errors. The theorem shows that a bound channel is an
  adjacent pair of an even and an odd port unless port 0 was asked for.
\<close>

datatype 'e ChannelError = OddPort u16 | Io 'e

record 's RistChannel =
  rtp :: 's
  rtcp :: 's
  local_rtp_addr :: SocketAddr
  local_rtcp_addr :: SocketAddr

text \<open>
  What the code calls of the operating system, on sockets \<open>'r\<close> before and \<open>'s\<close> after they are handed
  to the runtime. The kernel may cap the buffer sizes; the calls that request them cannot fail the
  creation, so they only change the socket.
\<close>

datatype Domain = IPV4 | IPV6

record ('r, 's, 'e) udp_api =
  socket_new :: "Domain \<Rightarrow> 'e + 'r"
  set_reuse_address :: "'r \<Rightarrow> 'e + 'r"
  set_nonblocking :: "'r \<Rightarrow> 'e + 'r"
  set_recv_buffer_size :: "nat \<Rightarrow> 'r \<Rightarrow> 'r"
  set_send_buffer_size :: "nat \<Rightarrow> 'r \<Rightarrow> 'r"
  socket_bind :: "'r \<Rightarrow> SocketAddr \<Rightarrow> 'e + 'r"
  from_std :: "'r \<Rightarrow> 'e + 's"
  socket_local_addr :: "'s \<Rightarrow> 'e + SocketAddr"

definition DEFAULT_RECV_BUFFER :: nat where "DEFAULT_RECV_BUFFER = 32 * 1024 * 1024"
definition DEFAULT_SEND_BUFFER :: nat where "DEFAULT_SEND_BUFFER = 32 * 1024 * 1024"

fun is_ipv4 :: "SocketAddr \<Rightarrow> bool" where
  "is_ipv4 (SocketV4 _ _) = True"
| "is_ipv4 _ = False"

text \<open>The \<open>?\<close> operator inside \<open>create_udp_socket\<close>, and on an I/O result inside \<open>bind\<close>.\<close>

definition try_io :: "'e + 'a \<Rightarrow> ('a \<Rightarrow> 'e + 'b) \<Rightarrow> 'e + 'b" where
  "try_io m f = (case m of Inl e \<Rightarrow> Inl e | Inr x \<Rightarrow> f x)"

definition io_bind :: "'e + 'a \<Rightarrow> ('a \<Rightarrow> 'e ChannelError + 'b) \<Rightarrow> 'e ChannelError + 'b" where
  "io_bind m f = (case m of Inl e \<Rightarrow> Inl (Io e) | Inr x \<Rightarrow> f x)"

definition create_udp_socket :: "('r, 's, 'e) udp_api \<Rightarrow> SocketAddr \<Rightarrow> 'e + 's" where
  "create_udp_socket os addr =
     (let domain = (if is_ipv4 addr then IPV4 else IPV6)
      in try_io (socket_new os domain) (\<lambda>socket.
         try_io (set_reuse_address os socket) (\<lambda>socket.
         try_io (set_nonblocking os socket) (\<lambda>socket.
           let socket = set_recv_buffer_size os DEFAULT_RECV_BUFFER socket;
               socket = set_send_buffer_size os DEFAULT_SEND_BUFFER socket
           in try_io (socket_bind os socket addr) (from_std os)))))"

definition channel_bind :: "('r, 's, 'e) udp_api \<Rightarrow> SocketAddr \<Rightarrow> 'e ChannelError + 's RistChannel" where
  "channel_bind os rtp_addr =
     (if sock_port rtp_addr mod 2 \<noteq> 0 then Inl (OddPort (sock_port rtp_addr))
      else let rtcp_addr = socket_addr_new (sock_ip rtp_addr) (sock_port rtp_addr + 1)
           in io_bind (create_udp_socket os rtp_addr) (\<lambda>rtp_s.
              io_bind (create_udp_socket os rtcp_addr) (\<lambda>rtcp_s.
              io_bind (socket_local_addr os rtp_s) (\<lambda>rtp_a.
              io_bind (socket_local_addr os rtcp_s) (\<lambda>rtcp_a.
              Inr \<lparr>rtp = rtp_s, rtcp = rtcp_s, local_rtp_addr = rtp_a, local_rtcp_addr = rtcp_a\<rparr>)))))"

lemma io_bind_Inr [simp]: "io_bind m f = Inr y \<longleftrightarrow> (\<exists>x. m = Inr x \<and> f x = Inr y)"
  by (simp add: io_bind_def split: sum.splits)

lemma even_unat_u16: "even (unat (p :: u16)) \<longleftrightarrow> even p"
proof -
  have "bit (unat p) 0 \<longleftrightarrow> bit p 0" by (simp add: bit_unsigned_iff)
  then show ?thesis by (simp add: bit_0)
qed

lemma even_port_has_successor: "even (p :: u16) \<Longrightarrow> unat (p + 1) = unat p + 1"
proof -
  assume "even p"
  then have "even (unat p)" using even_unat_u16 by blast
  then have "unat p \<noteq> 65535" by (metis odd_numeral)
  then have "unat p + 1 < 65536" using unat_u16_lt [of p] by linarith
  then show "unat (p + 1) = unat p + 1" by (simp add: unat_word_ariths)
qed

text \<open>
  What is relied on of the system: a bound socket reports the address it was bound to, its port
  included unless that was 0, when the system has chosen one.
\<close>

definition names_bound_address :: "('r, 's, 'e) udp_api \<Rightarrow> bool" where
  "names_bound_address os \<longleftrightarrow> (\<forall>r a r' s a'. socket_bind os r a = Inr r' \<longrightarrow> from_std os r' = Inr s \<longrightarrow> socket_local_addr os s = Inr a' \<longrightarrow>
     sock_ip a' = sock_ip a \<and> (sock_port a \<noteq> 0 \<longrightarrow> sock_port a' = sock_port a))"

lemma try_io_Inr [simp]: "try_io m f = Inr y \<longleftrightarrow> (\<exists>x. m = Inr x \<and> f x = Inr y)"
  by (simp add: try_io_def split: sum.splits)

lemma created_socket_address:
  assumes "names_bound_address os" "create_udp_socket os a = Inr s" "socket_local_addr os s = Inr a'"
  shows "sock_ip a' = sock_ip a \<and> (sock_port a \<noteq> 0 \<longrightarrow> sock_port a' = sock_port a)"
  using assms unfolding names_bound_address_def create_udp_socket_def Let_def by auto

lemma bound_channel_ports:
  assumes os: "names_bound_address os" and bound: "channel_bind os addr = Inr ch"
  shows "even (unat (sock_port addr)) \<and> sock_ip (local_rtp_addr ch) = sock_ip addr \<and> sock_ip (local_rtcp_addr ch) = sock_ip addr
    \<and> (sock_port addr \<noteq> 0 \<longrightarrow> sock_port (local_rtp_addr ch) = sock_port addr
         \<and> unat (sock_port (local_rtcp_addr ch)) = unat (sock_port (local_rtp_addr ch)) + 1)
    \<and> (sock_port addr = 0 \<longrightarrow> sock_port (local_rtcp_addr ch) = 1)"
proof -
  have p: "sock_port addr mod 2 = 0 \<longleftrightarrow> even (unat (sock_port addr))"
    by (simp add: even_unat_u16 flip: even_iff_mod_2_eq_zero)
  have even: "even (unat (sock_port addr))" using bound p by (auto simp: channel_bind_def split: if_splits)
  have made: "create_udp_socket os addr = Inr (rtp ch)" "create_udp_socket os (rtcp_addr_for addr) = Inr (rtcp ch)"
    "socket_local_addr os (rtp ch) = Inr (local_rtp_addr ch)" "socket_local_addr os (rtcp ch) = Inr (local_rtcp_addr ch)"
    using bound by (auto simp: channel_bind_def Let_def rtcp_addr_for_def split: if_splits)
  have ctl: "sock_port (rtcp_addr_for addr) = sock_port addr + 1" "sock_ip (rtcp_addr_for addr) = sock_ip addr"
    by (cases addr; simp add: rtcp_addr_for_def)+
  have succ: "unat (sock_port addr + 1) = unat (sock_port addr) + 1" using even even_unat_u16 by (blast intro: even_port_has_successor)
  then have "sock_port addr + 1 \<noteq> 0" by (metis Suc_eq_plus1 nat.distinct(1) unat_0)
  with created_socket_address [OF os made(2,4)] created_socket_address [OF os made(1,3)] even succ ctl show ?thesis by auto
qed

text \<open>An odd port is refused with its number before any socket is created.\<close>

lemma channel_bind_odd_port:
  assumes "odd (unat (sock_port addr))"
  shows "channel_bind os addr = Inl (OddPort (sock_port addr))"
  using assms by (simp add: channel_bind_def even_unat_u16 flip: even_iff_mod_2_eq_zero)

text \<open>
  C40: A bound channel is a port pair, on a system whose bound sockets report the address they were
  bound to (a port 0 apart, for which the system chooses one). When \<open>bind\<close> succeeds, the requested
  port is even, and both sockets have the requested host; if the port is not 0, the media socket has
  it and the control socket has the next one, which exists: the addition does not wrap. If it is 0,
  the media socket has whatever port the system chose and the control socket has port 1, so the
  two are not adjacent. An odd port is refused with its number before any socket is created.
\<close>

theorem channel_bind_port_pair:
  assumes "names_bound_address os"
  shows "(\<forall>ch. channel_bind os addr = Inr ch \<longrightarrow>
      even (unat (sock_port addr)) \<and> sock_ip (local_rtp_addr ch) = sock_ip addr \<and> sock_ip (local_rtcp_addr ch) = sock_ip addr
      \<and> (sock_port addr \<noteq> 0 \<longrightarrow> sock_port (local_rtp_addr ch) = sock_port addr
           \<and> unat (sock_port (local_rtcp_addr ch)) = unat (sock_port (local_rtp_addr ch)) + 1)
      \<and> (sock_port addr = 0 \<longrightarrow> sock_port (local_rtcp_addr ch) = 1))
    \<and> (odd (unat (sock_port addr)) \<longrightarrow> channel_bind os addr = Inl (OddPort (sock_port addr)))"
  using bound_channel_ports [OF assms] channel_bind_odd_port by blast

text \<open>A system that gives the next free port for port 0.\<close>

definition loopback_os :: "(SocketAddr option, SocketAddr, nat) udp_api" where
  "loopback_os = \<lparr>socket_new = \<lambda>_. Inr None, set_reuse_address = Inr, set_nonblocking = Inr,
     set_recv_buffer_size = \<lambda>_ s. s, set_send_buffer_size = \<lambda>_ s. s,
     socket_bind = \<lambda>_ a. Inr (Some (if sock_port a = 0 then socket_addr_new (sock_ip a) 49152 else a)),
     from_std = \<lambda>s. (case s of Some a \<Rightarrow> Inr a | None \<Rightarrow> Inl 9), socket_local_addr = Inr\<rparr>"

lemma loopback_names: "names_bound_address loopback_os"
  by (auto simp: names_bound_address_def loopback_os_def split: option.splits) (metis IpAddr.exhaust sock_ip.simps socket_addr_new.simps)

theorem channel_bind_port_pair_witness:
  "(\<exists>ch. channel_bind loopback_os (SocketV4 1 5000) = Inr ch \<and> sock_port (local_rtp_addr ch) = 5000 \<and> unat (sock_port (local_rtcp_addr ch)) = 5001)
   \<and> (\<exists>ch. channel_bind loopback_os (SocketV4 1 0) = Inr ch \<and> sock_port (local_rtp_addr ch) = 49152 \<and> sock_port (local_rtcp_addr ch) = 1)"
proof
  obtain ch where ch: "channel_bind loopback_os (SocketV4 1 5000) = Inr ch"
    by (simp add: channel_bind_def create_udp_socket_def try_io_def io_bind_def loopback_os_def Let_def)
  with channel_bind_port_pair [OF loopback_names, of "SocketV4 1 5000"] show "\<exists>ch. channel_bind loopback_os (SocketV4 1 5000) = Inr ch
      \<and> sock_port (local_rtp_addr ch) = 5000 \<and> unat (sock_port (local_rtcp_addr ch)) = 5001"
    by simp
  obtain ch where ch: "channel_bind loopback_os (SocketV4 1 0) = Inr ch" "sock_port (local_rtp_addr ch) = 49152"
    by (simp add: channel_bind_def create_udp_socket_def try_io_def io_bind_def loopback_os_def Let_def)
  with channel_bind_port_pair [OF loopback_names, of "SocketV4 1 0"] show "\<exists>ch. channel_bind loopback_os (SocketV4 1 0) = Inr ch
      \<and> sock_port (local_rtp_addr ch) = 49152 \<and> sock_port (local_rtcp_addr ch) = 1" by simp
qed

end
