(* ===== verification/Rist_Socket.thy ===== *)
theory Rist_Socket
  imports Rist_Threads Rist_Sender Rist_Channel
begin

text \<open>
  The public socket (\<open>socket.rs\<close>, \<open>listener.rs\<close>) and the bounded channels between the application and
  the two tasks: 256 payloads towards the sender, 1024 packets from the delivery thread. A sender
  puts every accepted payload on the wire once, in order, under consecutive numbers; a receiver
  hands over, in order, what the drains released under consecutive numbers, and a packet is dropped
  only while 1024 are unread.
\<close>

section \<open>The socket\<close>

datatype RistRole = RoleSender | RoleReceiver

text \<open>
  The sender's end: the channel of the handle, whether the task still runs, whether it was
  cancelled, the state of its loop, and the payloads \<open>send\<close> has accepted.
\<close>

record SenderTask =
  sd_queue :: "bytes list"
  sd_running :: bool
  sd_cancelled :: bool
  sd_state :: SenderState
  sd_accepted :: "bytes list"

text \<open>
  The receiver's end: the channel, whether the application still holds its end, and the two threads; and for the statements below what
  \<open>recv_delivered\<close> has returned, what the drains have taken out of the buffer, and how many packets the
  channel has refused.
\<close>

record ReceiverTask =
  rv_queue :: "RistDelivered list"
  rv_open :: bool
  rv_threads :: Threads
  rv_taken :: "RistDelivered list"
  rv_released :: "DrainItem list"
  rv_refused :: nat

record RistSocket =
  sk_sender :: "SenderTask option"
  sk_receiver :: "ReceiverTask option"
  sk_role :: RistRole

definition SEND_CHANNEL :: nat where [simp]: "SEND_CHANNEL = 256"
definition RECV_CHANNEL :: nat where [simp]: "RECV_CHANNEL = 1024"

definition spawn_sender ::
  "RistSocketConfig \<Rightarrow> SocketAddr \<Rightarrow> u32 \<Rightarrow> u16 \<Rightarrow> bytes \<Rightarrow> instant \<Rightarrow> system_time \<Rightarrow> SenderTask" where
  "spawn_sender config remote rnd_ssrc rnd_seq local_name epoch epoch_system =
     \<lparr>sd_queue = [], sd_running = True, sd_cancelled = False,
      sd_state = sender_init config remote rnd_ssrc rnd_seq local_name epoch epoch_system, sd_accepted = []\<rparr>"

definition spawn_receiver :: "RistSocketConfig \<Rightarrow> u32 \<Rightarrow> bytes \<Rightarrow> instant \<Rightarrow> instant \<Rightarrow> ReceiverTask" where
  "spawn_receiver config rnd_ssrc local_name sched_clock t_start =
     \<lparr>rv_queue = [], rv_open = True, rv_threads = threads_init (receiver_init config rnd_ssrc local_name sched_clock t_start),
      rv_taken = [], rv_released = [], rv_refused = 0\<rparr>"

text \<open>
  The constructors. Binding the port pair may fail; \<open>fmt\<close> prints a socket address, the default name
  of a source; what the tasks draw at random and read from the clock when they start are arguments.
\<close>

definition socket_sender ::
  "('r, 's, 'e) udp_api \<Rightarrow> (SocketAddr \<Rightarrow> bytes) \<Rightarrow> RistSocketConfig \<Rightarrow> SocketAddr \<Rightarrow> u32 \<Rightarrow> u16 \<Rightarrow> instant \<Rightarrow> system_time
   \<Rightarrow> 'e ChannelError + RistSocket" where
  "socket_sender os fmt config remote rnd_ssrc rnd_seq epoch epoch_system =
     (case channel_bind os (local_addr config) of
        Inl e \<Rightarrow> Inl e
      | Inr channel \<Rightarrow>
          Inr \<lparr>sk_sender = Some (spawn_sender config remote rnd_ssrc rnd_seq (fmt (local_rtp_addr channel)) epoch epoch_system),
               sk_receiver = None, sk_role = RoleSender\<rparr>)"

definition socket_receiver ::
  "('r, 's, 'e) udp_api \<Rightarrow> (SocketAddr \<Rightarrow> bytes) \<Rightarrow> RistSocketConfig \<Rightarrow> u32 \<Rightarrow> instant \<Rightarrow> instant \<Rightarrow> 'e ChannelError + RistSocket" where
  "socket_receiver os fmt config rnd_ssrc sched_clock t_start =
     (case channel_bind os (local_addr config) of
        Inl e \<Rightarrow> Inl e
      | Inr channel \<Rightarrow>
          Inr \<lparr>sk_sender = None,
               sk_receiver = Some (spawn_receiver config rnd_ssrc (fmt (local_rtp_addr channel)) sched_clock t_start),
               sk_role = RoleReceiver\<rparr>)"

text \<open>\<open>RistListener\<close> keeps a configuration; accepting is creating a receiver with it.\<close>

record RistListener = listener_config :: RistSocketConfig

definition listener_accept ::
  "('r, 's, 'e) udp_api \<Rightarrow> (SocketAddr \<Rightarrow> bytes) \<Rightarrow> RistListener \<Rightarrow> u32 \<Rightarrow> instant \<Rightarrow> instant \<Rightarrow> 'e ChannelError + RistSocket" where
  "listener_accept os fmt l rnd_ssrc sched_clock t_start =
     socket_receiver os fmt (listener_config l) rnd_ssrc sched_clock t_start"

text \<open>
  \<open>send\<close> fails with the payload on a receiver and when the task has ended; on a full channel it
  waits. \<open>recv_delivered\<close> returns nothing on a sender and once the delivery thread has ended and the
  channel is empty; on an empty channel it waits.
\<close>

datatype SendResult = Sent | SendError bytes | SendPending
datatype 'a RecvResult = Received 'a | Ended | RecvPending

definition task_send :: "SenderTask \<Rightarrow> bytes \<Rightarrow> SenderTask \<times> SendResult" where
  "task_send t data =
     (if \<not> sd_running t then (t, SendError data)
      else if length (sd_queue t) \<ge> SEND_CHANNEL then (t, SendPending)
      else (t\<lparr>sd_queue := sd_queue t @ [data], sd_accepted := sd_accepted t @ [data]\<rparr>, Sent))"

definition socket_send :: "RistSocket \<Rightarrow> bytes \<Rightarrow> RistSocket \<times> SendResult" where
  "socket_send sk data =
     (case sk_sender sk of
        Some t \<Rightarrow> (let (t, r) = task_send t data in (sk\<lparr>sk_sender := Some t\<rparr>, r))
      | None \<Rightarrow> (sk, SendError data))"

definition task_recv :: "ReceiverTask \<Rightarrow> ReceiverTask \<times> RistDelivered RecvResult" where
  "task_recv t =
     (case rv_queue t of
        d # ds \<Rightarrow> (t\<lparr>rv_queue := ds, rv_taken := rv_taken t @ [d]\<rparr>, Received d)
      | [] \<Rightarrow> (t, if drain_pc (rv_threads t) = DExited then Ended else RecvPending))"

definition socket_recv_delivered :: "RistSocket \<Rightarrow> RistSocket \<times> RistDelivered RecvResult" where
  "socket_recv_delivered sk =
     (case sk_receiver sk of
        Some t \<Rightarrow> (let (t, r) = task_recv t in (sk\<lparr>sk_receiver := Some t\<rparr>, r))
      | None \<Rightarrow> (sk, Ended))"

definition socket_recv :: "RistSocket \<Rightarrow> RistSocket \<times> bytes RecvResult" where
  "socket_recv sk = (let (sk, r) = socket_recv_delivered sk in (sk, map_RecvResult dl_data r))"

text \<open>\<open>close\<close> cancels the task, and the handle goes with the socket.\<close>

definition socket_close :: "RistSocket \<Rightarrow> RistSocket" where
  "socket_close sk =
     sk\<lparr>sk_sender := map_option (\<lambda>t. t\<lparr>sd_cancelled := True\<rparr>) (sk_sender sk),
        sk_receiver := map_option (\<lambda>t. t\<lparr>rv_open := False, rv_threads := (rv_threads t)\<lparr>cancelled := True\<rparr>\<rparr>) (sk_receiver sk)\<rparr>"

section \<open>The sender's end\<close>

text \<open>
  One turn of \<open>sender_loop\<close>: a payload from the channel, an RTCP datagram, an error of the RTCP socket
  (which ends the loop), the report timer, the cancellation. Once the socket is gone and the
  channel is empty, asking it for a payload ends the loop too.
\<close>

datatype SenderTurn = TakeMedia instant | RtcpDatagram bytes SocketAddr instant "nat \<Rightarrow> instant" | RtcpError
  | ReportTimer instant system_time | Cancellation

fun sender_turn :: "bytes_api \<Rightarrow> (nat \<Rightarrow> bool) \<Rightarrow> SenderTask \<Rightarrow> SenderTurn \<Rightarrow> SenderTask" where
  "sender_turn B send_ok t (TakeMedia now) =
     (if \<not> sd_running t then t
      else case sd_queue t of
             pl # q \<Rightarrow> t\<lparr>sd_queue := q, sd_state := sender_step B send_ok (sd_state t) (Media pl now)\<rparr>
           | [] \<Rightarrow> if sd_cancelled t then t\<lparr>sd_running := False\<rparr> else t)"
| "sender_turn B send_ok t (RtcpDatagram dg from recv_at clock) =
     (if sd_running t then t\<lparr>sd_state := sender_step B send_ok (sd_state t) (Rtcp dg from recv_at clock)\<rparr> else t)"
| "sender_turn B send_ok t RtcpError = t\<lparr>sd_running := False\<rparr>"
| "sender_turn B send_ok t (ReportTimer now wall) =
     (if sd_running t then t\<lparr>sd_state := sender_step B send_ok (sd_state t) (Tick now wall)\<rparr> else t)"
| "sender_turn B send_ok t Cancellation = (if sd_cancelled t then t\<lparr>sd_running := False\<rparr> else t)"

datatype SenderUse = AppSend bytes | TaskTurn SenderTurn | AppClose

fun sender_use :: "bytes_api \<Rightarrow> (nat \<Rightarrow> bool) \<Rightarrow> SenderTask \<Rightarrow> SenderUse \<Rightarrow> SenderTask" where
  "sender_use B send_ok t (AppSend data) = (if sd_cancelled t then t else fst (task_send t data))"
| "sender_use B send_ok t (TaskTurn turn) = sender_turn B send_ok t turn"
| "sender_use B send_ok t AppClose = t\<lparr>sd_cancelled := True\<rparr>"

definition sender_uses :: "bytes_api \<Rightarrow> (nat \<Rightarrow> bool) \<Rightarrow> SenderTask \<Rightarrow> SenderUse list \<Rightarrow> SenderTask" where
  "sender_uses B send_ok t us = foldl (sender_use B send_ok) t us"

text \<open>The channel is a queue between the application and the loop.\<close>

definition channel_fifo :: "bytes_api \<Rightarrow> (nat \<Rightarrow> bool) \<Rightarrow> SenderState \<Rightarrow> SenderTask \<Rightarrow> bool" where
  "channel_fifo B send_ok st0 t \<longleftrightarrow>
     (\<exists>evs. sd_state t = sender_run B send_ok st0 evs \<and> sd_accepted t = media_of evs @ sd_queue t)
     \<and> length (sd_queue t) \<le> SEND_CHANNEL"

lemma sender_run_snoc: "sender_run B send_ok st (evs @ [ev]) = sender_step B send_ok (sender_run B send_ok st evs) ev"
  by (simp add: sender_run_def)

lemma channel_fifo_use:
  assumes "channel_fifo B send_ok st0 t"
  shows "channel_fifo B send_ok st0 (sender_use B send_ok t u)"
proof -
  from assms obtain evs where evs: "sd_state t = sender_run B send_ok st0 evs" "sd_accepted t = media_of evs @ sd_queue t"
    "length (sd_queue t) \<le> SEND_CHANNEL" unfolding channel_fifo_def by blast
  have keep: "channel_fifo B send_ok st0 (t\<lparr>sd_running := r\<rparr>)" "channel_fifo B send_ok st0 (t\<lparr>sd_cancelled := r\<rparr>)" for r
    using assms by (simp_all add: channel_fifo_def)
  have control: "channel_fifo B send_ok st0 (t\<lparr>sd_state := sender_step B send_ok (sd_state t) ev\<rparr>)"
    if "media_of (evs @ [ev]) = media_of evs" for ev
    using evs that unfolding channel_fifo_def by (auto simp: sender_run_snoc intro!: exI [of _ "evs @ [ev]"])
  have media: "channel_fifo B send_ok st0 (t\<lparr>sd_queue := q, sd_state := sender_step B send_ok (sd_state t) (Media pl now)\<rparr>)"
    if "sd_queue t = pl # q" for pl q now
    using evs that unfolding channel_fifo_def by (auto simp: sender_run_snoc intro!: exI [of _ "evs @ [Media pl now]"])
  show ?thesis
  proof (cases u)
    case (AppSend data)
    with assms evs show ?thesis by (auto simp: task_send_def channel_fifo_def)
  next
    case (TaskTurn turn)
    show ?thesis
    proof (cases turn)
      case (TakeMedia now)
      with TaskTurn assms media keep show ?thesis by (cases "sd_queue t") simp_all
    next
      case (RtcpDatagram dg a t1 clock)
      with TaskTurn assms control [of "Rtcp dg a t1 clock"] show ?thesis by simp
    next
      case (ReportTimer now wall)
      with TaskTurn assms control [of "Tick now wall"] show ?thesis by simp
    qed (use TaskTurn assms keep in simp_all)
  next
    case AppClose
    with keep show ?thesis by simp
  qed
qed

lemma channel_fifo_uses:
  "channel_fifo B send_ok st0 t \<Longrightarrow> channel_fifo B send_ok st0 (sender_uses B send_ok t us)"
  by (induction us arbitrary: t) (auto simp: sender_uses_def intro: channel_fifo_use)

section \<open>Every accepted payload goes out once, in order\<close>

text \<open>The datagrams sent for the first time: those without the retransmit flag.\<close>

definition is_original :: "bytes_api \<Rightarrow> datagram \<Rightarrow> bool" where
  "is_original B dg \<longleftrightarrow> (case rtp_header_parse B (snd dg) of Ok (h, _) \<Rightarrow> \<not> is_retransmit h | _ \<Rightarrow> False)"

lemma is_original_wire:
  assumes "bytes_crate B"
  shows "is_original B (a, wire B src k ts pl) \<longleftrightarrow> even src"
  by (simp add: is_original_def bytes_crate.wire_parse [OF assms] is_retransmit_iff) (simp add: new_ts_def)

lemma originals_rtcp:
  assumes "bytes_crate B" "sender_inv B st"
  shows "filter (is_original B) (rtp_sent (sender_on_rtcp B send_ok clock st dg a t)) = filter (is_original B) (rtp_sent st)"
proof (rule sender_on_rtcp_cases [of B send_ok clock st dg a t])
  fix c
  let ?st1 = "st\<lparr>remote_rtcp_addr := a, rtcp_peer_live := Some t\<rparr>"
  assume eq: "sender_on_rtcp B send_ok clock st dg a t
     = sender_on_packets B send_ok clock a t 0 ?st1 (nack_budget_template st) (packets c)"
  obtain ds where ds: "set ds \<subseteq> ran (retransmit_get (retransmit_buf st))"
    "rtp_sent (sender_on_rtcp B send_ok clock st dg a t) = rtp_sent st @ map (\<lambda>d. (remote_rtp_addr st, retx_copy d)) ds"
    using sender_on_packets_serves [of a "nack_budget_template st" "packets c" ?st1 B send_ok clock t 0]
    unfolding serves_def eq by auto
  have "\<not> is_original B (remote_rtp_addr st, retx_copy d)" if d: "d \<in> set ds" for d
  proof -
    obtain k where "retransmit_get (retransmit_buf st) k = Some d" using d ds(1) unfolding ran_def by blast
    with assms(2) obtain ts pl where "d = wire B (ssrc st) k ts pl" unfolding sender_inv_def ring_holds_sent_def by blast
    then show ?thesis by (simp add: bytes_crate.retx_copy_wire [OF assms(1)] is_original_wire [OF assms(1)] even_or_iff)
  qed
  then show ?thesis by (simp add: ds(2) filter_empty_conv)
qed simp

lemma sender_originals:
  assumes "bytes_crate B" and init: "st0 = sender_init config remote rs rq name epoch wall"
  shows "\<exists>ts. filter (is_original B) (rtp_sent (sender_run B send_ok st0 evs))
    = map (\<lambda>j. (remote, wire B (ssrc st0) (rq + of_nat j) (ts j) (media_of evs ! j))) [0..<length (media_of evs)]"
proof (induction evs rule: rev_induct)
  case Nil
  then show ?case by (simp add: sender_run_def init sender_init_def Let_def)
next
  case (snoc ev evs)
  let ?st = "sender_run B send_ok st0 evs"
  have reach: "sender_reach B send_ok st0 ?st" by (rule sender_run_reach)
  have inv: "sender_inv B ?st" using reach_inv [OF assms(1)] reach init by blast
  have same: "ssrc ?st = ssrc st0" "remote_rtp_addr ?st = remote"
    using reach_session [OF assms(1) reach] by (simp_all add: init sender_init_def Let_def)
  obtain ts where ts: "filter (is_original B) (rtp_sent ?st)
    = map (\<lambda>j. (remote, wire B (ssrc st0) (rq + of_nat j) (ts j) (media_of evs ! j))) [0..<length (media_of evs)]"
    using snoc by blast
  show ?case
  proof (cases ev)
    case (Media pl now)
    let ?n = "length (media_of evs)" and ?t = "ntp_to_rtp90k (ts_epoch_system ?st) (ts_epoch ?st) now"
    have "seq ?st = rq + of_nat ?n"
      using sender_run_ring [OF assms(1), where st = "sender_run B send_ok st0" and evs = evs] init by metis
    then have "filter (is_original B) (rtp_sent (sender_run B send_ok st0 (evs @ [ev])))
        = filter (is_original B) (rtp_sent ?st) @ [(remote, wire B (ssrc st0) (rq + of_nat ?n) ?t pl)]"
      using inv by (simp add: Media sender_run_snoc sender_on_media_sends [OF assms(1)] same is_original_wire [OF assms(1)] sender_inv_def)
    also have "\<dots> = map (\<lambda>j. (remote, wire B (ssrc st0) (rq + of_nat j) ((ts(?n := ?t)) j) (media_of (evs @ [ev]) ! j)))
        [0..<length (media_of (evs @ [ev]))]"
      by (simp add: ts Media nth_append)
    finally show ?thesis by blast
  qed (use ts originals_rtcp [OF assms(1) inv] in \<open>auto simp: sender_run_snoc sender_on_tick_frame\<close>)
qed

text \<open>
  C15: A sender socket transmits in order. Over any use of a sender socket (payloads offered by the
  application, turns of the task, closing), the payloads \<open>send\<close> accepted are those taken by the task
  followed by those still in the channel, at most 256; and the datagrams sent without the
  retransmit flag are exactly the payloads taken, each once, in the order they were accepted and
  under consecutive sequence numbers from the initial one on, across the wrap-around.
\<close>

theorem socket_sends_in_order:
  assumes "bytes_crate B" and "t = sender_uses B send_ok (spawn_sender config remote rs rq name epoch wall) us"
  shows "\<exists>taken ts. sd_accepted t = taken @ sd_queue t \<and> length (sd_queue t) \<le> 256
    \<and> filter (is_original B) (rtp_sent (sd_state t))
      = map (\<lambda>j. (remote, wire B (rs AND NOT 1) (rq + of_nat j) (ts j) (taken ! j))) [0..<length taken]"
proof -
  let ?st0 = "sender_init config remote rs rq name epoch wall"
  have "channel_fifo B send_ok ?st0 (spawn_sender config remote rs rq name epoch wall)"
    by (auto simp: channel_fifo_def spawn_sender_def sender_run_def intro!: exI [of _ "[]"])
  then have "channel_fifo B send_ok ?st0 t" unfolding assms(2) by (rule channel_fifo_uses)
  then obtain evs where evs: "sd_state t = sender_run B send_ok ?st0 evs" "sd_accepted t = media_of evs @ sd_queue t"
    "length (sd_queue t) \<le> 256" unfolding channel_fifo_def by auto
  have "ssrc ?st0 = rs AND NOT 1" by (simp add: sender_init_def Let_def)
  with sender_originals [OF assms(1) refl, of send_ok config remote rs rq name epoch wall evs] evs show ?thesis by auto
qed

theorem socket_sends_in_order_witness:
  "\<exists>taken ts. sd_accepted (sender_uses be_bytes_api (\<lambda>_. True) (spawn_sender config_default (SocketV4 1 5000) 3 65535 [] 0 0)
        [AppSend [1], AppSend [2], TaskTurn (TakeMedia 5), TaskTurn RtcpError, AppSend [3]]) = taken @ [[2]]
    \<and> taken = [[1]]"
proof -
  let ?us = "[AppSend [1], AppSend [2], TaskTurn (TakeMedia 5), TaskTurn RtcpError, AppSend [3]]"
  let ?t = "sender_uses be_bytes_api (\<lambda>_. True) (spawn_sender config_default (SocketV4 1 5000) 3 65535 [] 0 0) ?us"
  have "sd_queue ?t = [[2]]" "sd_accepted ?t = [[1], [2]]"
    by (simp_all add: sender_uses_def spawn_sender_def task_send_def)
  with socket_sends_in_order [OF be.bytes_crate_axioms refl, of "\<lambda>_. True" config_default "SocketV4 1 5000" 3 65535 "[]" 0 0 ?us]
  show ?thesis by simp
qed

section \<open>The receiver's end\<close>

text \<open>
  Forwarding an item: \<open>try_send\<close> puts a packet at the end of the channel unless 1024 are unread or the
  application has dropped its end; a loss is only counted.
\<close>

fun try_send :: "bool \<Rightarrow> RistDelivered list \<Rightarrow> DrainItem \<Rightarrow> RistDelivered list \<times> bool" where
  "try_send is_open q (Delivered data sq arrival) =
     (if is_open \<and> length q < RECV_CHANNEL then (q @ [\<lparr>dl_data = data, dl_arrival = arrival, dl_rtp_seq = sq\<rparr>], True) else (q, False))"
| "try_send is_open q Lost = (q, True)"

definition forwards :: "Threads \<Rightarrow> Threads \<Rightarrow> bool" where
  "forwards th th' \<longleftrightarrow> (\<exists>item items. drain_pc th = DDeliver (item # items) \<and> drain_pc th' = DDeliver items)"

text \<open>The items the delivery thread has still to forward, and those a step takes out of the buffer.\<close>

fun pending :: "DrainPc \<Rightarrow> DrainItem list" where
  "pending (DDeliver items) = items"
| "pending _ = []"

fun drained :: "DrainPc \<Rightarrow> DrainPc \<Rightarrow> DrainItem list" where
  "drained DPass (DDeliver items) = items"
| "drained _ _ = []"

text \<open>
  The two threads with the channel between them and the application: forwarding an item, any other
  step of the threads, the application taking the oldest packet, and the application dropping its
  end, after which the packets in the channel stay unread.
\<close>

inductive receiver_use :: "bytes_api \<Rightarrow> bool \<Rightarrow> ReceiverTask \<Rightarrow> ReceiverTask \<Rightarrow> bool" for B spurious where
  forward: "\<lbrakk>drain_pc (rv_threads t) = DDeliver (item # items); try_send (rv_open t) (rv_queue t) item = (q, ok)\<rbrakk>
    \<Longrightarrow> receiver_use B spurious t
          (t\<lparr>rv_threads := (rv_threads t)\<lparr>drain_pc := DDeliver items, rx := fst (deliver_item (\<lambda>_. ok) (rx (rv_threads t), 0) item)\<rparr>,
             rv_queue := q, rv_refused := rv_refused t + (if ok then 0 else 1)\<rparr>)"
| other: "\<lbrakk>thread_step B spurious (rv_threads t) th; \<not> forwards (rv_threads t) th\<rbrakk>
    \<Longrightarrow> receiver_use B spurious t
          (t\<lparr>rv_threads := th, rv_released := rv_released t @ drained (drain_pc (rv_threads t)) (drain_pc th)\<rparr>)"
| take: "\<lbrakk>rv_open t; task_recv t = (t', Received d)\<rbrakk> \<Longrightarrow> receiver_use B spurious t t'"
| drop_handle: "receiver_use B spurious t (t\<lparr>rv_open := False\<rparr>)"

lemma delivered_prepare: "rtp_prepare B st dg a t1 t2 w = (st', batch) \<Longrightarrow> delivered st' = delivered st"
  by (auto simp: rtp_prepare_def Let_def split: if_splits option.splits)

lemma delivered_account: "delivered (rtp_account st batch now outcomes) = delivered st"
  by (simp add: rtp_account_def account_frame Let_def)

lemma delivered_control: "control_event ev \<Longrightarrow> delivered (receiver_step B st ev) = delivered st"
  by (cases ev) (simp_all add: receiver_frames)

lemma delivered_other:
  assumes "thread_step B spurious th th'" "\<not> forwards th th'"
  shows "delivered (rx th') = delivered (rx th)"
  using assms by cases (auto simp: forwards_def delivered_prepare delivered_account delivered_control)

lemma pending_wake [simp]: "pending (wake pc) = pending pc" "drained pc (wake pc) = []"
  by (cases pc; simp)+

lemma pending_wait [simp]: "pending (drain_wait g c n) = []" "drained DPass (drain_wait g c n) = []"
  by (simp_all add: drain_wait_def split: option.splits)

lemma drained_same [simp]: "drained pc pc = []"
  by (cases pc) simp_all

lemma pending_other:
  assumes "thread_step B spurious th th'" "\<not> forwards th th'"
  shows "pending (drain_pc th') = pending (drain_pc th) @ drained (drain_pc th) (drain_pc th')"
  using assms by cases (auto simp: forwards_def)

text \<open>What was released and is not pending has been handed on, lost or refused.\<close>

definition inbox_ok :: "bytes_api \<Rightarrow> bool \<Rightarrow> ReceiverState \<Rightarrow> ReceiverTask \<Rightarrow> bool" where
  "inbox_ok B spurious st0 t \<longleftrightarrow> thread_run B spurious (threads_init st0) (rv_threads t)
     \<and> delivered (rx (rv_threads t)) = delivered st0 @ rv_taken t @ rv_queue t \<and> length (rv_queue t) \<le> RECV_CHANNEL
     \<and> (\<exists>gone. rv_released t = gone @ pending (drain_pc (rv_threads t)) \<and> subseq (map as_item (rv_taken t @ rv_queue t)) gone
          \<and> length (filter (\<lambda>x. x \<noteq> Lost) gone) = length (rv_taken t) + length (rv_queue t) + rv_refused t)"

lemma inbox_ok_use:
  assumes "receiver_use B spurious t t'" "inbox_ok B spurious st0 t"
  shows "inbox_ok B spurious st0 t'"
  using assms(1)
proof cases
  case (forward item items q ok)
  let ?th = "(rv_threads t)\<lparr>drain_pc := DDeliver items, rx := fst (deliver_item (\<lambda>_. ok) (rx (rv_threads t), 0) item)\<rparr>"
  have "thread_step B spurious (rv_threads t) ?th" by (rule d_deliver [OF forward(2)])
  with assms(2) have run: "thread_run B spurious (threads_init st0) ?th"
    unfolding inbox_ok_def by (meson rtranclp.rtrancl_into_rtrancl)
  obtain gone where d: "rv_released t = gone @ item # items" "subseq (map as_item (rv_taken t @ rv_queue t)) gone"
    "length (filter (\<lambda>x. x \<noteq> Lost) gone) = length (rv_taken t) + length (rv_queue t) + rv_refused t"
    using assms(2) forward(2) by (auto simp: inbox_ok_def)
  have "subseq (map as_item (rv_taken t @ q)) (gone @ [item])
      \<and> length (filter (\<lambda>x. x \<noteq> Lost) (gone @ [item])) = length (rv_taken t) + length q + (rv_refused t + (if ok then 0 else 1))
      \<and> length q \<le> RECV_CHANNEL
      \<and> delivered (rx ?th) = delivered st0 @ rv_taken t @ q"
    using forward(3) d(2,3) assms(2) list_emb_append_mono [OF d(2), of "[item]" "[item]"]
    by (cases item) (auto simp: inbox_ok_def deliver_item_def as_item_def intro: list_emb_append2 split: if_splits)
  with run d(1) show ?thesis unfolding forward(1) inbox_ok_def by (auto intro!: exI [of _ "gone @ [item]"])
next
  case (other th)
  with assms(2) delivered_other [OF other(2,3)] pending_other [OF other(2,3)] show ?thesis
    unfolding inbox_ok_def by (auto intro: rtranclp.rtrancl_into_rtrancl)
next
  case (take d)
  with assms(2) show ?thesis by (auto simp: inbox_ok_def task_recv_def split: list.splits)
next
  case drop_handle
  with assms(2) show ?thesis by (simp add: inbox_ok_def)
qed

text \<open>
  The buffer after a run from its start has released one item for each number from a first one on.
\<close>

definition numbered :: "u16 \<Rightarrow> DrainItem list \<Rightarrow> bool" where
  "numbered b items \<longleftrightarrow> (\<forall>j < length items. items ! j = Lost \<or> (\<exists>d t. items ! j = Delivered d (b + of_nat j) t))"

definition has_released :: "ReorderBuffer \<Rightarrow> DrainItem list \<Rightarrow> bool" where
  "has_released g items \<longleftrightarrow> reorder_inv g \<and> (queue_of g = None \<and> items = []
     \<or> (\<exists>b l. log_wf l \<and> queue_of g = log_queue b l \<and> items = log_items b l))"

lemma numbered_log: "log_wf l \<Longrightarrow> numbered b (log_items b l)"
proof -
  have "drain_item q e = Lost \<or> (\<exists>d t. drain_item q e = Delivered d q t)" for q e by (cases e) simp_all
  then show ?thesis by (simp add: numbered_def log_items_def nth_q_items)
qed

lemma has_released_step:
  assumes "has_released g items" "op_fits (capacity g) (queue_of g) x" "reorder_step g x = (g', out')"
  shows "has_released g' (items @ out')"
proof -
  have inv: "reorder_inv g" using assms(1) by (simp add: has_released_def)
  show ?thesis
  proof (cases "queue_of g")
    case (Some be)
    with assms(1) obtain b l where l: "log_wf l" "queue_of g = log_queue b l" "items = log_items b l" by (auto simp: has_released_def)
    from rb.step_log [OF inv l(2,1) assms(2)] assms(3) log_wf_op [OF l(1)] l(3) show ?thesis
      unfolding rb_step has_released_def by metis
  next
    case None
    with assms(1) have items: "items = []" by (auto simp: has_released_def log_queue_def)
    show ?thesis
    proof (cases x)
      case (Ins q d t)
      obtain oc where i: "reorder_insert g q d t = (g', oc)" "out' = []" using assms(3) Ins by (cases "reorder_insert g q d t") simp
      have "reorder_inv g' \<and> queue_of g' = Some (q, [Filled d t])" using rb.ins_law [OF inv _ i(1)] None by simp
      moreover have "Some (q, [Filled d t]) = log_queue q ([Filled d t], 0)" "log_wf ([Filled d t], 0)" "[] = log_items q ([Filled d t], 0)"
        by (simp_all add: log_queue_def log_wf_def log_items_def)
      ultimately show ?thesis unfolding has_released_def items i(2) append_Nil by metis
    next
      case (Drain t)
      with rb.drain_law [OF inv, of t] assms(3) None show ?thesis by (auto simp: has_released_def items)
    qed
  qed
qed

lemma has_released_run:
  "has_released g items \<Longrightarrow> run_fits g xs \<Longrightarrow> reorder_run g xs = (g', out') \<Longrightarrow> has_released g' (items @ out')"
proof (induction xs arbitrary: g items out')
  case (Cons x xs)
  obtain g1 o1 where one: "reorder_step g x = (g1, o1)" by fastforce
  obtain o2 where rest: "reorder_run g1 xs = (g', o2)" "out' = o1 @ o2" using Cons.prems(3) one by (auto split: prod.splits)
  from Cons.IH [OF has_released_step [OF Cons.prems(1) _ one] _ rest(1)] Cons.prems(2) one rest(2) show ?case by simp
qed simp

text \<open>No packet of a batch that is about to be inserted lies a ring or more ahead of the base.\<close>

definition batch_fits :: "Threads \<Rightarrow> bool" where
  "batch_fits th \<longleftrightarrow> (\<forall>batch now. recv_pc th = RInsert batch now \<longrightarrow>
     run_fits (reorder (rx th)) (map (\<lambda>p. Ins (p_seq p) (p_payload p) now) batch))"

definition fitting_use :: "bytes_api \<Rightarrow> bool \<Rightarrow> ReceiverTask \<Rightarrow> ReceiverTask \<Rightarrow> bool" where
  "fitting_use B spurious t t' \<longleftrightarrow> receiver_use B spurious t t' \<and> batch_fits (rv_threads t)"

lemma has_released_thread:
  assumes "thread_step B spurious th th'" "batch_fits th" "has_released (reorder (rx th)) items"
  shows "has_released (reorder (rx th')) (items @ (if forwards th th' then [] else drained (drain_pc th) (drain_pc th')))"
  using assms(1)
proof cases
  case (d_drain now g out')
  from has_released_run [OF assms(3), of "[Drain now]"] d_drain show ?thesis by (simp add: forwards_def)
next
  case (d_wait now g clock now2)
  from has_released_run [OF assms(3), of "[Drain now]"] d_wait show ?thesis by simp
next
  case (r_insert batch now g outcomes)
  have "reorder_run (reorder (rx th)) (map (\<lambda>p. Ins (p_seq p) (p_payload p) now) batch) = (g, [])"
    using r_insert by (simp add: insert_batch_run)
  from has_released_run [OF assms(3) _ this] assms(2) r_insert show ?thesis by (simp add: batch_fits_def)
qed (use assms(3) in \<open>auto simp: forwards_def reorder_prepare reorder_account reorder_deliver reorder_control\<close>)

lemma has_released_use:
  assumes "receiver_use B spurious t t'" "batch_fits (rv_threads t)" "has_released (reorder (rx (rv_threads t))) (rv_released t)"
  shows "has_released (reorder (rx (rv_threads t'))) (rv_released t')"
  using assms(1)
proof cases
  case (other th)
  with has_released_thread [OF other(2) assms(2,3)] show ?thesis by simp
qed (use assms(3) in \<open>auto simp: reorder_deliver task_recv_def split: list.splits\<close>)

interpretation inbox: step_invariant "fitting_use B spurious"
  "\<lambda>t. inbox_ok B spurious st0 t \<and> has_released (reorder (rx (rv_threads t))) (rv_released t)" for B spurious st0
  by unfold_locales (auto simp: fitting_use_def intro: inbox_ok_use has_released_use)

text \<open>
  C16: A receiver socket hands over in order. Over any use of a receiver socket, whatever the
  interleaving of the receive task, the delivery thread and the application, as long as no packet of
  a batch lies outside the reorder window when it is inserted: what the drains have released, and
  the thread has still to forward, is one item for each sequence number from a first one on, across
  the wrap-around. Of the items forwarded, the packets the application has taken followed by
  those in the channel, at most 1024, are a part in the order of release; the packets missing from it
  are exactly as many as the channel refused, which it does only while 1024 are unread or when the
  application has dropped its end. And these packets are the ones the receiver's log of deliveries
  records.
\<close>

theorem socket_receives_in_order:
  assumes "(fitting_use B spurious)\<^sup>*\<^sup>* (spawn_receiver config rs name t0 t1) t"
  shows "\<exists>b forwarded. rv_released t = forwarded @ pending (drain_pc (rv_threads t))
    \<and> (\<forall>j < length (rv_released t). rv_released t ! j = Lost \<or> (\<exists>d u. rv_released t ! j = Delivered d (b + of_nat j) u))
    \<and> subseq (map as_item (rv_taken t @ rv_queue t)) forwarded
    \<and> length (filter (\<lambda>x. x \<noteq> Lost) forwarded) = length (rv_taken t) + length (rv_queue t) + rv_refused t
    \<and> length (rv_queue t) \<le> 1024 \<and> delivered (rx (rv_threads t)) = rv_taken t @ rv_queue t"
proof -
  let ?st0 = "receiver_init config rs name t0 t1"
  have "inbox_ok B spurious ?st0 (spawn_receiver config rs name t0 t1)"
    by (simp add: inbox_ok_def spawn_receiver_def threads_init_def receiver_init_def Let_def)
  moreover have "has_released (reorder (rx (rv_threads (spawn_receiver config rs name t0 t1)))) (rv_released (spawn_receiver config rs name t0 t1))"
    by (simp add: has_released_def spawn_receiver_def threads_init_def reorder_init reorder_new_inv)
  ultimately have ok: "inbox_ok B spurious ?st0 t" and rel: "has_released (reorder (rx (rv_threads t))) (rv_released t)"
    using inbox.inv_run [OF assms] by blast+
  obtain b where "numbered b (rv_released t)" using rel numbered_log by (fastforce simp: has_released_def numbered_def)
  moreover have "delivered ?st0 = []" by (simp add: receiver_init_def Let_def)
  ultimately show ?thesis using ok by (auto simp: inbox_ok_def numbered_def)
qed

text \<open>
  A packet on its way through the threads: received, inserted, drained one hold time later,
  forwarded into the channel and taken by the application.
\<close>

lemma single_packet_drains:
  assumes "reorder_run (reorder_new hold) [Ins q d t, Drain T] = (g, items)" "t + hold \<le> T"
  shows "items = [Delivered d q t]"
proof -
  have "run_fits (with_capacity hold 8192) [Ins q d t, Drain T]" using with_capacity_inv [of 8192 hold] by simp
  from new_run_log [OF _ this, of g items] assms show ?thesis
    by (simp add: reorder_new_def run_log_def log_items_def log_drain_def ripe_def)
qed

lemma other_use:
  assumes "thread_step B spurious (rv_threads t) th" "\<not> forwards (rv_threads t) th" "batch_fits (rv_threads t)"
    and "rv_threads t' = th" "rv_queue t' = rv_queue t" "rv_open t' = rv_open t" "rv_taken t' = rv_taken t" "rv_refused t' = rv_refused t"
    and "rv_released t' = rv_released t @ drained (drain_pc (rv_threads t)) (drain_pc th)"
  shows "fitting_use B spurious t t'"
proof -
  have "t' = t\<lparr>rv_threads := th, rv_released := rv_released t @ drained (drain_pc (rv_threads t)) (drain_pc th)\<rparr>"
    using assms(4-9) by (cases t; cases t') simp
  with other [OF assms(1,2)] assms(3) show ?thesis by (simp add: fitting_use_def)
qed

lemma received_until_drained:
  fixes q :: u16
  assumes prep: "rtp_prepare B (receiver_init config rs name t0 t1) dg a u1 u2 [] = (st1, [p])"
  obtains th where "(fitting_use B spurious)\<^sup>*\<^sup>* (spawn_receiver config rs name t0 t1)
      ((spawn_receiver config rs name t0 t1)\<lparr>rv_threads := th, rv_released := [Delivered (p_payload p) (p_seq p) now]\<rparr>)"
    "drain_pc th = DDeliver [Delivered (p_payload p) (p_seq p) now]" "batch_fits th"
proof -
  let ?t0 = "spawn_receiver config rs name t0 t1" and ?st0 = "receiver_init config rs name t0 t1" and ?hold = "buffer_size config"
  let ?use = "fitting_use B spurious" and ?on = "\<lambda>th. ?t0\<lparr>rv_threads := th\<rparr>"
  define th1 where "th1 = (threads_init ?st0)\<lparr>rx := st1\<lparr>rtp_peer_live := Some now\<rparr>, recv_pc := RBatch [p] now\<rparr>"
  define th2 where "th2 = th1\<lparr>lock_owner := Some RecvTask, recv_pc := RInsert [p] now\<rparr>"
  have g: "reorder (rx th2) = reorder_new ?hold" using reorder_prepare [OF prep] reorder_init(1) by (simp add: th2_def th1_def)
  obtain g1 oc where ins: "insert_batch (reorder (rx th2)) now [p] = (g1, oc)" by fastforce
  define th3 where "th3 = th2\<lparr>lock_owner := None, recv_pc := RNotify [p] now oc, rx := (rx th2)\<lparr>reorder := g1\<rparr>\<rparr>"
  define th4 where "th4 = th3\<lparr>lock_owner := Some DrainThread, drain_pc := DCheck\<rparr>"
  define th5 where "th5 = th4\<lparr>drain_pc := DPass\<rparr>"
  obtain g2 items where dr: "drain_ready g1 (now + ?hold) = (g2, items)" by fastforce
  have "reorder_run (reorder_new ?hold) [Ins (p_seq p) (p_payload p) now, Drain (now + ?hold)] = (g2, items)"
    using ins dr unfolding g by (auto split: prod.splits)
  then have items: "items = [Delivered (p_payload p) (p_seq p) now]" by (rule single_packet_drains) simp
  define th6 where "th6 = th5\<lparr>lock_owner := None, drain_pc := DDeliver items, rx := (rx th5)\<lparr>reorder := g2\<rparr>\<rparr>"
  note ths = th6_def th5_def th4_def th3_def th2_def th1_def threads_init_def forwards_def batch_fits_def spawn_receiver_def
  have "?use ?t0 (?on th1)"
    by (rule other_use [OF r_batch [of _ B dg a u1 u2 "[]" st1 "[p]" spurious now]]) (simp_all add: ths prep)
  moreover have "?use (?on th1) (?on th2)" by (rule other_use [OF r_lock [of _ "[p]" now]]) (simp_all add: ths)
  moreover have "batch_fits th2" using g by (simp add: batch_fits_def th2_def reorder_new_inv)
  then have "?use (?on th2) (?on th3)"
    by (intro other_use [OF r_insert [of "rv_threads (?on th2)" "[p]" now g1 oc]])
      (use ins in \<open>simp_all add: spawn_receiver_def\<close>, simp_all add: th3_def th2_def forwards_def th1_def threads_init_def)
  moreover have "?use (?on th3) (?on th4)" by (rule other_use [OF d_lock]) (simp_all add: ths)
  moreover have "?use (?on th4) (?on th5)" by (rule other_use [OF d_check]) (simp_all add: ths)
  moreover have "reorder (rx th5) = g1" "drain_pc th5 = DPass" by (simp_all add: th5_def th4_def th3_def)
  then have "?use (?on th5) (?on th6\<lparr>rv_released := items\<rparr>)"
    by (intro other_use [OF d_drain [of _ "now + ?hold" g2 items]]) (simp_all add: dr items, simp_all add: ths items)
  ultimately have "?use\<^sup>*\<^sup>* ?t0 (?on th6\<lparr>rv_released := items\<rparr>)" by (meson converse_rtranclp_into_rtranclp rtranclp.rtrancl_refl)
  moreover have "drain_pc th6 = DDeliver items" "batch_fits th6" by (simp_all add: ths)
  ultimately show thesis using that [of th6] unfolding items by blast
qed

theorem socket_receives_in_order_witness:
  "\<exists>t. (fitting_use be_bytes_api False)\<^sup>*\<^sup>* (spawn_receiver config_default 3 [] 0 0) t
     \<and> map dl_data (rv_taken t) = [[0x47]] \<and> rv_released t = [Delivered [0x47] 5 10] \<and> rv_refused t = 0
     \<and> delivered (rx (rv_threads t)) = rv_taken t"
proof -
  let ?use = "fitting_use be_bytes_api False"
  let ?dg = "[0x80, 33, 0, 5, 0, 0, 0, 0, 0, 0, 0, 2, 0x47] :: bytes" and ?spawn = "spawn_receiver config_default 3 [] 0 0"
  let ?p = "\<lparr>p_seq = 5, p_ssrc = 2, p_rtp_ts = 0, p_payload = [0x47], p_arrival_us = 0, p_payload_len = 1, p_is_retransmit = False\<rparr>"
  let ?item = "Delivered [0x47] 5 10" and ?d = "\<lparr>dl_data = [0x47], dl_arrival = 10, dl_rtp_seq = 5\<rparr>"
  have "parse_rtp be_bytes_api ?dg 0 3 = Some ?p" by code_simp
  then obtain st1 where "rtp_prepare be_bytes_api (receiver_init config_default 3 [] 0 0) ?dg (SocketV4 1 5000) 3 3 [] = (st1, [?p])"
    by (simp add: rtp_prepare_def receiver_init_def Let_def source_allowed_def config_default_def)
  from received_until_drained [OF this, of False 10] obtain th where
    th: "?use\<^sup>*\<^sup>* ?spawn (?spawn\<lparr>rv_threads := th, rv_released := [?item]\<rparr>)" "drain_pc th = DDeliver [?item]" "batch_fits th" by auto
  let ?th = "th\<lparr>drain_pc := DDeliver [], rx := fst (deliver_item (\<lambda>_. True) (rx th, 0) ?item)\<rparr>"
  let ?got = "\<lparr>rv_queue = [], rv_open = True, rv_threads = ?th, rv_taken = [?d], rv_released = [?item], rv_refused = 0\<rparr>"
  let ?sent = "\<lparr>rv_queue = [?d], rv_open = True, rv_threads = ?th, rv_taken = [], rv_released = [?item], rv_refused = 0\<rparr>"
  have "?use (?spawn\<lparr>rv_threads := th, rv_released := [?item]\<rparr>) ?sent"
    using forward [of "?spawn\<lparr>rv_threads := th, rv_released := [?item]\<rparr>" ?item "[]" "[?d]" True be_bytes_api False] th(2,3)
    by (simp add: fitting_use_def spawn_receiver_def)
  moreover have "?use ?sent ?got"
    using take [of ?sent ?got ?d be_bytes_api False] th(3)
    by (simp add: fitting_use_def task_recv_def batch_fits_def reorder_deliver)
  ultimately have run: "?use\<^sup>*\<^sup>* ?spawn ?got" using th(1) by (meson rtranclp.rtrancl_into_rtrancl)
  from socket_receives_in_order [OF run] have "delivered (rx (rv_threads ?got)) = rv_taken ?got @ rv_queue ?got" by blast
  with run show ?thesis by (intro exI [of _ ?got]) (simp add: spawn_receiver_def)
qed

section \<open>Roles\<close>

text \<open>A socket is one end of a session: the other end's operations fail at once and change nothing.\<close>

lemma receiver_cannot_send:
  assumes "socket_receiver os fmt config rs t0 t1 = Inr sk"
  shows "socket_send sk data = (sk, SendError data) \<and> sk_role sk = RoleReceiver"
  using assms by (auto simp: socket_receiver_def socket_send_def split: sum.splits)

lemma sender_cannot_recv:
  assumes "socket_sender os fmt config remote rs rq epoch wall = Inr sk"
  shows "socket_recv sk = (sk, Ended) \<and> sk_role sk = RoleSender"
  using assms by (auto simp: socket_sender_def socket_recv_def socket_recv_delivered_def split: sum.splits)

end
