(* ===== verification/Rist_Arq.thy ===== *)
theory Rist_Arq
  imports Rist_Receiver
begin

text \<open>
  The retransmission cycle: what the receiver's pump puts on the wire is a NACK the sender
  decodes and serves, and what the sender sends back fills the gap in the receiver's buffer.
  The lemmas connect the two handlers; the theorem over the whole cycle is in the root theory.
\<close>

unbundle bit_operations_syntax

section \<open>The size of a NACK\<close>

lemma length_bitmask_lost_seqs: "length (bitmask_lost_seqs n) = Suc (card {i. i < 16 \<and> bit (blp n) i})"
proof -
  have "length (filter (bit (blp n)) [0..<16]) = card (set (filter (bit (blp n)) [0..<16]))"
    by (rule distinct_card [symmetric]) simp
  then show ?thesis unfolding bitmask_lost_seqs_eq by (simp add: Collect_conj_eq Int_commute)
qed

lemma length_bitmask_extend_bit:
  "length (bitmask_lost_seqs \<lparr>pid = p, blp = m OR 2 ^ k\<rparr>) \<le> Suc (length (bitmask_lost_seqs \<lparr>pid = p, blp = m\<rparr>))"
proof -
  have "{i. i < 16 \<and> bit (m OR 2 ^ k) i} \<subseteq> insert k {i. i < 16 \<and> bit m i}" by (auto simp: bit_simps)
  then have "card {i. i < 16 \<and> bit (m OR 2 ^ k) i} \<le> card (insert k {i. i < 16 \<and> bit m i})"
    by (intro card_mono) auto
  also have "\<dots> \<le> Suc (card {i. i < 16 \<and> bit m i})" by (rule card_insert_le_m1) simp_all
  finally show ?thesis by (simp add: length_bitmask_lost_seqs)
qed

lemma length_bitmask_extend:
  "bitmask_extend p m xs = (m', rest) \<Longrightarrow>
     length (bitmask_lost_seqs \<lparr>pid = p, blp = m'\<rparr>) + length rest
     \<le> length (bitmask_lost_seqs \<lparr>pid = p, blp = m\<rparr>) + length xs"
proof (induction p m xs rule: bitmask_extend.induct)
  case (2 p m x xs)
  show ?case
  proof (cases "1 \<le> x - p \<and> x - p \<le> 16")
    case True
    with 2 have "length (bitmask_lost_seqs \<lparr>pid = p, blp = m'\<rparr>) + length rest
        \<le> length (bitmask_lost_seqs \<lparr>pid = p, blp = m OR 2 ^ unat (x - p - 1)\<rparr>) + length xs"
      by (simp add: Let_def)
    also have "\<dots> \<le> Suc (length (bitmask_lost_seqs \<lparr>pid = p, blp = m\<rparr>)) + length xs"
      by (intro add_right_mono length_bitmask_extend_bit)
    finally show ?thesis by simp
  next
    case False
    with "2.prems" show ?thesis by (auto simp: Let_def)
  qed
qed simp

text \<open>A bitmask NACK names no more numbers than it was built from.\<close>

lemma length_bitmask_named: "length (concat (map bitmask_lost_seqs (bitmask_groups ls))) \<le> length ls"
proof (induction ls rule: bitmask_groups.induct)
  case (2 p xs)
  obtain m rest where ext: "bitmask_extend p 0 xs = (m, rest)" by fastforce
  with 2 have "length (concat (map bitmask_lost_seqs (bitmask_groups rest))) \<le> length rest" by simp
  moreover have "length (bitmask_lost_seqs \<lparr>pid = p, blp = 0\<rparr>) = 1" by (simp add: length_bitmask_lost_seqs)
  ultimately show ?case using ext length_bitmask_extend [OF ext] by simp
qed simp

section \<open>The report that goes with it\<close>

lemma clamp24_fits: "- 8388608 \<le> sint (of_int (clamp24 n) :: u32) \<and> sint (of_int (clamp24 n) :: u32) \<le> 8388607"
proof -
  have c: "- 8388608 \<le> clamp24 n" "clamp24 n \<le> 8388607" by (simp_all add: clamp24_def)
  then have "sint (of_int (clamp24 n) :: u32) = clamp24 n"
    by (simp add: signed_of_int signed_take_bit_int_eq_self)
  with c show ?thesis by simp
qed

lemma generate_rr_wf:
  "rr_wf (snd (generate_rr st now)) \<and> length (reports (snd (generate_rr st now))) \<le> 1"
  using clamp24_fits
  by (simp add: generate_rr_def Let_def rr_empty_def rr_wf_def rb_wf_def split: option.splits)

section \<open>From the pump to the sender\<close>

text \<open>The SSRC the pump names as the media source.\<close>

definition named_source :: "ReceiverState \<Rightarrow> u32" where
  "named_source st = (case sender_ssrc (rx_rtcp_state st) of
     Some s \<Rightarrow> s | None \<Rightarrow> (case observed_media_ssrc st of Some s \<Rightarrow> s | None \<Rightarrow> 0))"

text \<open>The datagram a pump with the pending numbers \<open>pend\<close> sends.\<close>

definition pump_datagram :: "bytes_api \<Rightarrow> ReceiverState \<Rightarrow> instant \<Rightarrow> u16 list \<Rightarrow> bytes" where
  "pump_datagram B st now pend =
     compound_serialize B \<lparr>packets = [ReceiverReport (snd (generate_rr (rx_rtcp_state st) now)),
       Nack (build_bitmask \<lparr>b_sender_ssrc = rx_ssrc st, b_media_ssrc = named_source st\<rparr> pend)]\<rparr>"

lemma pump_sends:
  assumes "sender_rtcp_addr st = Some dest"
    and "get_pending_nacks (nack_scheduler st) now (srtt (rx_rtt_estimator st)) = (sched, pend)" and "pend \<noteq> []"
  shows "rx_rtcp_sent (receiver_on_pump B sent st now) = rx_rtcp_sent st @ [(dest, pump_datagram B st now pend)]"
  using assms by (simp add: receiver_on_pump_def pump_datagram_def named_source_def Let_def split_beta cong: option.case_cong)

lemma length_pump_datagram:
  assumes "bytes_crate B"
  shows "length (pump_datagram B st now pend) \<le> 44 + 4 * length pend"
proof -
  have "length (bitmask_groups pend) \<le> length pend" by (rule length_bitmask_groups)
  moreover have "length (reports (snd (generate_rr (rx_rtcp_state st) now))) \<le> 1" using generate_rr_wf by blast
  ultimately show ?thesis
    by (simp add: pump_datagram_def bytes_crate.compound_serialize_eq [OF assms] bytes_crate.writes [OF assms]
        bytes_crate.length_rr_serialize [OF assms] bytes_crate.length_nack_serialize [OF assms] build_bitmask_def)
qed

section \<open>From the sender to the gap\<close>

text \<open>A packet for a gap inside the window fills it and counts as a recovery.\<close>

lemma insert_fills_gap:
  assumes "reorder_inv rb" "queue_of rb = Some (b, es)" "k < length es" "es ! k = Gap g"
    and "unat (q - b) = k" "k < capacity rb" and "reorder_insert rb q d now = (rb', outcome)"
  shows "queue_of rb' = Some (b, es[k := Filled d now]) \<and> recovered outcome \<and> \<not> stale outcome \<and> \<not> duplicate outcome"
proof -
  have cap: "capacity rb \<le> 32768" using rb.cap_bound [OF assms(1)] .
  have "op_fits (capacity rb) (queue_of rb) (Ins q d now)" using assms by simp
  from rb.ins_law [OF assms(1) this assms(7)] assms(2-6) cap show ?thesis
    by (simp add: outcome_default_def split: if_splits)
qed

text \<open>A flagged copy of a media packet is parsed back to its number and payload.\<close>

lemma parse_rtp_wire:
  assumes "bytes_crate B"
  shows "parse_rtp B (wire B src k ts pl) t0 t1 = Some \<lparr>p_seq = k, p_ssrc = src, p_rtp_ts = ts, p_payload = pl,
    p_arrival_us = of_nat (as_micros (t1 - t0)), p_payload_len = length pl, p_is_retransmit = odd src\<rparr>"
  using assms by (simp add: parse_rtp_def bytes_crate.wire_parse is_retransmit_iff)
    (simp add: new_ts_def bytes_crate.wire_eq bytes_crate.length_rtp_header_serialize)

lemma receive_wire:
  assumes "bytes_crate B" "length (wire B src k ts pl) \<le> MAX_UDP_RECV"
    and "source_allowed from (pinned_source_ip r) (sender_rtp_addr r) (rtp_peer_live r) t1"
  shows "reorder (receiver_on_rtp B r (wire B src k ts pl) from t1 t2 [] now) = fst (reorder_insert (reorder r) k pl now)"
  using assms(2,3) by (simp add: receiver_on_rtp_frame rtp_batch_def parse_rtp_wire [OF assms(1)] split_beta)

section \<open>Where the cycle breaks\<close>

text \<open>A datagram cut inside the NACK still yields the report before it, and nothing else.\<close>

context bytes_crate
begin

lemma cut_nack_parse:
  assumes "rr_wf rr" "nack_wf nack"
    and dg: "dg = compound_serialize B \<lparr>packets = [ReceiverReport rr, Nack nack]\<rparr>" "2048 < length dg"
  shows "compound_parse B (take 2048 dg) = Ok \<lparr>packets = [ReceiverReport rr]\<rparr>"
proof -
  let ?R = "rr_serialize B rr" and ?N = "nack_serialize B nack"
  let ?cut = "take (2048 - length ?R) ?N"
  have R: "length ?R \<le> 752" using assms(1) by (simp add: length_rr_serialize rr_wf_def)
  have all: "dg = ?R @ ?N" by (simp add: dg compound_serialize_eq writes)
  have buf: "take 2048 dg = ?R @ ?cut" "length (?R @ ?cut) = 2048" using R dg(2) by (simp_all add: all)
  obtain h where h: "common_header_parse B ?N = Ok h" "packet_size h = length ?N"
    using nack.header_of_ser [OF assms(2), of "[]"] by auto
  have "4 \<le> length ?cut" "4 \<le> length ?N" using buf(2) R dg(2) by (simp_all add: all)
  then have "common_header_parse B ?cut = Ok h"
    using h(1) by (auto simp: common_header_parse_eq split: if_splits)
  then have "compound_loop B (?R @ ?cut) (length ?R) [ReceiverReport rr] = Ok [ReceiverReport rr]"
    using buf(2) R h(2) dg(2) all by (subst compound_loop.simps) (simp add: MAX_RTCP_SUB_PACKETS_def Let_def)
  then show ?thesis
    using rr.loop_step [OF assms(1), of "[]" "[]" ?cut]
    by (simp add: compound_parse_def buf(1) MAX_RTCP_SUB_PACKETS_def)
qed

end

text \<open>
  C37: A NACK that does not fit is lost whole. When the report and the NACK of a pump take more
  than the 2048 bytes the sender reads, the sender serves none of the requests: it sends no media
  packet, however many of the requested ones it still holds.
\<close>

theorem oversized_nack_is_dropped:
  assumes "bytes_crate B" and "rr_wf rr" and "nack_wf nack"
    and "dg = compound_serialize B \<lparr>packets = [ReceiverReport rr, Nack nack]\<rparr>" and "2048 < length dg"
  shows "rtp_sent (sender_on_rtcp B send_ok clock st dg from t) = rtp_sent st"
proof (rule sender_on_rtcp_cases [of B send_ok clock st dg "from" t])
  fix c
  let ?st1 = "st\<lparr>remote_rtcp_addr := from, rtcp_peer_live := Some t\<rparr>"
  assume "compound_parse B (take 2048 dg) = Ok c"
    and "sender_on_rtcp B send_ok clock st dg from t
      = sender_on_packets B send_ok clock from t 0 ?st1 (nack_budget_template st) (packets c)"
  with bytes_crate.cut_nack_parse [OF assms] show ?thesis by (auto simp: sender_on_packet_def)
qed simp

theorem oversized_nack_is_dropped_witness:
  "rtp_sent (sender_on_rtcp be_bytes_api (\<lambda>_. True) (\<lambda>_. 7) example_sender
      (compound_serialize be_bytes_api \<lparr>packets = [ReceiverReport (rr_empty 5),
         Nack \<lparr>nack_sender_ssrc = 5, nack_media_ssrc = 0, entries = Bitmask (replicate 600 \<lparr>pid = 9, blp = 0\<rparr>)\<rparr>]\<rparr>)
      (SocketV4 1 5001) 6)
   = rtp_sent example_sender"
  by (rule oversized_nack_is_dropped [OF be.bytes_crate_axioms _ _ refl])
    (simp_all add: rr_wf_def rr_empty_def nack_wf_def be.compound_serialize_eq be.writes be.length_rr_serialize
      be.length_nack_serialize)

end
