(* ===== verification/Rist_Transport.thy ===== *)
theory Rist_Transport
  imports Rist_Socket Rist_Arq
begin

text \<open>
  From the sender's application to the receiver's: the packets of a stream have positions without
  bound, of which the wire carries 16 bits. As long as a datagram is not too far from what the
  buffer has released, the 16-bit buffer does what a buffer of positions would do. So what is handed
  over is the stream from the first packet that arrived on, in order and without repetition, less
  what is lost; and nothing is lost when each packet arrives, as the original or as a copy, before
  the hold time has passed since a later one.
\<close>

section \<open>The buffer of positions\<close>

text \<open>An arrival of the packet at a position, or a drain.\<close>

datatype StreamOp = Arr nat instant | Rel instant

fun stream_op :: "duration \<Rightarrow> (nat \<Rightarrow> bytes) \<Rightarrow> log \<Rightarrow> StreamOp \<Rightarrow> log" where
  "stream_op hold D (es, p) (Arr i t) =
     (if i < p then (es, p)
      else if i < length es then (if is_filled (es ! i) then (es, p) else (es[i := Filled (D i) t], p))
      else (es @ replicate (i - length es) (Gap t) @ [Filled (D i) t], p))"
| "stream_op hold D l (Rel t) = log_drain hold l t"

fun on_wire :: "u16 \<Rightarrow> (nat \<Rightarrow> bytes) \<Rightarrow> StreamOp \<Rightarrow> ReorderOp" where
  "on_wire b D (Arr i t) = Ins (b + of_nat i) (D i) t"
| "on_wire b D (Rel t) = Drain t"

text \<open>At most half the number space behind what was released, and less than a ring ahead.\<close>

fun in_reach :: "nat \<Rightarrow> StreamOp \<Rightarrow> bool" where
  "in_reach p (Arr i t) \<longleftrightarrow> p \<le> i + 32768 \<and> i < p + 8192"
| "in_reach p (Rel t) \<longleftrightarrow> True"

text \<open>The buffer before the first arrival, at position \<open>k\<close>: everything before it counts as released.\<close>

definition joined :: "nat \<Rightarrow> log" where
  "joined k = (replicate k (Gap 0), k)"

lemma lap_u16: "(65536 :: u16) = 0" "(65537 :: u16) = 1"
  by simp_all

lemma wire_offset:
  assumes "p \<le> i + 32768" "i < p + 8192"
  shows "unat (of_nat i - of_nat p :: u16) = (if i < p then 65536 - (p - i) else i - p)"
proof (cases "i < p")
  case True
  have "of_nat (65536 - (p - i)) = (of_nat 65536 - of_nat (p - i) :: u16)" using assms by (intro of_nat_diff) simp
  also have "\<dots> = of_nat i - of_nat p" using True by (simp add: of_nat_diff lap_u16)
  finally have eq: "of_nat (65536 - (p - i)) = (of_nat i - of_nat p :: u16)" .
  have "65536 - (p - i) < 65536" using True by simp
  from unat_of_nat_u16 [OF this] True show ?thesis by (simp only: eq if_True)
next
  case False
  then have eq: "of_nat (i - p) = (of_nat i - of_nat p :: u16)" by (intro of_nat_diff) simp
  have "i - p < 65536" using assms(2) by simp
  from unat_of_nat_u16 [OF this] False show ?thesis by (simp only: eq if_False)
qed

lemma log_op_on_wire:
  assumes "in_reach (snd l) x"
  shows "log_op hold b l (on_wire b D x) = stream_op hold D l x"
    and "cap = 8192 \<Longrightarrow> op_fits cap (log_queue b l) (on_wire b D x)"
proof -
  obtain es p where l: "l = (es, p)" by (cases l)
  show "log_op hold b l (on_wire b D x) = stream_op hold D l x"
  proof (cases x)
    case (Arr i t)
    then have "unat (of_nat i - of_nat p :: u16) = (if i < p then 65536 - (p - i) else i - p)"
      "i < p \<Longrightarrow> 32768 \<le> 65536 - (p - i)" "i - p < 32768"
      using assms wire_offset by (auto simp: l)
    with Arr show ?thesis by (cases "i < p") (simp_all add: l log_ins_def Let_def)
  qed simp
  show "op_fits cap (log_queue b l) (on_wire b D x)" if "cap = 8192"
  proof (cases x)
    case (Arr i t)
    with assms that show ?thesis by (cases "i < p") (auto simp: l log_queue_def wire_offset)
  qed (simp add: log_queue_def)
qed

fun run_in_reach :: "duration \<Rightarrow> (nat \<Rightarrow> bytes) \<Rightarrow> log \<Rightarrow> StreamOp list \<Rightarrow> bool" where
  "run_in_reach hold D l [] \<longleftrightarrow> True"
| "run_in_reach hold D l (x # xs) \<longleftrightarrow> in_reach (snd l) x \<and> run_in_reach hold D (stream_op hold D l x) xs"

text \<open>The 16-bit buffer on the wire numbers is the buffer of positions.\<close>

lemma stream_run:
  assumes "reorder_inv s" "queue_of s = log_queue b l" "log_wf l" "capacity s = 8192" "buffer_time s = hold"
    "run_in_reach hold D l xs" "reorder_run s (map (on_wire b D) xs) = (s', items)"
  shows "run_fits s (map (on_wire b D) xs)
    \<and> log_items b (foldl (stream_op hold D) l xs) = log_items b l @ items
    \<and> log_wf (foldl (stream_op hold D) l xs)"
  using assms
proof (induction xs arbitrary: s l items)
  case (Cons x xs)
  obtain s1 o1 where st: "reorder_step s (on_wire b D x) = (s1, o1)" by fastforce
  obtain o2 where rn: "reorder_run s1 (map (on_wire b D) xs) = (s', o2)" "items = o1 @ o2"
    using Cons.prems(7) st by (auto split: prod.splits)
  have reach: "in_reach (snd l) x" using Cons.prems(6) by simp
  have fit: "op_fits (capacity s) (queue_of s) (on_wire b D x)"
    using log_op_on_wire(2) [OF reach, of "capacity s"] Cons.prems(2,4) by simp
  have "rb.step s (on_wire b D x) = (s1, o1)" using st by (simp add: rb_step)
  from rb.step_log [OF Cons.prems(1-3) fit this] Cons.prems(4,5)
  have one: "reorder_inv s1" "queue_of s1 = log_queue b (stream_op hold D l x)" "capacity s1 = 8192" "buffer_time s1 = hold"
    "log_items b (stream_op hold D l x) = log_items b l @ o1"
    by (simp_all add: log_op_on_wire(1) [OF reach])
  have wf: "log_wf (stream_op hold D l x)"
    using log_wf_op [OF Cons.prems(3), of hold b "on_wire b D x"] by (simp add: log_op_on_wire(1) [OF reach])
  from Cons.IH [OF one(1,2) wf one(3,4) _ rn(1)] Cons.prems(6) fit st one(5) rn(2) show ?case by simp
qed simp

section \<open>What it releases\<close>

text \<open>Every entry is a gap or the packet of its position, and a packet stays.\<close>

definition own_packets :: "(nat \<Rightarrow> bytes) \<Rightarrow> log \<Rightarrow> bool" where
  "own_packets D l \<longleftrightarrow> (\<forall>i < length (fst l). fst l ! i \<noteq> Empty)
     \<and> (\<forall>i < length (fst l). \<forall>d t. fst l ! i = Filled d t \<longrightarrow> d = D i)"

lemma own_packets_op:
  assumes "own_packets D l"
  shows "own_packets D (stream_op hold D l x)"
proof (cases x)
  case (Arr i t)
  with assms show ?thesis
    by (cases l) (auto simp: own_packets_def nth_append nth_list_update nth_Cons' less_Suc_eq split: if_splits)
next
  case (Rel t)
  with assms show ?thesis by (cases l) (simp add: own_packets_def log_drain_def)
qed

lemma own_packets_run: "own_packets D l \<Longrightarrow> own_packets D (foldl (stream_op hold D) l xs)"
proof (induction xs arbitrary: l)
  case (Cons x xs)
  show ?case using Cons.IH [OF own_packets_op [OF Cons.prems]] by simp
qed simp

lemma stream_filled_kept:
  "i < length (fst l) \<Longrightarrow> is_filled (fst l ! i) \<Longrightarrow>
    i < length (fst (foldl (stream_op hold D) l xs)) \<and> is_filled (fst (foldl (stream_op hold D) l xs) ! i)"
proof (induction xs arbitrary: l)
  case (Cons x xs)
  have "i < length (fst (stream_op hold D l x)) \<and> is_filled (fst (stream_op hold D l x) ! i)"
    using Cons.prems
    by (cases x; cases l) (auto simp: log_drain_def nth_append nth_list_update)
  with Cons.IH show ?case by simp
qed simp

lemma arrival_filled:
  assumes "snd l \<le> i"
  shows "i < length (fst (stream_op hold D l (Arr i t))) \<and> is_filled (fst (stream_op hold D l (Arr i t)) ! i)"
  using assms by (cases l) (auto simp: nth_append)

lemma stream_length:
  assumes "\<forall>i t. Arr i t \<in> set xs \<longrightarrow> i < n" "length (fst l) \<le> n"
  shows "length (fst (foldl (stream_op hold D) l xs)) \<le> n"
  using assms
proof (induction xs arbitrary: l)
  case (Cons x xs)
  have "length (fst (stream_op hold D l x)) \<le> n"
  proof (cases x)
    case (Arr i t)
    then have "i < n" using Cons.prems(1) by auto
    with Arr Cons.prems(2) show ?thesis by (cases l) auto
  next
    case (Rel t)
    with Cons.prems(2) show ?thesis by (cases l) (simp add: log_drain_def)
  qed
  with Cons.IH [of "stream_op hold D l x"] Cons.prems(1) show ?case by auto
qed simp

lemma stream_times:
  assumes "\<forall>i t. Arr i t \<in> set xs \<longrightarrow> t + hold \<le> T" "\<forall>e \<in> set (fst l). held_since e + hold \<le> T"
  shows "\<forall>e \<in> set (fst (foldl (stream_op hold D) l xs)). held_since e + hold \<le> T"
  using assms
proof (induction xs arbitrary: l)
  case (Cons x xs)
  have "\<forall>e \<in> set (fst (stream_op hold D l x)). held_since e + hold \<le> T"
    using Cons.prems by (cases x; cases l) (auto simp: log_drain_def dest!: set_update_subset_insert [THEN subsetD])
  with Cons show ?case by simp
qed simp

text \<open>
  A stream of which every packet has arrived in time is complete: no gap is left, and the drain that
  finds every hold passed releases all of it.
\<close>

lemma complete_stream:
  assumes l: "l = foldl (stream_op hold D) (joined k) xs"
    and within: "\<forall>i t. Arr i t \<in> set xs \<longrightarrow> i < n \<and> t + hold \<le> T" and T: "hold \<le> T" and k: "k < n"
    and in_time: "\<forall>i. k \<le> i \<and> i < n \<longrightarrow> (\<exists>ys t zs. xs = ys @ Arr i t # zs \<and> snd (foldl (stream_op hold D) (joined k) ys) \<le> i)"
    and wf: "log_wf l"
  shows "\<exists>ts. drop k (log_items b (stream_op hold D l (Rel T))) = map (\<lambda>i. Delivered (D i) (b + of_nat i) (ts i)) [k..<n]"
proof -
  have filled: "i < length (fst l) \<and> is_filled (fst l ! i)" if "k \<le> i" "i < n" for i
  proof -
    from in_time that obtain ys t zs where xs: "xs = ys @ Arr i t # zs" "snd (foldl (stream_op hold D) (joined k) ys) \<le> i" by blast
    show ?thesis unfolding l xs(1) using arrival_filled [OF xs(2)] stream_filled_kept by simp
  qed
  have "length (fst l) \<le> n" unfolding l by (rule stream_length) (use within k in \<open>auto simp: joined_def\<close>)
  with filled [of "n - 1"] k have len: "length (fst l) = n" by (cases n) auto
  have own: "own_packets D l" unfolding l by (rule own_packets_run) (simp add: own_packets_def joined_def)
  have "\<exists>t. fst l ! i = Filled (D i) t" if "k \<le> i" "i < n" for i
    using filled [OF that] own that len by (cases "fst l ! i") (auto simp: own_packets_def)
  then obtain ts where ts: "fst l ! i = Filled (D i) (ts i)" if "k \<le> i" "i < n" for i by metis
  have "\<forall>e \<in> set (fst l). held_since e + hold \<le> T"
    unfolding l by (rule stream_times) (use within T in \<open>auto simp: joined_def\<close>)
  then have "ripe hold T e" if "e \<in> set (drop (snd l) (fst l))" for e
    using in_set_dropD [OF that] by (fastforce simp: ripe_def)
  then have "takeWhile (ripe hold T) (drop (snd l) (fst l)) = drop (snd l) (fst l)" by (simp add: takeWhile_eq_all_conv)
  then have "length (takeWhile (ripe hold T) (drop (snd l) (fst l))) = length (fst l) - snd l" by (metis length_drop)
  then have "stream_op hold D l (Rel T) = (fst l, n)"
    using wf len by (simp add: log_drain_def log_wf_def split_beta)
  then have items: "log_items b (stream_op hold D l (Rel T)) = q_items b (fst l)" by (simp add: log_items_def len)
  have "drop k (q_items b (fst l)) = map (\<lambda>i. Delivered (D i) (b + of_nat i) (ts i)) [k..<n]"
    by (intro nth_equalityI) (simp_all add: len nth_q_items ts)
  with items show ?thesis by auto
qed

lemma drained_ripe:
  assumes "p \<le> i" "i < p + length (takeWhile P (drop p es))"
  shows "i < length es \<and> P (es ! i)"
proof -
  have n: "i - p < length (takeWhile P (drop p es))" using assms by simp
  then have "i < length es" using length_takeWhile_le [of P "drop p es"] assms(1) by simp
  moreover from this have "takeWhile P (drop p es) ! (i - p) = es ! i" using takeWhile_nth [OF n] assms(1) by simp
  ultimately show ?thesis using nth_mem [OF n] set_takeWhileD by metis
qed

text \<open>A position is released only when a drain finds the hold passed since an arrival at it or after it.\<close>

lemma released_noticed:
  defines "st \<equiv> \<lambda>k hold D xs. foldl (stream_op hold D) (joined k) xs"
  shows "(\<forall>i. k \<le> i \<and> i < length (fst (st k hold D xs)) \<longrightarrow> (\<exists>j \<ge> i. Arr j (held_since (fst (st k hold D xs) ! i)) \<in> set xs))
    \<and> (\<forall>i. k \<le> i \<and> i < snd (st k hold D xs) \<longrightarrow> (\<exists>j t T. i \<le> j \<and> Arr j t \<in> set xs \<and> Rel T \<in> set xs \<and> hold \<le> T - t))"
proof (induction xs rule: rev_induct)
  case Nil
  then show ?case by (simp add: st_def joined_def)
next
  case (snoc x xs)
  obtain es p where l: "st k hold D xs = (es, p)" by (cases "st k hold D xs")
  have next_st: "st k hold D (xs @ [x]) = stream_op hold D (es, p) x" using l by (simp add: st_def)
  have held: "\<exists>j \<ge> i. Arr j (held_since (es ! i)) \<in> set xs" if "k \<le> i" "i < length es" for i
    using snoc that by (simp add: l)
  have gone: "\<exists>j t T. i \<le> j \<and> Arr j t \<in> set xs \<and> Rel T \<in> set xs \<and> hold \<le> T - t" if "k \<le> i" "i < p" for i
    using snoc that by (simp add: l)
  show ?case
  proof (cases x)
    case (Arr j t)
    have "\<exists>j' \<ge> i. Arr j' (held_since (fst (stream_op hold D (es, p) x) ! i)) \<in> set (xs @ [x])"
      if "k \<le> i" "i < length (fst (stream_op hold D (es, p) x))" for i
      using held [of i] that Arr
      by (cases "i < length es")
        (auto simp: nth_append nth_list_update nth_Cons' less_Suc_eq_le intro: exI [of _ j] split: if_splits)
    moreover have "snd (stream_op hold D (es, p) x) = p" by (simp add: Arr)
    ultimately show ?thesis using gone unfolding next_st by fastforce
  next
    case (Rel T)
    have "\<exists>j t T. i \<le> j \<and> Arr j t \<in> set (xs @ [x]) \<and> Rel T \<in> set (xs @ [x]) \<and> hold \<le> T - t"
      if i: "k \<le> i" "i < p + length (takeWhile (ripe hold T) (drop p es))" for i
    proof (cases "i < p")
      case True
      with gone [of i] i show ?thesis by auto
    next
      case False
      then have "i < length es" "ripe hold T (es ! i)" using drained_ripe [OF _ i(2)] by simp_all
      with held [of i] i(1) Rel show ?thesis by (auto simp: ripe_def)
    qed
    moreover have "\<exists>j \<ge> i. Arr j (held_since (es ! i)) \<in> set (xs @ [x])" if "k \<le> i" "i < length es" for i
      using held [OF that] by auto
    ultimately show ?thesis unfolding next_st by (simp add: Rel log_drain_def)
  qed
qed

section \<open>From a new buffer\<close>

fun is_rel :: "StreamOp \<Rightarrow> bool" where
  "is_rel (Rel _) = True"
| "is_rel _ = False"

lemma run_in_reach_append:
  "run_in_reach hold D l (xs @ ys) \<longleftrightarrow> run_in_reach hold D l xs \<and> run_in_reach hold D (foldl (stream_op hold D) l xs) ys"
  by (induction xs arbitrary: l) simp_all

lemma drop_rels:
  "dropWhile is_drain (map (on_wire b D) xs) = map (on_wire b D) (dropWhile is_rel xs)
   \<and> foldl (stream_op hold D) (joined k) xs = foldl (stream_op hold D) (joined k) (dropWhile is_rel xs)
   \<and> (run_in_reach hold D (joined k) xs \<longrightarrow> run_in_reach hold D (joined k) (dropWhile is_rel xs))"
proof (induction xs)
  case (Cons x xs)
  then show ?case by (cases x) (simp_all add: log_drain_def joined_def)
qed simp

lemma new_stream_run:
  assumes first: "dropWhile is_rel xs = [] \<or> (\<exists>t rest. dropWhile is_rel xs = Arr k t # rest)"
    and reach: "run_in_reach hold D (joined k) xs"
    and run: "reorder_run (reorder_new hold) (map (on_wire b D) xs) = (s, items)"
  shows "log_items b (foldl (stream_op hold D) (joined k) xs) = log_items b (joined k) @ items
    \<and> log_wf (foldl (stream_op hold D) (joined k) xs)"
proof (cases "dropWhile is_rel xs")
  case Nil
  with run leading_drains [of hold "map (on_wire b D) xs"] drop_rels [of b D xs hold k] show ?thesis
    by (simp add: log_wf_def joined_def)
next
  case (Cons x rest)
  with first obtain t where x: "x = Arr k t" by auto
  let ?l = "(replicate k (Gap 0) @ [Filled (D k) t], k) :: log"
  have step: "stream_op hold D (joined k) (Arr k t) = ?l" by (simp add: joined_def)
  obtain s1 outcome where i: "reorder_insert (reorder_new hold) (b + of_nat k) (D k) t = (s1, outcome)" by fastforce
  have cap: "capacity (reorder_new hold) = 8192" by (simp add: reorder_new_def with_capacity_def Let_def next_power_of_two.simps)
  have s1: "reorder_inv s1" "buffer_time s1 = hold" "queue_of s1 = log_queue b ?l" "capacity s1 = 8192"
    using rb.ins_law [OF _ _ i] reorder_new_inv [of hold] cap
    by (simp_all add: reorder_new_def with_capacity_hold log_queue_def)
  have "run_in_reach hold D ?l rest" using drop_rels [of b D xs hold k] reach Cons x step by simp
  moreover have "reorder_run s1 (map (on_wire b D) rest) = (s, items)"
    using run leading_drains [of hold "map (on_wire b D) xs"] drop_rels [of b D xs hold k] Cons x i by (simp add: split_beta)
  ultimately have "log_items b (foldl (stream_op hold D) ?l rest) = log_items b ?l @ items
      \<and> log_wf (foldl (stream_op hold D) ?l rest)"
    using stream_run [OF s1(1,3) _ s1(4,2)] by (simp add: log_wf_def)
  moreover have "log_items b ?l = log_items b (joined k)" by (simp add: log_items_def joined_def)
  ultimately show ?thesis using drop_rels [of b D xs hold k] Cons x step by simp
qed

section \<open>Events with the positions they bring\<close>

text \<open>A datagram that carries the packet at position \<open>i\<close> of the stream \<open>m\<close>, original or copy.\<close>

definition carries :: "bytes_api \<Rightarrow> u16 \<Rightarrow> bytes list \<Rightarrow> nat \<Rightarrow> bytes \<Rightarrow> bool" where
  "carries B rq m i dg \<longleftrightarrow> i < length m \<and> (\<exists>s ts. dg = wire B s (rq + of_nat i) ts (m ! i))"

lemma carriesI: "i < length m \<Longrightarrow> carries B rq m i (wire B s (rq + of_nat i) ts (m ! i))"
  unfolding carries_def by blast

text \<open>
  A turn of the receiver with the positions its media datagrams carry: a burst of at most 32
  datagrams from the source, or any other turn.
\<close>

fun brings :: "bytes_api \<Rightarrow> SocketAddr \<Rightarrow> u16 \<Rightarrow> bytes list \<Rightarrow> ReceiverEvent \<times> nat list \<Rightarrow> bool" where
  "brings B src rq m (RtpIn dg from arrived_at parsed_at waiting now, is) \<longleftrightarrow>
     from = src \<and> (\<forall>x \<in> set waiting. fst (snd x) = src) \<and> length waiting < MAX_BATCH
     \<and> list_all2 (carries B rq m) is (dg # map fst waiting)"
| "brings B src rq m (ev, is) \<longleftrightarrow> is = []"

fun idx_ops :: "ReceiverEvent \<times> nat list \<Rightarrow> StreamOp list" where
  "idx_ops (RtpIn dg from arrived_at parsed_at waiting now, is) = map (\<lambda>i. Arr i now) is"
| "idx_ops (DrainTurn chan_ok now clock now2, is) = [Rel now]"
| "idx_ops _ = []"

abbreviation stream_of :: "(ReceiverEvent \<times> nat list) list \<Rightarrow> StreamOp list" where
  "stream_of tevs \<equiv> concat (map idx_ops tevs)"

lemma carries_parse:
  assumes "bytes_crate B" "carries B rq m i dg" "\<forall>pl \<in> set m. 12 + length pl \<le> MAX_UDP_RECV"
  shows "\<exists>p. parse_rtp B (take MAX_UDP_RECV dg) t0 t = Some p \<and> p_seq p = rq + of_nat i \<and> p_payload p = m ! i"
proof -
  obtain s ts where dg: "dg = wire B s (rq + of_nat i) ts (m ! i)" "i < length m" using assms(2) by (auto simp: carries_def)
  then have "take MAX_UDP_RECV dg = dg" using assms(3)
    by (auto simp: bytes_crate.wire_eq [OF assms(1)] bytes_crate.length_rtp_header_serialize [OF assms(1)])
  then show ?thesis using dg by (simp add: parse_rtp_wire [OF assms(1)])
qed

lemma burst_ops:
  assumes "bytes_crate B" "\<forall>pl \<in> set m. 12 + length pl \<le> MAX_UDP_RECV"
    and "list_all2 (carries B rq m) is (map fst w)" "\<forall>x \<in> set w. fst (snd x) = src"
  shows "map (\<lambda>p. Ins (p_seq p) (p_payload p) now)
      (List.map_filter (\<lambda>(dg, s, t). if s = src then parse_rtp B (take MAX_UDP_RECV dg) t0 t else None) w)
    = map (\<lambda>i. Ins (rq + of_nat i) (m ! i) now) is"
  using assms(3,4)
proof (induction w arbitrary: "is")
  case Nil
  then show ?case by (simp add: List.map_filter_def)
next
  case (Cons x w)
  obtain dg t where x: "x = (dg, src, t)" using Cons.prems(2) by (cases x) auto
  obtain i is' where i: "is = i # is'" "carries B rq m i dg" "list_all2 (carries B rq m) is' (map fst w)"
    using Cons.prems(1) by (auto simp: x list_all2_Cons2)
  from carries_parse [OF assms(1) i(2) assms(2), of t0 t] Cons.IH [OF i(3)] Cons.prems(2) show ?case
    by (auto simp: x i(1) List.map_filter_def)
qed

lemma burst_batch:
  assumes "bytes_crate B" "\<forall>pl \<in> set m. 12 + length pl \<le> MAX_UDP_RECV" "brings B src rq m (RtpIn dg a t1 t2 w now, is)"
  shows "map (\<lambda>p. Ins (p_seq p) (p_payload p) now) (rtp_batch B st dg a t2 w) = map (on_wire rq ((!) m)) (map (\<lambda>i. Arr i now) is)"
proof -
  obtain i is' where i: "is = i # is'" "carries B rq m i dg" "list_all2 (carries B rq m) is' (map fst w)"
    using assms(3) by (auto simp: list_all2_Cons2)
  obtain p where p: "parse_rtp B (take MAX_UDP_RECV dg) (rx_epoch st) t2 = Some p" "p_seq p = rq + of_nat i" "p_payload p = m ! i"
    using carries_parse [OF assms(1) i(2) assms(2)] by blast
  have a: "a = src" and w: "\<forall>x \<in> set w. fst (snd x) = src" "take (MAX_BATCH - 1) w = w" using assms(3) by auto
  have "rtp_batch B st dg a t2 w = [p] @ List.map_filter
      (\<lambda>(dg, s, t). if s = src then parse_rtp B (take MAX_UDP_RECV dg) (rx_epoch st) t else None) (take (MAX_BATCH - 1) w)"
    unfolding rtp_batch_def p(1) option.case a by (rule read_burst_eq) simp
  with burst_ops [OF assms(1,2) i(3) w(1), of now "rx_epoch st"] p w(2) show ?thesis by (simp add: i(1) comp_def)
qed

section \<open>The receiver of one source\<close>

definition hears :: "SocketAddr \<Rightarrow> ReceiverState \<Rightarrow> bool" where
  "hears src st \<longleftrightarrow> pinned_source_ip st \<in> {None, Some (sock_ip src)} \<and> sender_rtp_addr st \<in> {None, Some src}"

lemma hears_allowed: "hears src st \<Longrightarrow> source_allowed src (pinned_source_ip st) (sender_rtp_addr st) live t"
  by (auto simp: hears_def source_allowed_iff)

lemma sender_rtp_addr_kept:
  "sender_rtp_addr (receiver_on_pump B sent st now) = sender_rtp_addr st"
  "sender_rtp_addr (receiver_on_tick B st now) = sender_rtp_addr st"
  "sender_rtp_addr (fst (foldl (deliver_item ok) (st, k) items)) = sender_rtp_addr st"
  "sender_rtp_addr (fst (drain_iteration ok st now c now2)) = sender_rtp_addr st"
proof -
  show items: "sender_rtp_addr (fst (foldl (deliver_item ok) (st, k) items)) = sender_rtp_addr st" for st k items
    by (induction items arbitrary: st k) (simp_all add: deliver_item_def split: DrainItem.splits)
  show "sender_rtp_addr (fst (drain_iteration ok st now c now2)) = sender_rtp_addr st"
    by (simp add: drain_iteration_def Let_def split_beta items)
qed (simp_all add: receiver_on_pump_def receiver_on_tick_def Let_def split_beta split: option.splits)

lemma sender_rtp_addr_rtp:
  "sender_rtp_addr (receiver_on_rtp B st dg a t1 t2 w now) \<in> {sender_rtp_addr st, Some a}"
  by (simp add: receiver_on_rtp_def Let_def receiver_on_batch_frame split: option.splits)

lemma hears_step:
  assumes "hears src st" "brings B src rq m (ev, is)"
  shows "hears src (receiver_step B st ev)"
proof (cases ev)
  case (RtpIn dg a t1 t2 w now)
  with assms sender_rtp_addr_rtp [of B st dg a t1 t2 w now] show ?thesis
    by (auto simp: hears_def receiver_on_rtp_frame)
qed (use assms in \<open>simp_all add: hears_def receiver_frames sender_rtp_addr_kept\<close>)

lemma rx_ops_stream:
  assumes "bytes_crate B" "\<forall>pl \<in> set m. 12 + length pl \<le> MAX_UDP_RECV"
    and "hears src st" "\<forall>x \<in> set tevs. brings B src rq m x"
  shows "rx_ops B st (map fst tevs) = map (on_wire rq ((!) m)) (stream_of tevs)"
  using assms(3,4)
proof (induction tevs arbitrary: st)
  case (Cons x tevs)
  obtain ev "is" where x: "x = (ev, is)" by (cases x)
  have br: "brings B src rq m (ev, is)" using Cons.prems(2) x by simp
  have "event_ops B st ev = map (on_wire rq ((!) m)) (idx_ops (ev, is))"
  proof (cases ev)
    case (RtpIn dg a t1 t2 w now)
    with br hears_allowed [OF Cons.prems(1)] burst_batch [OF assms(1,2), of src rq dg a t1 t2 w now "is" st]
    show ?thesis by simp
  qed simp_all
  moreover have "rx_ops B (receiver_step B st ev) (map fst tevs) = map (on_wire rq ((!) m)) (stream_of tevs)"
    using Cons.IH [OF hears_step [OF Cons.prems(1) br]] Cons.prems(2) by simp
  ultimately show ?case by (simp add: x)
qed simp

section \<open>Where the receiver stands\<close>

text \<open>
  The position up to which a run has released the stream, delivered or given up, when \<open>k\<close> was the
  first to arrive; and that every arrival lies near it.
\<close>

definition release_point :: "bytes_api \<Rightarrow> ReceiverState \<Rightarrow> nat \<Rightarrow> ReceiverEvent list \<Rightarrow> nat" where
  "release_point B st k evs = k + length (snd (reorder_run (reorder st) (rx_ops B st evs)))"

definition in_window :: "bytes_api \<Rightarrow> ReceiverState \<Rightarrow> nat \<Rightarrow> (ReceiverEvent \<times> nat list) list \<Rightarrow> bool" where
  "in_window B st k tevs \<longleftrightarrow> (\<forall>n < length tevs. \<forall>i \<in> set (snd (tevs ! n)).
     release_point B st k (map fst (take n tevs)) \<le> i + 32768 \<and> i < release_point B st k (map fst (take n tevs)) + 8192)"

text \<open>The first packet to arrive is at position \<open>k\<close>.\<close>

definition starts_at :: "nat \<Rightarrow> (ReceiverEvent \<times> nat list) list \<Rightarrow> bool" where
  "starts_at k tevs \<longleftrightarrow> (case concat (map snd tevs) of [] \<Rightarrow> True | i # _ \<Rightarrow> i = k)"

lemma in_window_snoc:
  "in_window B st k (tevs @ [x]) \<longleftrightarrow> in_window B st k tevs
     \<and> (\<forall>i \<in> set (snd x). release_point B st k (map fst tevs) \<le> i + 32768 \<and> i < release_point B st k (map fst tevs) + 8192)"
  by (auto simp: in_window_def nth_append less_Suc_eq)

lemma starts_at_prefix: "starts_at k (xs @ ys) \<Longrightarrow> starts_at k xs"
  by (cases "concat (map snd xs)") (simp_all add: starts_at_def del: concat_eq_Nil_conv)

lemma first_arrival:
  assumes "\<forall>x \<in> set tevs. brings B src rq m x"
  shows "case concat (map snd tevs) of [] \<Rightarrow> dropWhile is_rel (stream_of tevs) = []
    | i # _ \<Rightarrow> \<exists>t rest. dropWhile is_rel (stream_of tevs) = Arr i t # rest"
  using assms
proof (induction tevs)
  case IH: (Cons x tevs)
  obtain ev "is" where x: "x = (ev, is)" by (cases x)
  show ?case
  proof (cases "is")
    case Nil
    with IH.prems x have "brings B src rq m (ev, [])" by simp
    then have "dropWhile is_rel (stream_of (x # tevs)) = dropWhile is_rel (stream_of tevs)" by (cases ev) (simp_all add: x Nil)
    moreover have "concat (map snd (x # tevs)) = concat (map snd tevs)" by (simp add: x Nil)
    ultimately show ?thesis using IH by (metis list.set_intros(2))
  next
    case (Cons i is')
    with IH.prems x have "brings B src rq m (ev, i # is')" by simp
    then obtain now where "idx_ops x = map (\<lambda>i. Arr i now) (i # is')" by (cases ev) (auto simp: x Cons)
    then show ?thesis by (simp add: x Cons)
  qed
qed simp

lemma arrivals_release_nothing: "snd (foldl (stream_op hold D) l (map (\<lambda>i. Arr i t) is)) = snd l"
proof (induction "is" arbitrary: l)
  case (Cons i "is")
  have "snd (stream_op hold D l (Arr i t)) = snd l" by (cases l) simp
  with Cons [of "stream_op hold D l (Arr i t)"] show ?case by simp
qed simp

lemma arrivals_in_reach:
  "\<forall>i \<in> set is. snd l \<le> i + 32768 \<and> i < snd l + 8192 \<Longrightarrow> run_in_reach hold D l (map (\<lambda>i. Arr i t) is)"
proof (induction "is" arbitrary: l)
  case (Cons i "is")
  have "snd (stream_op hold D l (Arr i t)) = snd l" by (cases l) simp
  with Cons.IH [of "stream_op hold D l (Arr i t)"] Cons.prems show ?case by simp
qed simp

text \<open>The receiver's buffer is the buffer of positions, all along the run.\<close>

lemma stream_position:
  assumes "bytes_crate B" "\<forall>pl \<in> set m. 12 + length pl \<le> MAX_UDP_RECV"
    and "hears src st" "reorder st = reorder_new hold"
    and "\<forall>x \<in> set tevs. brings B src rq m x" "starts_at k tevs" "in_window B st k tevs"
  defines "log_at \<equiv> \<lambda>tevs. foldl (stream_op hold ((!) m)) (joined k) (stream_of tevs)"
  shows "run_in_reach hold ((!) m) (joined k) (stream_of tevs)
    \<and> snd (reorder_run (reorder st) (rx_ops B st (map fst tevs))) = drop k (log_items rq (log_at tevs))
    \<and> log_wf (log_at tevs) \<and> release_point B st k (map fst tevs) = snd (log_at tevs)"
  using assms(5-7)
proof (induction tevs rule: rev_induct)
  case Nil
  then show ?case by (simp add: release_point_def log_items_def log_wf_def joined_def log_at_def)
next
  case (snoc x tevs)
  obtain ev "is" where x: "x = (ev, is)" by (cases x)
  have IH: "run_in_reach hold ((!) m) (joined k) (stream_of tevs)" "release_point B st k (map fst tevs) = snd (log_at tevs)"
    using snoc starts_at_prefix by (auto simp: in_window_snoc)
  have "run_in_reach hold ((!) m) (log_at tevs) (idx_ops x)"
  proof (cases ev)
    case (RtpIn dg a t1 t2 w now)
    with snoc.prems(3) x show ?thesis by (simp add: in_window_snoc IH(2) arrivals_in_reach)
  qed (simp_all add: x)
  with IH(1) have reach: "run_in_reach hold ((!) m) (joined k) (stream_of (tevs @ [x]))"
    by (simp add: run_in_reach_append log_at_def)
  have first: "dropWhile is_rel (stream_of (tevs @ [x])) = [] \<or> (\<exists>t rest. dropWhile is_rel (stream_of (tevs @ [x])) = Arr k t # rest)"
    using first_arrival [OF snoc.prems(1)] snoc.prems(2) by (auto simp: starts_at_def split: list.splits)
  obtain s items where run: "reorder_run (reorder_new hold) (map (on_wire rq ((!) m)) (stream_of (tevs @ [x]))) = (s, items)" by force
  have ops: "rx_ops B st (map fst (tevs @ [x])) = map (on_wire rq ((!) m)) (stream_of (tevs @ [x]))"
    by (rule rx_ops_stream [OF assms(1-3) snoc.prems(1)])
  have new: "log_items rq (log_at (tevs @ [x])) = log_items rq (joined k) @ items" "log_wf (log_at (tevs @ [x]))"
    using new_stream_run [OF first reach run] by (simp_all add: log_at_def)
  have len: "length (log_items rq (joined k)) = k" "length (log_items rq (log_at (tevs @ [x]))) = snd (log_at (tevs @ [x]))"
    using new(2) by (simp_all add: log_items_def joined_def log_wf_def)
  have "snd (log_at (tevs @ [x])) = k + length items" using arg_cong [OF new(1), of length] len by simp
  with reach ops run assms(4) new len(1) show ?case unfolding release_point_def by simp
qed

section \<open>What is handed over\<close>

text \<open>Every item released is a loss or the packet of its position.\<close>

lemma stream_items:
  assumes "l = foldl (stream_op hold D) (joined k) xs" "log_wf l" "n < length (drop k (log_items b l))"
  shows "drop k (log_items b l) ! n = Lost \<or> (\<exists>t. drop k (log_items b l) ! n = Delivered (D (k + n)) (b + of_nat (k + n)) t)"
proof -
  have n: "k + n < snd l" "k + n < length (fst l)" using assms(2,3) by (auto simp: log_items_def log_wf_def)
  then have "drop k (log_items b l) ! n = drain_item (b + of_nat (k + n)) (fst l ! (k + n))"
    by (simp add: log_items_def nth_q_items)
  moreover have "own_packets D l" unfolding assms(1) by (rule own_packets_run) (simp add: own_packets_def joined_def)
  ultimately show ?thesis using n(2) by (cases "fst l ! (k + n)") (auto simp: own_packets_def)
qed

fun arrival_clock :: "ReceiverEvent \<Rightarrow> instant" where
  "arrival_clock (RtpIn dg from arrived_at parsed_at waiting now) = now"
| "arrival_clock _ = 0"

lemma stream_arrival:
  assumes "Arr j t \<in> set (stream_of tevs)"
  shows "\<exists>x \<in> set tevs. j \<in> set (snd x) \<and> arrival_clock (fst x) = t"
proof -
  obtain x where x: "x \<in> set tevs" "Arr j t \<in> set (idx_ops x)" using assms by auto
  then have "j \<in> set (snd x) \<and> arrival_clock (fst x) = t" by (cases x rule: idx_ops.cases) auto
  with x(1) show ?thesis by blast
qed

lemma brings_within:
  assumes "brings B src rq m x" "i \<in> set (snd x)"
  shows "i < length m"
proof -
  obtain dg a t1 t2 w t "is" where ev: "x = (RtpIn dg a t1 t2 w t, is)" "i \<in> set is"
    using assms by (cases x rule: idx_ops.cases) auto
  with assms(1) have "list_all2 (carries B rq m) is (dg # map fst w)" by auto
  with ev(2) show ?thesis by (auto simp: list_all2_conv_all_nth in_set_conv_nth carries_def)
qed

lemma stream_in_order:
  assumes B: "bytes_crate B" and small: "\<forall>pl \<in> set m. 12 + length pl \<le> MAX_UDP_RECV"
    and r0: "hears src r0" "reorder r0 = reorder_new hold" "delivered r0 = []"
    and arrivals: "\<forall>x \<in> set tevs. brings B src rq m x" "starts_at k tevs" "in_window B r0 k tevs"
    and r: "r = receiver_run B r0 (map fst tevs)"
  shows "\<exists>js. sorted_wrt (<) js \<and> set js \<subseteq> {k..<length m} \<and> map dl_data (delivered r) = map ((!) m) js
    \<and> map dl_rtp_seq (delivered r) = map (\<lambda>j. rq + of_nat j) js"
proof -
  let ?l = "foldl (stream_op hold ((!) m)) (joined k) (stream_of tevs)"
  have pos: "snd (reorder_run (reorder r0) (rx_ops B r0 (map fst tevs))) = drop k (log_items rq ?l)" "log_wf ?l"
    using stream_position [OF B small r0(1,2) arrivals] by simp_all
  have "subseq (map as_item (delivered r)) (drop k (log_items rq ?l))"
    using rx_ops_run [of B r0 "map fst tevs"] r0(3) pos(1) by (auto simp: r)
  from subseq_indices [OF this] obtain js where js: "length js = length (delivered r)" "sorted_wrt (<) js"
    "\<forall>n < length (delivered r). js ! n < length (drop k (log_items rq ?l)) \<and> drop k (log_items rq ?l) ! (js ! n) = as_item (delivered r ! n)"
    by auto
  have "i < length m" if "Arr i t \<in> set (stream_of tevs)" for i t
    using stream_arrival [OF that] brings_within arrivals(1) by blast
  then have "length (fst ?l) \<le> max k (length m)" by (intro stream_length) (auto simp: joined_def less_max_iff_disj)
  then have within: "k + js ! n < length m" if "n < length (delivered r)" for n
    using js(3) that pos(2) by (fastforce simp: log_items_def log_wf_def)
  have "dl_data (delivered r ! n) = m ! (k + js ! n) \<and> dl_rtp_seq (delivered r ! n) = rq + of_nat (k + js ! n)"
    if "n < length (delivered r)" for n
    using stream_items [OF refl pos(2), of "js ! n" rq] js(3) that by (auto simp: as_item_def)
  with js(1,2) within show ?thesis
    by (intro exI [of _ "map (\<lambda>j. k + j) js"]) (auto simp: sorted_wrt_map in_set_conv_nth intro!: nth_equalityI)
qed

section \<open>Completeness\<close>

fun drain_clock :: "ReceiverEvent \<Rightarrow> instant option" where
  "drain_clock (DrainTurn chan_ok now clock now2) = Some now"
| "drain_clock _ = None"

text \<open>
  A packet is in time at an arrival when no drain before it has come the hold time or more after an
  earlier arrival of it or of a later packet. The stream from \<open>k\<close> on is in time when each of its
  packets has such an arrival.
\<close>

definition timely :: "duration \<Rightarrow> (ReceiverEvent \<times> nat list) list \<Rightarrow> nat \<Rightarrow> bool" where
  "timely hold before i \<longleftrightarrow> (\<forall>x \<in> set before. \<forall>j \<in> set (snd x). i \<le> j \<longrightarrow>
     (\<forall>y \<in> set before. \<forall>t. drain_clock (fst y) = Some t \<longrightarrow> t - arrival_clock (fst x) < hold))"

definition in_time :: "duration \<Rightarrow> nat \<Rightarrow> nat \<Rightarrow> (ReceiverEvent \<times> nat list) list \<Rightarrow> bool" where
  "in_time hold k n tevs \<longleftrightarrow>
     (\<forall>i \<in> {k..<n}. \<exists>u < length tevs. i \<in> set (snd (tevs ! u)) \<and> timely hold (take u tevs) i)"

lemma stream_drain:
  assumes "Rel t \<in> set (stream_of tevs)"
  shows "\<exists>y \<in> set tevs. drain_clock (fst y) = Some t"
proof -
  obtain y where y: "y \<in> set tevs" "Rel t \<in> set (idx_ops y)" using assms by auto
  then have "drain_clock (fst y) = Some t" by (cases y rule: idx_ops.cases) auto
  with y(1) show ?thesis by blast
qed

lemma timely_unreleased:
  assumes "timely hold tevs i" "k \<le> i"
  shows "snd (foldl (stream_op hold D) (joined k) (stream_of tevs)) \<le> i"
proof (rule ccontr)
  assume "\<not> ?thesis"
  then obtain j t T where "i \<le> j" "Arr j t \<in> set (stream_of tevs)" "Rel T \<in> set (stream_of tevs)" "hold \<le> T - t"
    using conjunct2 [OF released_noticed [of k hold D "stream_of tevs"]] assms(2) unfolding not_le by blast
  with stream_arrival [of j t tevs] stream_drain [of T tevs] assms(1) show False
    unfolding timely_def by (metis not_le)
qed

lemma in_time_stream:
  assumes "\<forall>x \<in> set tevs. brings B src rq m x" "u < length tevs" "i \<in> set (snd (tevs ! u))" "timely hold (take u tevs) i" "k \<le> i"
  shows "\<exists>ys t zs. stream_of tevs = ys @ Arr i t # zs \<and> snd (foldl (stream_op hold D) (joined k) ys) \<le> i"
proof -
  obtain ev "is" where x: "tevs ! u = (ev, is)" by (cases "tevs ! u")
  obtain is1 is2 where s: "is = is1 @ i # is2" using assms(3) x by (auto dest: split_list)
  have "brings B src rq m (ev, is)" using assms(1,2) x by (metis nth_mem)
  then obtain now where ops: "idx_ops (ev, is) = map (\<lambda>i. Arr i now) is" using s by (cases ev) auto
  have "tevs = take u tevs @ (ev, is) # drop (Suc u) tevs" using id_take_nth_drop [OF assms(2)] x by simp
  then have "stream_of tevs = stream_of (take u tevs) @ idx_ops (ev, is) @ stream_of (drop (Suc u) tevs)"
    by (metis concat.simps(2) concat_append list.simps(9) map_append)
  then have "stream_of tevs = (stream_of (take u tevs) @ map (\<lambda>i. Arr i now) is1)
      @ Arr i now # (map (\<lambda>i. Arr i now) is2 @ stream_of (drop (Suc u) tevs))" by (simp add: ops) (simp add: s)
  then show ?thesis using timely_unreleased [OF assms(4,5), of D] arrivals_release_nothing [of hold D _ now is1]
    by (intro exI [of _ "stream_of (take u tevs) @ map (\<lambda>i. Arr i now) is1"] exI conjI) auto
qed

text \<open>The stream is complete at the receiver: the buffer of positions has all of it, and the last drain releases the rest.\<close>

lemma stream_complete:
  assumes B: "bytes_crate B" and small: "\<forall>pl \<in> set m. 12 + length pl \<le> MAX_UDP_RECV"
    and r0: "hears src r0" "reorder r0 = reorder_new hold" "delivered r0 = []"
    and tevs: "tevs = pre @ [(DrainTurn ok T c n2, [])]" "k \<in> set (concat (map snd tevs))"
    and arrivals: "\<forall>x \<in> set tevs. brings B src rq m x" "starts_at k tevs" "in_window B r0 k tevs"
    and time: "in_time hold k (length m) tevs" "\<forall>x \<in> set tevs. snd x \<noteq> [] \<longrightarrow> arrival_clock (fst x) + hold \<le> T"
    and keeps_up: "\<forall>ev \<in> set (map fst tevs). channel_keeps_up ev"
    and r: "r = receiver_run B r0 (map fst tevs)"
  shows "\<exists>ts. map as_item (delivered r) = map (\<lambda>i. Delivered (m ! i) (rq + of_nat i) (ts i)) [k..<length m]"
proof -
  let ?log = "foldl (stream_op hold ((!) m)) (joined k)"
  note pos = stream_position [OF B small r0(1,2)]
  have pre: "\<forall>x \<in> set pre. brings B src rq m x" "starts_at k pre" "in_window B r0 k pre"
    using arrivals tevs(1) by (auto simp: in_window_snoc intro: starts_at_prefix)
  have "\<exists>ys t zs. stream_of pre = ys @ Arr i t # zs \<and> snd (?log ys) \<le> i" if "k \<le> i" "i < length m" for i
  proof -
    obtain u where u: "u < length tevs" "i \<in> set (snd (tevs ! u))" "timely hold (take u tevs) i"
      using bspec [OF time(1) [unfolded in_time_def], of i] \<open>k \<le> i\<close> \<open>i < length m\<close> by auto
    then have "u < length pre" by (cases "u = length pre") (auto simp: tevs(1))
    with u in_time_stream [OF pre(1)] \<open>k \<le> i\<close> show ?thesis by (simp add: tevs(1) nth_append)
  qed
  moreover obtain x where x: "x \<in> set tevs" "k \<in> set (snd x)" using tevs(2) by auto
  then have k: "k < length m" and "hold \<le> T" using brings_within [of B src rq m x k] arrivals(1) time(2) by fastforce+
  moreover have "i < length m \<and> t + hold \<le> T" if "Arr i t \<in> set (stream_of pre)" for i t
  proof -
    obtain x where "x \<in> set tevs" "i \<in> set (snd x)" "arrival_clock (fst x) = t" using stream_arrival [OF \<open>Arr i t \<in> set (stream_of pre)\<close>] tevs(1) by auto
    then show ?thesis using brings_within [of B src rq m x i] arrivals(1) time(2) by fastforce
  qed
  moreover have "log_wf (?log (stream_of pre))" using pos [OF pre] by blast
  ultimately obtain ts where
    ts: "drop k (log_items rq (?log (stream_of tevs))) = map (\<lambda>i. Delivered (m ! i) (rq + of_nat i) (ts i)) [k..<length m]"
    using complete_stream [OF refl, of "stream_of pre" "length m" hold T k "(!) m" rq] by (auto simp: tevs(1))
  from rx_ops_run_all [OF keeps_up, of B r0] obtain ds where
    ds: "delivered r = ds" "map as_item ds = filter (\<lambda>x. x \<noteq> Lost) (snd (reorder_run (reorder r0) (rx_ops B r0 (map fst tevs))))"
    using r0(3) by (auto simp: r)
  have "snd (reorder_run (reorder r0) (rx_ops B r0 (map fst tevs))) = drop k (log_items rq (?log (stream_of tevs)))"
    using pos [OF arrivals] by blast
  with ds ts show ?thesis by (auto simp: filter_map comp_def)
qed

section \<open>What the sender sends\<close>

lemma sent_carries:
  assumes B: "bytes_crate B" and st: "st = sender_run B send_ok (sender_init config remote rs rq name epoch wall) evs"
    and d: "d \<in> set (rtp_sent st)"
  shows "fst d = remote \<and> (\<exists>i. carries B rq (media_of evs) i (snd d))"
proof -
  let ?st0 = "sender_init config remote rs rq name epoch wall"
  have reach: "sender_reach B send_ok ?st0 st" unfolding st by (rule sender_run_reach)
  have inv: "sender_inv B st" by (rule reach_inv [OF B reach])
  have same: "ssrc st = ssrc ?st0" "remote_rtp_addr st = remote"
    using reach_session [OF B reach] by (simp_all add: sender_init_def Let_def)
  have orig: "\<exists>i < length (media_of evs). \<exists>t. e = wire B (ssrc st) (rq + of_nat i) t (media_of evs ! i)"
    if "(remote, e) \<in> set (rtp_sent st)" "is_original B (remote, e)" for e
  proof -
    obtain ts where "filter (is_original B) (rtp_sent st) = map (\<lambda>j. (remote, wire B (ssrc ?st0) (rq + of_nat j) (ts j) (media_of evs ! j)))
        [0..<length (media_of evs)]" unfolding st using sender_originals [OF B refl] by blast
    moreover have "(remote, e) \<in> set (filter (is_original B) (rtp_sent st))" using that by simp
    ultimately show ?thesis using same(1) by auto
  qed
  obtain n where n: "n < length (rtp_sent st)" "d = rtp_sent st ! n" using d by (auto simp: in_set_conv_nth)
  obtain k ts pl where "d = (remote, wire B (ssrc st) k ts pl)
      \<or> d = (remote, wire B (ssrc st OR 1) k ts pl) \<and> (remote, wire B (ssrc st) k ts pl) \<in> set (take n (rtp_sent st))"
    using inv n unfolding sender_inv_def log_ok_def same(2) by blast
  then have k: "(remote, wire B (ssrc st) k ts pl) \<in> set (rtp_sent st)" and
    dd: "d = (remote, wire B (ssrc st) k ts pl) \<or> d = (remote, retx_copy (wire B (ssrc st) k ts pl))"
    using d by (auto simp: bytes_crate.retx_copy_wire [OF B] dest: in_set_takeD)
  have "is_original B (remote, wire B (ssrc st) k ts pl)" using inv by (simp add: is_original_wire [OF B] sender_inv_def)
  from orig [OF k this] obtain i t where "i < length (media_of evs)" "wire B (ssrc st) k ts pl = wire B (ssrc st) (rq + of_nat i) t (media_of evs ! i)"
    by blast
  with dd have "\<exists>s. d = (remote, wire B s (rq + of_nat i) t (media_of evs ! i))"
    by (auto simp: bytes_crate.retx_copy_wire [OF B])
  then obtain s where "d = (remote, wire B s (rq + of_nat i) t (media_of evs ! i))" ..
  with carriesI [OF \<open>i < length (media_of evs)\<close>] have "fst d = remote \<and> carries B rq (media_of evs) i (snd d)" by simp
  then show ?thesis by blast
qed

text \<open>
  C1: Reliable transport, end to end. A sender has run from its start and taken the payloads \<open>m\<close> from
  its application, each small enough for a datagram; every datagram it has sent goes to the
  destination and carries a packet of that stream, as the original or as a copy. A receiver at that
  destination, not pinned elsewhere, gets datagrams of the stream from one source, in any order, in
  bursts, any number of times or never, and between any other turns; \<open>k\<close> is the position of the
  first to arrive, and every arrival lies at most 32768 behind and less than 8192 ahead of what the
  buffer has released. Then the application gets payloads of the stream from \<open>k\<close> on, in order and
  none twice, each under the number it was sent with. And it gets all of them when it keeps up
  and each packet arrives at least once, original or copy, before a drain finds the hold time
  passed since a later packet, as soon as a drain comes one hold time after the last arrival.
\<close>

theorem reliable_transport:
  assumes B: "bytes_crate B"
    and st: "st = sender_run B send_ok (sender_init sconfig remote srs rq sname epoch wall) sevs" and m: "m = media_of sevs"
    and small: "\<forall>pl \<in> set m. 12 + length pl \<le> MAX_UDP_RECV"
    and init: "r0 = receiver_init rconfig rrs rname t0 t1" "remote_addr rconfig = None \<or> map_option sock_ip (remote_addr rconfig) = Some (sock_ip src)"
    and arrivals: "\<forall>x \<in> set tevs. brings B src rq m x" "starts_at k tevs" "in_window B r0 k tevs"
    and r: "r = receiver_run B r0 (map fst tevs)"
  shows "(\<forall>d \<in> set (rtp_sent st). fst d = remote \<and> (\<exists>i. carries B rq m i (snd d)))
    \<and> (\<exists>js. sorted_wrt (<) js \<and> set js \<subseteq> {k..<length m} \<and> map dl_data (delivered r) = map ((!) m) js
         \<and> map dl_rtp_seq (delivered r) = map (\<lambda>j. rq + of_nat j) js)
    \<and> (k \<in> set (concat (map snd tevs)) \<longrightarrow> (\<forall>ev \<in> set (map fst tevs). channel_keeps_up ev) \<longrightarrow>
         in_time (buffer_size rconfig) k (length m) tevs \<longrightarrow>
         (\<forall>ok T c n2. last tevs = (DrainTurn ok T c n2, []) \<longrightarrow>
            (\<forall>x \<in> set tevs. snd x \<noteq> [] \<longrightarrow> arrival_clock (fst x) + buffer_size rconfig \<le> T) \<longrightarrow>
            map dl_data (delivered r) = drop k m))"
proof (intro conjI impI allI)
  have r0: "hears src r0" "reorder r0 = reorder_new (buffer_size rconfig)" "delivered r0 = []"
    using init by (auto simp: receiver_init_def Let_def hears_def)
  show "\<exists>js. sorted_wrt (<) js \<and> set js \<subseteq> {k..<length m} \<and> map dl_data (delivered r) = map ((!) m) js
         \<and> map dl_rtp_seq (delivered r) = map (\<lambda>j. rq + of_nat j) js"
    by (rule stream_in_order [OF B small r0 arrivals r])
  fix ok T c n2
  assume time: "k \<in> set (concat (map snd tevs))" "\<forall>ev \<in> set (map fst tevs). channel_keeps_up ev"
    "in_time (buffer_size rconfig) k (length m) tevs" "last tevs = (DrainTurn ok T c n2, [])"
    "\<forall>x \<in> set tevs. snd x \<noteq> [] \<longrightarrow> arrival_clock (fst x) + buffer_size rconfig \<le> T"
  have "tevs \<noteq> []" using time(1) by auto
  then have tevs: "tevs = butlast tevs @ [(DrainTurn ok T c n2, [])]" using time(4) by (metis append_butlast_last_id)
  obtain ts where "map as_item (delivered r) = map (\<lambda>i. Delivered (m ! i) (rq + of_nat i) (ts i)) [k..<length m]"
    using stream_complete [OF B small r0 tevs time(1) arrivals time(3,5,2) r] by blast
  then have "map dl_data (delivered r) = map ((!) m) [k..<length m]"
    by (auto simp: list_eq_iff_nth_eq as_item_def)
  then show "map dl_data (delivered r) = drop k m" by (auto intro!: nth_equalityI)
qed (use sent_carries [OF B st] m in auto)

text \<open>
  Four payloads across the wrap-around: the second is the first to arrive; one burst brings it, the
  fourth and a copy of the third, and the first comes too late to count.
\<close>

theorem reliable_transport_witness:
  "map dl_data (delivered (receiver_run be_bytes_api (receiver_init config_default 3 [] 0 0)
     [RtpIn (wire be_bytes_api 2 65535 0 [2]) (SocketV4 1 5000) 7 7
        [(wire be_bytes_api 2 1 0 [4], SocketV4 1 5000, 8), (wire be_bytes_api 3 0 0 [3], SocketV4 1 5000, 9),
         (wire be_bytes_api 2 65534 0 [1], SocketV4 1 5000, 9)] 10,
      DrainTurn (\<lambda>_. True) 1000000010 0 0]))
   = [[2], [3], [4]]"
proof -
  let ?r0 = "receiver_init config_default 3 [] 0 0" and ?m = "[[1], [2], [3], [4]] :: bytes list"
  let ?ev = "RtpIn (wire be_bytes_api 2 65535 0 [2]) (SocketV4 1 5000) 7 7
        [(wire be_bytes_api 2 1 0 [4], SocketV4 1 5000, 8), (wire be_bytes_api 3 0 0 [3], SocketV4 1 5000, 9),
         (wire be_bytes_api 2 65534 0 [1], SocketV4 1 5000, 9)] 10" and ?dr = "DrainTurn (\<lambda>_. True) 1000000010 0 0"
  let ?tevs = "[(?ev, [1, 3, 2, 0]), (?dr, [])]" and ?sevs = "[Media [1] 0, Media [2] 0, Media [3] 0, Media [4] 0]"
  have media: "media_of ?sevs = ?m" by (simp add: media_of_def List.map_filter_def)
  have "brings be_bytes_api (SocketV4 1 5000) 65534 ?m (?ev, [1, 3, 2, 0])"
    using carriesI [of 0 ?m be_bytes_api 65534 2 0] carriesI [of 1 ?m be_bytes_api 65534 2 0]
      carriesI [of 2 ?m be_bytes_api 65534 3 0] carriesI [of 3 ?m be_bytes_api 65534 2 0] by (simp add: lap_u16)
  then have arrivals: "\<forall>x \<in> set ?tevs. brings be_bytes_api (SocketV4 1 5000) 65534 ?m x" "starts_at 1 ?tevs" "in_window be_bytes_api ?r0 1 ?tevs"
    by (simp_all add: starts_at_def in_window_def release_point_def less_Suc_eq del: brings.simps(1))
  have time: "in_time (buffer_size config_default) 1 (length ?m) ?tevs"
    unfolding in_time_def by (auto simp: timely_def less_Suc_eq intro!: exI [of _ 0])
  have small: "\<forall>pl \<in> set ?m. 12 + length pl \<le> MAX_UDP_RECV" by simp
  have pin: "remote_addr config_default = None \<or> map_option sock_ip (remote_addr config_default) = Some (sock_ip (SocketV4 1 5000))"
    and hold: "buffer_size config_default = 1000000000" by (simp_all add: config_default_def)
  from reliable_transport [OF be.bytes_crate_axioms refl media [symmetric] small refl pin arrivals refl] time
  show ?thesis by (simp add: hold del: receiver_run_simps)
qed

end
