(* ===== verification/Rist_Contents.thy ===== *)
theory Rist_Contents
  imports Rist_Reorder
begin

text \<open>
  What the reorder ring can hold and release, on every run, with no bound on where the packets lie:
  a property of all inserted packets under their numbers is one of all released packets, because
  the drain compares the number stored in the slot with the one it is about to release.
\<close>

unbundle bit_operations_syntax

section \<open>What a buffer holds\<close>

text \<open>Every packet in the ring has, under the number of its slot, the property \<open>P\<close>.\<close>

definition holds_only :: "(u16 \<Rightarrow> bytes \<Rightarrow> bool) \<Rightarrow> ReorderBuffer \<Rightarrow> bool" where
  "holds_only P rb \<longleftrightarrow> slot_mask rb < length (slots rb)
     \<and> (\<forall>slot \<in> set (slots rb). \<forall>d t. slot_state slot = Filled d t \<longrightarrow> P (slot_seq slot) d)"

lemma holds_only_base [simp]:
  "holds_only P (rb\<lparr>base_seq := b\<rparr>) = holds_only P rb" "holds_only P (rb\<lparr>highest_seq := h\<rparr>) = holds_only P rb"
  by (simp_all add: holds_only_def)

lemma holds_only_write:
  "holds_only P rb \<Longrightarrow> (\<And>d t. slot_state v = Filled d t \<Longrightarrow> P (slot_seq v) d) \<Longrightarrow> holds_only P (rb\<lparr>slots := (slots rb)[i := v]\<rparr>)"
  unfolding holds_only_def by (auto dest!: set_update_subset_insert [THEN subsetD])

lemma holds_only_slot:
  assumes "holds_only P rb" "slot_state (slots rb ! slot_index rb q) = Filled d t"
  shows "P (slot_seq (slots rb ! slot_index rb q)) d"
proof -
  have "int (unat q AND slot_mask rb) \<le> int (slot_mask rb)" unfolding of_nat_and_eq by (rule AND_upper2) simp
  then have "slots rb ! slot_index rb q \<in> set (slots rb)" using assms(1) by (simp add: holds_only_def slot_index_def)
  with assms show ?thesis by (auto simp: holds_only_def)
qed

lemma holds_only_mono: "holds_only P rb \<Longrightarrow> (\<And>q d. P q d \<Longrightarrow> Q q d) \<Longrightarrow> holds_only Q rb"
  unfolding holds_only_def by blast

lemma holds_only_new: "holds_only P (reorder_new hold)"
  by (simp add: holds_only_def reorder_new_def with_capacity_def Let_def empty_slot_def next_power_of_two.simps)

lemma foldl_keeps: "I acc \<Longrightarrow> (\<And>acc x. I acc \<Longrightarrow> I (f acc x)) \<Longrightarrow> I (foldl f acc xs)"
  by (induction xs arbitrary: acc) simp_all

lemma holds_only_flush:
  assumes "holds_only P rb"
  shows "holds_only P (fst (foldl flush_slot (rb, n) qs))"
proof (rule foldl_keeps)
  show "holds_only P (fst (flush_slot acc q))" if "holds_only P (fst acc)" for acc q
    using holds_only_write [OF that, of empty_slot] by (simp add: flush_slot_def Let_def empty_slot_def split_beta)
qed (use assms in simp)

lemma holds_only_marks:
  assumes "holds_only P rb"
  shows "holds_only P (fst (foldl (mark_gap now seq) (rb, n) qs))"
proof (rule foldl_keeps)
  show "holds_only P (fst (mark_gap now seq acc q))" if "holds_only P (fst acc)" for acc q
    using that holds_only_write [OF that, of "\<lparr>slot_seq = q, slot_state = Gap now\<rparr>"]
    by (simp add: mark_gap_def Let_def split_beta)
qed (use assms in simp)

lemma holds_only_extend: "holds_only P rb \<Longrightarrow> holds_only P (fst (extend_highest rb oc seq highest now))"
  using holds_only_marks [of P rb now seq "new_gaps oc"] by (simp add: extend_highest_def Let_def split_beta)

lemma holds_only_in_window:
  assumes "holds_only P rb" "P seq data"
  shows "holds_only P (fst (insert_in_window rb oc seq data now highest))"
proof -
  have "holds_only P (rb\<lparr>slots := (slots rb)[i := filled_slot seq data now]\<rparr>)"
    "slot_seq sl = seq \<Longrightarrow> holds_only P (rb\<lparr>slots := (slots rb)[i := sl\<lparr>slot_state := Filled data now\<rparr>]\<rparr>)" for i sl
    using assms by (auto simp: filled_slot_def intro: holds_only_write)
  with assms(1) show ?thesis
    by (simp add: insert_in_window_def Let_def holds_only_extend split: SlotState.split)
qed

lemma holds_only_insert:
  assumes "holds_only P rb" "P seq data"
  shows "holds_only P (fst (reorder_insert rb seq data now))"
proof -
  have first: "holds_only P (start_at r seq data now)" if "holds_only P r" for r
    using holds_only_write [OF that, of "filled_slot seq data now"] assms(2) by (simp add: start_at_def filled_slot_def)
  have cleared: "holds_only P (rb\<lparr>slots := map (\<lambda>_. empty_slot) (slots rb)\<rparr>)"
    using assms(1) by (auto simp: holds_only_def empty_slot_def)
  have flushed: "holds_only P (fst (foldl flush_slot (rb, 0) qs))" for qs
    using assms(1) by (rule holds_only_flush)
  show ?thesis
    using assms first cleared flushed
    by (simp add: reorder_insert_def Let_def split_beta holds_only_in_window split: option.splits)
qed

lemma holds_only_drain:
  assumes "holds_only P rb"
  shows "holds_only P (fst (drain_ready rb now)) \<and> (\<forall>d q t. Delivered d q t \<in> set (snd (drain_ready rb now)) \<longrightarrow> P q d)"
  using assms
proof (induction rb now rule: drain_ready.induct)
  case (1 rb now)
  show ?case
  proof (cases "\<exists>b h. base_seq rb = Some b \<and> highest_seq rb = Some h \<and> \<not> 0 < sint (b - h)")
    case False
    then show ?thesis using "1.prems" by (subst (1 2) drain_ready.simps) (auto split: option.splits)
  next
    case True
    then obtain b h where bh: "base_seq rb = Some b" "highest_seq rb = Some h" "\<not> 0 < sint (b - h)" by blast
    let ?slot = "slots rb ! slot_index rb b"
    have empties: "holds_only P (rb\<lparr>slots := (slots rb)[slot_index rb b := empty_slot], base_seq := Some (b + 1)\<rparr>)"
      "holds_only P (rb\<lparr>slots := (slots rb)[slot_index rb b := ?slot\<lparr>slot_state := Empty\<rparr>], base_seq := Some (b + 1)\<rparr>)"
      using "1.prems" by (auto simp: empty_slot_def intro: holds_only_write)
    note IH = "1.IH" [OF refl bh refl refl]
    show ?thesis
    proof (cases "slot_seq ?slot = b")
      case False
      with IH(1) empties(1) bh show ?thesis
        by (subst (1 2) drain_ready.simps) (simp add: split_beta Let_def)
    next
      case True
      show ?thesis
      proof (cases "slot_state ?slot")
        case (Filled d t)
        with IH(3) [OF _ Filled] empties(2) bh True "1.prems" holds_only_slot [OF "1.prems" Filled] show ?thesis
          by (subst (1 2) drain_ready.simps) (auto simp: split_beta Let_def)
      next
        case (Gap t)
        with IH(2) [OF _ Gap] empties(2) bh True "1.prems" show ?thesis
          by (subst (1 2) drain_ready.simps) (auto simp: split_beta Let_def)
      next
        case Empty
        with bh True "1.prems" show ?thesis by (subst (1 2) drain_ready.simps) simp
      qed
    qed
  qed
qed

end
