(* ===== verification/Rist_Network.thy ===== *)
theory Rist_Network
  imports Rist_Transport Rist_Contents
begin

text \<open>
  The sender and the receiver with a network between them that loses, repeats, delays and reorders
  datagrams and in which other hosts send what they like to either of them. What a receiver that
  is configured with the sender's address hands over is what the sender's application has given
  to the sender, whatever happens on the way.
\<close>

section \<open>What a receiver holds and hands over\<close>

definition receives_only :: "(u16 \<Rightarrow> bytes \<Rightarrow> bool) \<Rightarrow> ReceiverState \<Rightarrow> bool" where
  "receives_only P st \<longleftrightarrow> holds_only P (reorder st) \<and> (\<forall>d \<in> set (delivered st). P (dl_rtp_seq d) (dl_data d))"

lemma receives_only_mono: "receives_only P st \<Longrightarrow> (\<And>q d. P q d \<Longrightarrow> Q q d) \<Longrightarrow> receives_only Q st"
  unfolding receives_only_def using holds_only_mono [of P "reorder st" Q] by blast

lemma holds_only_batch:
  assumes "holds_only P g" "\<forall>p \<in> set batch. P (p_seq p) (p_payload p)"
  shows "holds_only P (fst (insert_batch g now batch))"
  using assms
proof (induction batch arbitrary: g)
  case (Cons p batch)
  have "holds_only P (fst (reorder_insert g (p_seq p) (p_payload p) now))" using Cons.prems by (simp add: holds_only_insert)
  with Cons show ?case by (simp add: split_beta Let_def)
qed simp

text \<open>A turn keeps the property when every media datagram it reads has it.\<close>

definition decodes_to :: "bytes_api \<Rightarrow> (u16 \<Rightarrow> bytes \<Rightarrow> bool) \<Rightarrow> bytes \<Rightarrow> bool" where
  "decodes_to B P dg \<longleftrightarrow> (\<forall>h n. rtp_header_parse B (take MAX_UDP_RECV dg) = Ok (h, n)
     \<longrightarrow> P (sequence_number h) (drop n (take MAX_UDP_RECV dg)))"

lemma receives_only_step:
  assumes "receives_only P st" "\<forall>dg \<in> set (rtp_datagrams ev). decodes_to B P dg"
  shows "receives_only P (receiver_step B st ev)"
proof (cases ev)
  case (RtpIn dg a t1 t2 w now)
  have "P (p_seq p) (p_payload p)" if "p \<in> set (rtp_batch B st dg a t2 w)" for p
  proof -
    obtain d h n where "d \<in> set (rtp_datagrams ev)" "rtp_header_parse B (take MAX_UDP_RECV d) = Ok (h, n)"
      "p_seq p = sequence_number h" "p_payload p = drop n (take MAX_UDP_RECV d)"
      using rtp_batch_origin [OF \<open>p \<in> set (rtp_batch B st dg a t2 w)\<close>] unfolding RtpIn rtp_datagrams.simps by blast
    with assms(2) show ?thesis by (simp add: decodes_to_def del: MAX_UDP_RECV_def)
  qed
  with assms(1) RtpIn show ?thesis by (simp add: receives_only_def receiver_on_rtp_frame holds_only_batch)
next
  case (DrainTurn ok now c now2)
  obtain g items where d: "drain_ready (reorder st) now = (g, items)" by force
  have g: "holds_only P g" "Delivered dt q t \<in> set items \<Longrightarrow> P q dt" for dt q t
    using holds_only_drain [of P "reorder st" now] assms(1) d by (auto simp: receives_only_def)
  obtain ds where ds: "delivered (fst (foldl (deliver_item ok) (st\<lparr>reorder := g\<rparr>, 0) items)) = delivered st @ ds"
    "subseq (map as_item ds) items" using delivered_items [of ok "st\<lparr>reorder := g\<rparr>" 0 items] by auto
  have "P (dl_rtp_seq x) (dl_data x)" if "x \<in> set ds" for x
    using g(2) [of "dl_data x" "dl_rtp_seq x" "dl_arrival x"] that list_emb_set [OF ds(2), of "as_item x"] by (auto simp: as_item_def)
  moreover have "delivered (fst (drain_iteration ok st now c now2)) = delivered st @ ds"
    using ds by (cases "items = []") (simp_all add: drain_iteration_def d Let_def)
  ultimately show ?thesis using assms(1) DrainTurn d g(1) by (auto simp: receives_only_def drain_iteration_frame)
qed (use assms(1) in \<open>simp_all add: receives_only_def receiver_frames\<close>)

section \<open>The network\<close>

record Network =
  net_sender :: SenderState
  net_receiver :: ReceiverState
  net_media :: "bytes list"

fun taken_media :: "SenderEvent \<Rightarrow> bytes list" where
  "taken_media (Media pl now) = [pl]"
| "taken_media _ = []"

text \<open>
  The steps: any turn of the sender, whatever reaches its control port and from whomever; any turn
  of the receiver, in which the media datagrams that come from the sender's host are ones the sender
  has sent, any number of times, in any order and with any delay, and everything else is arbitrary.
\<close>

definition genuine :: "IpAddr \<Rightarrow> datagram list \<Rightarrow> ReceiverEvent \<Rightarrow> bool" where
  "genuine ip sent ev \<longleftrightarrow> (case own_event ip ev of
     Some ev' \<Rightarrow> \<forall>dg \<in> set (rtp_datagrams ev'). dg \<in> snd ` set sent | None \<Rightarrow> True)"

inductive net_step :: "bytes_api \<Rightarrow> (nat \<Rightarrow> bool) \<Rightarrow> IpAddr \<Rightarrow> Network \<Rightarrow> Network \<Rightarrow> bool" for B send_ok ip where
  at_sender: "net_step B send_ok ip s
     (s\<lparr>net_sender := sender_step B send_ok (net_sender s) ev, net_media := net_media s @ taken_media ev\<rparr>)"
| at_receiver: "genuine ip (rtp_sent (net_sender s)) ev
     \<Longrightarrow> net_step B send_ok ip s (s\<lparr>net_receiver := receiver_step B (net_receiver s) ev\<rparr>)"

text \<open>The packet under a number, as the receiver reads it: cut to what its buffer takes.\<close>

definition sent_as :: "u16 \<Rightarrow> bytes list \<Rightarrow> u16 \<Rightarrow> bytes \<Rightarrow> bool" where
  "sent_as rq m q d \<longleftrightarrow> (\<exists>i < length m. q = rq + of_nat i \<and> d = take (MAX_UDP_RECV - 12) (m ! i))"

lemma sent_as_mono: "sent_as rq m q d \<Longrightarrow> sent_as rq (m @ m') q d"
  unfolding sent_as_def by (metis length_append nth_append trans_less_add1)

lemma carries_decodes:
  assumes "bytes_crate B" "carries B rq m i dg"
  shows "decodes_to B (sent_as rq m) dg"
proof -
  obtain s ts where dg: "dg = wire B s (rq + of_nat i) ts (m ! i)" "i < length m" using assms(2) by (auto simp: carries_def)
  have len: "length (rtp_header_serialize B (new_ts s (rq + of_nat i) ts)) = 12"
    by (rule bytes_crate.length_rtp_header_serialize [OF assms(1)])
  have cut: "take MAX_UDP_RECV dg = wire B s (rq + of_nat i) ts (take (MAX_UDP_RECV - 12) (m ! i))"
    by (simp add: dg(1) bytes_crate.wire_eq [OF assms(1)] len)
  have "sent_as rq m (rq + of_nat i) (drop 12 (take MAX_UDP_RECV dg))"
    unfolding cut sent_as_def using dg(2) len by (auto simp: bytes_crate.wire_eq [OF assms(1)])
  moreover have "rtp_header_parse B (take MAX_UDP_RECV dg) = Ok (new_ts s (rq + of_nat i) ts, 12)"
    unfolding cut by (rule bytes_crate.wire_parse [OF assms(1)])
  ultimately show ?thesis by (auto simp: decodes_to_def new_ts_def)
qed

definition net_init :: "SenderState \<Rightarrow> ReceiverState \<Rightarrow> Network" where
  "net_init tx r = \<lparr>net_sender = tx, net_receiver = r, net_media = []\<rparr>"

text \<open>What holds throughout: the media log is what the sender has taken, and the receiver has only packets of it.\<close>

definition net_ok :: "bytes_api \<Rightarrow> (nat \<Rightarrow> bool) \<Rightarrow> IpAddr \<Rightarrow> SenderState \<Rightarrow> u16 \<Rightarrow> Network \<Rightarrow> bool" where
  "net_ok B send_ok ip st0 rq s \<longleftrightarrow>
     (\<exists>evs. net_sender s = sender_run B send_ok st0 evs \<and> net_media s = media_of evs)
     \<and> pinned_source_ip (net_receiver s) = Some ip \<and> receives_only (sent_as rq (net_media s)) (net_receiver s)"

lemma net_ok_step:
  assumes B: "bytes_crate B" and st0: "st0 = sender_init config remote rs rq name epoch wall"
    and "net_step B send_ok ip s s'" "net_ok B send_ok ip st0 rq s"
  shows "net_ok B send_ok ip st0 rq s'"
  using assms(3)
proof cases
  case (at_sender ev)
  obtain evs where evs: "net_sender s = sender_run B send_ok st0 evs" "net_media s = media_of evs"
    using assms(4) by (auto simp: net_ok_def)
  have "media_of (evs @ [ev]) = net_media s @ taken_media ev" by (cases ev) (simp_all add: evs(2))
  moreover have "receives_only (sent_as rq (net_media s @ taken_media ev)) (net_receiver s)"
    using assms(4) by (auto simp: net_ok_def intro: receives_only_mono sent_as_mono)
  ultimately show ?thesis
    using assms(4) evs at_sender by (auto simp: net_ok_def sender_run_snoc intro!: exI [of _ "evs @ [ev]"])
next
  case (at_receiver ev)
  obtain evs where evs: "net_sender s = sender_run B send_ok st0 evs" "net_media s = media_of evs"
    using assms(4) by (auto simp: net_ok_def)
  have pin: "pinned_source_ip (net_receiver s) = Some ip" and ok: "receives_only (sent_as rq (net_media s)) (net_receiver s)"
    using assms(4) by (simp_all add: net_ok_def)
  have sent: "decodes_to B (sent_as rq (net_media s)) dg" if "dg \<in> snd ` set (rtp_sent (net_sender s))" for dg
  proof -
    obtain d where "d \<in> set (rtp_sent (net_sender s))" "dg = snd d" using \<open>dg \<in> snd ` set (rtp_sent (net_sender s))\<close> by blast
    with sent_carries [OF B evs(1) [unfolded st0]] obtain i where "carries B rq (net_media s) i dg" unfolding evs(2) by blast
    then show ?thesis by (rule carries_decodes [OF B])
  qed
  have "receives_only (sent_as rq (net_media s)) (receiver_step B (net_receiver s) ev)"
  proof (cases "own_event ip ev")
    case None
    with own_event_step [OF pin, of B ev] ok show ?thesis by simp
  next
    case (Some ev')
    with at_receiver(2) sent have "receives_only (sent_as rq (net_media s)) (receiver_step B (net_receiver s) ev')"
      by (intro receives_only_step [OF ok]) (simp add: genuine_def)
    with own_event_step [OF pin, of B ev] Some show ?thesis by simp
  qed
  with assms(4) at_receiver(1) show ?thesis by (simp add: net_ok_def receiver_step_frame)
qed

interpretation net: step_invariant
  "\<lambda>s s'. bytes_crate B \<and> net_step B send_ok ip s s'"
  "net_ok B send_ok ip (sender_init config remote rs rq name epoch wall) rq"
  for B send_ok ip config remote rs rq name epoch wall
  by unfold_locales (auto intro: net_ok_step)

text \<open>
  C2: Integrity from end to end. A sender and a receiver that is configured with the sender's address
  run from their start over a network that may lose, repeat, delay and reorder what the sender sends,
  and in which any other host may send any bytes to the receiver's two ports and anyone may send
  anything to the sender's control port. At any time, whatever lies where in the number space and
  also when the application does not keep up, every packet handed over is one the sender has taken
  from its application, under the number it was sent with, cut to the 2036 bytes a datagram can carry.
\<close>

theorem network_integrity:
  assumes "bytes_crate B" and "remote_addr rconfig = Some a"
    and "(net_step B send_ok (sock_ip a))\<^sup>*\<^sup>*
      (net_init (sender_init config remote rs rq name epoch wall) (receiver_init rconfig rrs rname t0 t1)) s"
    and "d \<in> set (delivered (net_receiver s))"
  shows "\<exists>i < length (net_media s). dl_rtp_seq d = rq + of_nat i \<and> dl_data d = take 2036 (net_media s ! i)"
proof -
  let ?st0 = "sender_init config remote rs rq name epoch wall"
  have init: "net_ok B send_ok (sock_ip a) ?st0 rq (net_init ?st0 (receiver_init rconfig rrs rname t0 t1))"
    using assms(2) by (auto simp: net_ok_def net_init_def receives_only_def receiver_init_def Let_def holds_only_new sender_run_def
        intro!: exI [of _ "[]"])
  have "(\<lambda>s s'. bytes_crate B \<and> net_step B send_ok (sock_ip a) s s')\<^sup>*\<^sup>*
      (net_init ?st0 (receiver_init rconfig rrs rname t0 t1)) s"
    using assms(3) by (rule rtranclp_mono [THEN predicate2D, rotated]) (use assms(1) in auto)
  from net.inv_run [OF this init] assms(4) show ?thesis
    by (auto simp: net_ok_def receives_only_def sent_as_def)
qed

text \<open>One packet that arrives from the configured host is handed over after the hold time.\<close>

lemma one_packet_handed_over:
  fixes ts :: u32
  defines "c \<equiv> config_default\<lparr>remote_addr := Some (SocketV4 1 5000)\<rparr>"
  shows "map dl_data (delivered (receiver_run be_bytes_api (receiver_init c 3 [] 0 0)
    [RtpIn (wire be_bytes_api 2 65535 ts [1]) (SocketV4 1 5000) 7 7 [] 10, DrainTurn (\<lambda>_. True) (10 + buffer_size c) 0 0])) = [[1]]"
proof -
  let ?r0 = "receiver_init c 3 [] 0 0" and ?ev1 = "RtpIn (wire be_bytes_api 2 65535 ts [1]) (SocketV4 1 5000) 7 7 [] 10"
  let ?ev2 = "DrainTurn (\<lambda>_. True) (10 + buffer_size c) 0 0"
  let ?tevs = "[(?ev1, [0])] @ [(?ev2, [])]"
  have "brings be_bytes_api (SocketV4 1 5000) 65535 [[1]] (?ev1, [0])"
    using carriesI [of 0 "[[1]]" be_bytes_api 65535 2 ts] by simp
  then have arrivals: "\<forall>x \<in> set ?tevs. brings be_bytes_api (SocketV4 1 5000) 65535 [[1]] x" "starts_at 0 ?tevs"
    "in_window be_bytes_api ?r0 0 ?tevs"
    by (simp_all add: starts_at_def in_window_def release_point_def less_Suc_eq del: brings.simps(1))
  have time: "in_time (buffer_size c) 0 (length [[1 :: u8]]) ?tevs" "0 \<in> set (concat (map snd ?tevs))"
    "\<forall>x \<in> set ?tevs. snd x \<noteq> [] \<longrightarrow> arrival_clock (fst x) + buffer_size c \<le> 10 + buffer_size c"
    by (auto simp: in_time_def timely_def intro!: exI [of _ 0])
  have start: "hears (SocketV4 1 5000) ?r0" "reorder ?r0 = reorder_new (buffer_size c)" "delivered ?r0 = []"
    by (simp_all add: hears_def receiver_init_def Let_def c_def)
  have other: "\<forall>pl \<in> set [[1 :: u8]]. 12 + length pl \<le> MAX_UDP_RECV" "\<forall>ev \<in> set (map fst ?tevs). channel_keeps_up ev" by simp_all
  from stream_complete [OF be.bytes_crate_axioms other(1) start refl time(2) arrivals time(1,3) other(2) refl]
  have "map dl_data (delivered (receiver_run be_bytes_api ?r0 (map fst ?tevs))) = [[1]]"
    by (auto simp: as_item_def simp del: receiver_run_simps)
  then show ?thesis by simp
qed

text \<open>A run in which a packet is sent, a stranger's datagram comes first, and the packet is handed over.\<close>

theorem network_integrity_witness:
  "\<exists>s d. (net_step be_bytes_api (\<lambda>_. True) (IpV4 1))\<^sup>*\<^sup>*
      (net_init (sender_init config_default (SocketV4 2 5000) 3 65535 [] 0 0)
        (receiver_init (config_default\<lparr>remote_addr := Some (SocketV4 1 5000)\<rparr>) 3 [] 0 0)) s
    \<and> d \<in> set (delivered (net_receiver s))
    \<and> (\<exists>i < length (net_media s). dl_rtp_seq d = 65535 + of_nat i \<and> dl_data d = take 2036 (net_media s ! i))"
proof -
  let ?step = "net_step be_bytes_api (\<lambda>_. True) (IpV4 1)" and ?c = "config_default\<lparr>remote_addr := Some (SocketV4 1 5000)\<rparr>"
  let ?tx = "sender_init config_default (SocketV4 2 5000) 3 65535 [] 0 0" and ?r0 = "receiver_init ?c 3 [] 0 0"
  let ?after = "sender_step be_bytes_api (\<lambda>_. True) ?tx (Media [1] 0)"
  obtain ts where sent: "rtp_sent ?after = [(SocketV4 2 5000, wire be_bytes_api 2 65535 ts [1])]"
    by (simp add: sender_on_media_sends [OF be.bytes_crate_axioms] sender_init_def Let_def)
  let ?ev0 = "RtpIn [0, 1, 2] (SocketV4 6 6) 6 6 [] 6" and ?ev1 = "RtpIn (wire be_bytes_api 2 65535 ts [1]) (SocketV4 1 5000) 7 7 [] 10"
  let ?ev2 = "DrainTurn (\<lambda>_. True) (10 + buffer_size ?c) 0 0"
  let ?s1 = "(net_init ?tx ?r0)\<lparr>net_sender := ?after, net_media := [[1]]\<rparr>"
  let ?run = "\<lambda>evs. ?s1\<lparr>net_receiver := receiver_run be_bytes_api ?r0 evs\<rparr>"
  have "?step (net_init ?tx ?r0) ?s1"
    using at_sender [of be_bytes_api "\<lambda>_. True" "IpV4 1" "net_init ?tx ?r0" "Media [1] 0"] by (simp add: net_init_def)
  moreover have "?step ?s1 (?run [?ev0])"
    using at_receiver [of "IpV4 1" ?s1 ?ev0 be_bytes_api "\<lambda>_. True"] by (simp add: genuine_def net_init_def)
  moreover have "?step (?run [?ev0]) (?run [?ev0, ?ev1])"
    using at_receiver [of "IpV4 1" "?run [?ev0]" ?ev1 be_bytes_api "\<lambda>_. True"] sent by (simp add: genuine_def net_init_def)
  moreover have "?step (?run [?ev0, ?ev1]) (?run [?ev0, ?ev1, ?ev2])"
    using at_receiver [of "IpV4 1" "?run [?ev0, ?ev1]" ?ev2 be_bytes_api "\<lambda>_. True"] by (simp add: genuine_def net_init_def)
  ultimately have steps: "?step\<^sup>*\<^sup>* (net_init ?tx ?r0) (?run [?ev0, ?ev1, ?ev2])"
    by (meson converse_rtranclp_into_rtranclp rtranclp.rtrancl_refl)
  have "receiver_step be_bytes_api ?r0 ?ev0 = ?r0"
    using own_event_step [of ?r0 "IpV4 1" be_bytes_api ?ev0] by (simp add: receiver_init_def Let_def)
  moreover have "map dl_data (delivered (receiver_run be_bytes_api ?r0 [?ev1, ?ev2])) = [[1]]" by (rule one_packet_handed_over)
  ultimately obtain d where d: "d \<in> set (delivered (net_receiver (?run [?ev0, ?ev1, ?ev2])))" by force
  have "remote_addr ?c = Some (SocketV4 1 5000)" by simp
  from network_integrity [OF be.bytes_crate_axioms this, unfolded sock_ip.simps, OF steps d] steps d show ?thesis by blast
qed

end
