(* ===== verification/Rist_Accounting.thy ===== *)
theory Rist_Accounting
  imports Rist_Receiver
begin

text \<open>
  The receiver's counters as a ledger: every media packet that was read is accounted for as a
  duplicate, as dropped, as delivered to the application or as still in the buffer.
\<close>

section \<open>Packets in the buffer\<close>

fun filled_in :: "queue \<Rightarrow> nat" where
  "filled_in None = 0"
| "filled_in (Some (b, es)) = count_filled es"

lemma count_filled_simps [simp]:
  "count_filled [] = 0" "count_filled (e # es) = of_bool (is_filled e) + count_filled es"
  "count_filled (xs @ ys) = count_filled xs + count_filled ys" "count_filled (replicate n (Gap t)) = 0"
  by (simp_all add: count_filled_def)

lemma count_filled_fill:
  "k < length es \<Longrightarrow> \<not> is_filled (es ! k) \<Longrightarrow> count_filled (es[k := Filled d t]) = Suc (count_filled es)"
proof (induction es arbitrary: k)
  case (Cons e es)
  then show ?case by (cases k) simp_all
qed simp

text \<open>An accepted packet is one more in the buffer; a stale or a repeated one changes nothing.\<close>

lemma q_insert_filled:
  assumes "op_fits cap q (Ins sq d now)" "cap \<le> 32768" "q_insert cap q sq d now = (q', outcome)"
  shows "filled_in q' = filled_in q + of_bool (\<not> stale outcome \<and> \<not> duplicate outcome)
    \<and> \<not> (stale outcome \<and> duplicate outcome)"
proof (cases q)
  case None
  with assms show ?thesis by (auto simp: outcome_default_def)
next
  case (Some be)
  then obtain b es where q: "q = Some (b, es)" by (cases be) auto
  with assms show ?thesis
    by (auto simp: outcome_default_def Let_def count_filled_fill split: if_splits)
qed

lemma insert_batch_filled:
  assumes "reorder_inv g" "run_fits g (map (\<lambda>p. Ins (p_seq p) (p_payload p) now) batch)"
    "insert_batch g now batch = (g', outs)"
  shows "reorder_inv g' \<and> length outs = length batch
    \<and> filled_in (queue_of g') = filled_in (queue_of g) + length (filter (\<lambda>oc. \<not> stale oc \<and> \<not> duplicate oc) outs)
    \<and> (\<forall>oc \<in> set outs. \<not> (stale oc \<and> duplicate oc))"
  using assms
proof (induction batch arbitrary: g outs)
  case (Cons p batch)
  obtain g1 oc where i: "reorder_insert g (p_seq p) (p_payload p) now = (g1, oc)" by force
  obtain outs1 where rest: "insert_batch g1 now batch = (g', outs1)" "outs = oc # outs1"
    using Cons.prems(3) i by (auto split: prod.splits)
  have fit: "op_fits (capacity g) (queue_of g) (Ins (p_seq p) (p_payload p) now)"
    "run_fits g1 (map (\<lambda>p. Ins (p_seq p) (p_payload p) now) batch)"
    using Cons.prems(2) i by simp_all
  note law = rb.ins_law [OF Cons.prems(1) fit(1) i]
  have "filled_in (queue_of g1) = filled_in (queue_of g) + of_bool (\<not> stale oc \<and> \<not> duplicate oc)
      \<and> \<not> (stale oc \<and> duplicate oc)"
    using law by (intro q_insert_filled [OF fit(1) rb.cap_bound [OF Cons.prems(1)]]) simp
  with Cons.IH [OF _ fit(2) rest(1)] law rest(2) show ?case by auto
qed simp

section \<open>The ledger\<close>

text \<open>What has become of the packets read so far, in the arithmetic of the 64-bit counters.\<close>

definition accounted :: "ReceiverState \<Rightarrow> u64" where
  "accounted st = st_duplicates (rx_stats st) + st_reorder_drops (rx_stats st)
     + of_nat (length (delivered st)) + of_nat (filled_in (queue_of (reorder st)))"

lemma account_counts:
  "st_packets_received (rx_stats (foldl (account_packet now) st xs)) = st_packets_received (rx_stats st) + of_nat (length xs)
   \<and> st_duplicates (rx_stats (foldl (account_packet now) st xs))
      = st_duplicates (rx_stats st) + of_nat (length (filter (\<lambda>(p, oc). duplicate oc) xs))
   \<and> st_reorder_drops (rx_stats (foldl (account_packet now) st xs))
      = st_reorder_drops (rx_stats st) + of_nat (length (filter (\<lambda>(p, oc). stale oc) xs))"
proof (induction xs arbitrary: st)
  case (Cons x xs)
  obtain p oc where x: "x = (p, oc)" by (cases x)
  show ?case using Cons.IH [of "account_packet now st x"]
    by (simp add: account_packet_def x Let_def)
qed simp

lemma filter_zip_snd:
  "length xs = length ys \<Longrightarrow> length (filter (\<lambda>(p, oc). P oc) (zip xs ys)) = length (filter P ys)"
  by (induction xs ys rule: list_induct2) auto

lemma three_way:
  "\<forall>oc \<in> set outs. \<not> (stale oc \<and> duplicate oc) \<Longrightarrow>
    length outs = length (filter duplicate outs) + length (filter stale outs)
      + length (filter (\<lambda>oc. \<not> stale oc \<and> \<not> duplicate oc) outs)"
  by (induction outs) auto

lemma accounted_batch:
  assumes "reorder_inv (reorder st)" "run_fits (reorder st) (map (\<lambda>p. Ins (p_seq p) (p_payload p) now) batch)"
  shows "st_packets_received (rx_stats (receiver_on_batch st batch now)) - accounted (receiver_on_batch st batch now)
    = st_packets_received (rx_stats st) - accounted st"
proof (cases "batch = []")
  case True
  then show ?thesis by (simp add: receiver_on_batch_def)
next
  case False
  obtain g outs where i: "insert_batch (reorder st) now batch = (g, outs)" by force
  note f = insert_batch_filled [OF assms i]
  let ?st1 = "st\<lparr>rtp_peer_live := Some now, reorder := g\<rparr>"
  let ?st2 = "foldl (account_packet now) ?st1 (zip batch outs)"
  have eq: "receiver_on_batch st batch now
      = ?st2\<lparr>rx_stats := (rx_stats ?st2)\<lparr>st_jitter_us := jitter_micros (rx_rtcp_state ?st2)\<rparr>\<rparr>"
    using False by (simp add: receiver_on_batch_def i Let_def)
  have len: "length (zip batch outs) = length outs" using f by simp
  define D S A where "D = length (filter duplicate outs)" and "S = length (filter stale outs)"
    and "A = length (filter (\<lambda>oc. \<not> stale oc \<and> \<not> duplicate oc) outs)"
  have sum: "length outs = D + S + A" using three_way [of outs] f by (simp add: D_def S_def A_def)
  have filled: "filled_in (queue_of g) = filled_in (queue_of (reorder st)) + A" using f by (simp add: A_def)
  have st2: "st_packets_received (rx_stats ?st2) = st_packets_received (rx_stats st) + of_nat (D + S + A)"
    "st_duplicates (rx_stats ?st2) = st_duplicates (rx_stats st) + of_nat D"
    "st_reorder_drops (rx_stats ?st2) = st_reorder_drops (rx_stats st) + of_nat S"
    using account_counts [of now ?st1 "zip batch outs"] filter_zip_snd [of batch outs duplicate]
      filter_zip_snd [of batch outs stale] len f sum by (simp_all add: D_def S_def)
  show ?thesis by (simp add: eq accounted_def account_frame filled) (simp add: st2)
qed

text \<open>A delivery moves packets out of the buffer, into the channel or among the drops.\<close>

lemma deliver_counts:
  "st_reorder_drops (rx_stats (fst (foldl (deliver_item ok) (st, k) items)))
     + of_nat (length (delivered (fst (foldl (deliver_item ok) (st, k) items))))
   = st_reorder_drops (rx_stats st) + of_nat (length (delivered st)) + of_nat (length (filter (\<lambda>x. x \<noteq> Lost) items))
   \<and> st_packets_received (rx_stats (fst (foldl (deliver_item ok) (st, k) items))) = st_packets_received (rx_stats st)
   \<and> st_duplicates (rx_stats (fst (foldl (deliver_item ok) (st, k) items))) = st_duplicates (rx_stats st)"
proof (induction items arbitrary: st k)
  case (Cons x items)
  obtain st1 k1 where d: "deliver_item ok (st, k) x = (st1, k1)" by force
  from Cons.IH [of st1 k1] d show ?case
    by (cases x) (auto simp: deliver_item_def split: if_splits)
qed simp

lemma q_items_filled: "length (filter (\<lambda>x. x \<noteq> Lost) (q_items b es)) = count_filled es"
proof (induction es arbitrary: b)
  case (Cons e es)
  then show ?case by (cases e) simp_all
qed simp

lemma q_drain_filled:
  "q_drain hold q now = (q', items) \<Longrightarrow> filled_in q = filled_in q' + length (filter (\<lambda>x. x \<noteq> Lost) items)"
proof (cases q)
  case (Some be)
  assume d: "q_drain hold q now = (q', items)"
  obtain b es where q: "q = Some (b, es)" using Some by (cases be) auto
  have "count_filled es = count_filled (takeWhile (ripe hold now) es) + count_filled (dropWhile (ripe hold now) es)"
    by (metis count_filled_simps(3) takeWhile_dropWhile_id)
  with d q show ?thesis by (auto simp: Let_def q_items_filled dropWhile_eq_drop)
qed simp

lemma accounted_drain:
  assumes "reorder_inv (reorder st)"
  shows "st_packets_received (rx_stats (fst (drain_iteration ok st now c now2))) - accounted (fst (drain_iteration ok st now c now2))
    = st_packets_received (rx_stats st) - accounted st"
proof -
  obtain g items where d: "drain_ready (reorder st) now = (g, items)" by force
  have q: "filled_in (queue_of (reorder st)) = filled_in (queue_of g) + length (filter (\<lambda>x. x \<noteq> Lost) items)"
    using rb.drain_law [OF assms d] by (metis q_drain_filled)
  have it: "fst (drain_iteration ok st now c now2) = fst (foldl (deliver_item ok) (st\<lparr>reorder := g\<rparr>, 0) items)"
    by (simp add: drain_iteration_def d Let_def)
  show ?thesis
    using deliver_counts [of ok "st\<lparr>reorder := g\<rparr>" 0 items] q unfolding it
    by (simp add: accounted_def deliver_items_frame algebra_simps)
qed

section \<open>Runs\<close>

text \<open>RTCP and the timers touch neither the ledger nor the buffer.\<close>

lemma control_counts:
  "st_packets_received (rx_stats (receiver_on_rtcp B clock st dg from now)) = st_packets_received (rx_stats st)
   \<and> accounted (receiver_on_rtcp B clock st dg from now) = accounted st"
  "st_packets_received (rx_stats (receiver_on_pump B sent st now)) = st_packets_received (rx_stats st)
   \<and> accounted (receiver_on_pump B sent st now) = accounted st"
  "st_packets_received (rx_stats (receiver_on_tick B st now)) = st_packets_received (rx_stats st)
   \<and> accounted (receiver_on_tick B st now) = accounted st"
proof -
  have pkt: "st_packets_received (rx_stats (receiver_on_packet B a t c st p)) = st_packets_received (rx_stats st)
      \<and> accounted (receiver_on_packet B a t c st p) = accounted st" for a t c st p
    by (simp add: receiver_on_packet_def accounted_def Let_def split: RtcpPacket.splits RistApp.splits option.splits)
  have pkts: "st_packets_received (rx_stats (receiver_on_packets B a t c i st ps)) = st_packets_received (rx_stats st)
      \<and> accounted (receiver_on_packets B a t c i st ps) = accounted st" for a t c i st ps
    by (induction ps arbitrary: i st) (simp_all add: pkt)
  have "accounted (st\<lparr>sender_rtcp_addr := x, rx_rtcp_peer_live := y\<rparr>) = accounted st"
    "accounted (st\<lparr>rx_rtcp_peer_live := y\<rparr>) = accounted st" for x y
    by (simp_all add: accounted_def)
  then show "st_packets_received (rx_stats (receiver_on_rtcp B clock st dg from now)) = st_packets_received (rx_stats st)
   \<and> accounted (receiver_on_rtcp B clock st dg from now) = accounted st"
    by (simp add: receiver_on_rtcp_def Let_def pkts split: res.splits)
  show "st_packets_received (rx_stats (receiver_on_pump B sent st now)) = st_packets_received (rx_stats st)
   \<and> accounted (receiver_on_pump B sent st now) = accounted st"
    by (simp add: receiver_on_pump_def accounted_def Let_def split_beta split: option.splits)
  show "st_packets_received (rx_stats (receiver_on_tick B st now)) = st_packets_received (rx_stats st)
   \<and> accounted (receiver_on_tick B st now) = accounted st"
    by (simp add: receiver_on_tick_def accounted_def Let_def split_beta split: option.splits)
qed

lemma run_keeps_inv:
  assumes "reorder_inv g" "run_fits g ops"
  shows "reorder_inv (fst (reorder_run g ops))"
  using assms
proof (induction ops arbitrary: g)
  case (Cons x ops)
  have "reorder_inv (fst (reorder_step g x))"
  proof (cases x)
    case (Ins q d t)
    obtain g1 oc where i: "reorder_insert g q d t = (g1, oc)" by force
    with Ins Cons.prems rb.ins_law [OF Cons.prems(1) _ i] show ?thesis by simp
  next
    case (Drain t)
    obtain g1 items where "drain_ready g t = (g1, items)" by force
    with Drain rb.drain_law [OF Cons.prems(1) this] show ?thesis by simp
  qed
  with Cons show ?case by (simp add: split_beta Let_def)
qed simp

lemma accounted_step:
  assumes "reorder_inv (reorder st)" "run_fits (reorder st) (event_ops B st ev)"
  shows "st_packets_received (rx_stats (receiver_step B st ev)) - accounted (receiver_step B st ev)
    = st_packets_received (rx_stats st) - accounted st"
proof (cases ev)
  case (RtpIn dg a t1 t2 w now)
  show ?thesis
  proof (cases "source_allowed a (pinned_source_ip st) (sender_rtp_addr st) (rtp_peer_live st) t1")
    case False
    with RtpIn show ?thesis by (simp add: receiver_on_rtp_def)
  next
    case True
    obtain st1 where st1: "receiver_on_rtp B st dg a t1 t2 w now = receiver_on_batch st1 (rtp_batch B st dg a t2 w) now"
      and "reorder st1 = reorder st" "rx_stats st1 = rx_stats st" "delivered st1 = delivered st"
      using receiver_on_rtp_as_batch [OF True] by metis
    moreover from this have "accounted st1 = accounted st" by (simp add: accounted_def)
    ultimately show ?thesis
      using st1 accounted_batch [of st1 now "rtp_batch B st dg a t2 w"] assms True RtpIn by simp
  qed
next
  case (DrainTurn ok now c now2)
  with accounted_drain [OF assms(1)] show ?thesis by simp
qed (simp_all add: control_counts)

text \<open>
  C9: No packet disappears. Over any run of a receiver in which no packet lies outside the
  reorder window, the counter of packets received equals the duplicates plus the drops (stale
  arrivals and a full application channel) plus the packets delivered plus those still in the
  buffer, in the arithmetic of the 64-bit counters.
\<close>

theorem receiver_accounts_for_every_packet:
  assumes "st = receiver_run B (receiver_init config rs name t0 t1) evs"
    and "run_fits (reorder_new (buffer_size config)) (rx_ops B (receiver_init config rs name t0 t1) evs)"
  shows "st_packets_received (rx_stats st) = st_duplicates (rx_stats st) + st_reorder_drops (rx_stats st)
    + of_nat (length (delivered st)) + of_nat (filled_in (queue_of (reorder st)))"
proof -
  have run: "st_packets_received (rx_stats (receiver_run B r evs)) - accounted (receiver_run B r evs)
      = st_packets_received (rx_stats r) - accounted r"
    if "reorder_inv (reorder r)" "run_fits (reorder r) (rx_ops B r evs)" for r
    using that
  proof (induction evs arbitrary: r)
    case (Cons ev evs)
    have e: "run_fits (reorder r) (event_ops B r ev)"
      "run_fits (fst (reorder_run (reorder r) (event_ops B r ev))) (rx_ops B (receiver_step B r ev) evs)"
      using Cons.prems(2) by (simp_all add: run_fits_append)
    have n: "fst (reorder_run (reorder r) (event_ops B r ev)) = reorder (receiver_step B r ev)"
      using event_ops_run [of r B ev] by (metis fst_conv)
    have "reorder_inv (reorder (receiver_step B r ev))"
      using run_keeps_inv [OF Cons.prems(1) e(1)] n by simp
    with Cons.IH [of "receiver_step B r ev"] e(2) n accounted_step [OF Cons.prems(1) e(1)] show ?case by simp
  qed simp
  have "reorder (receiver_init config rs name t0 t1) = reorder_new (buffer_size config)"
    "st_packets_received (rx_stats (receiver_init config rs name t0 t1)) - accounted (receiver_init config rs name t0 t1) = 0"
    by (simp_all add: receiver_init_def Let_def stats_new_def accounted_def reorder_new_inv)
  with run [of "receiver_init config rs name t0 t1"] assms reorder_new_inv(1) show ?thesis
    by (simp add: accounted_def)
qed

theorem receiver_accounts_for_every_packet_witness:
  "st_packets_received (rx_stats (receiver_run be_bytes_api (receiver_init config_default 3 [] 0 0) example_rx_events))
   = st_duplicates (rx_stats (receiver_run be_bytes_api (receiver_init config_default 3 [] 0 0) example_rx_events))
     + st_reorder_drops (rx_stats (receiver_run be_bytes_api (receiver_init config_default 3 [] 0 0) example_rx_events))
     + of_nat (length (delivered (receiver_run be_bytes_api (receiver_init config_default 3 [] 0 0) example_rx_events)))
     + of_nat (filled_in (queue_of (reorder (receiver_run be_bytes_api (receiver_init config_default 3 [] 0 0) example_rx_events))))"
proof -
  have "run_fits (reorder_new (buffer_size config_default))
      (rx_ops be_bytes_api (receiver_init config_default 3 [] 0 0) example_rx_events)"
    unfolding example_rx_ops by (simp add: reorder_new_inv)
  from receiver_accounts_for_every_packet [OF refl this] show ?thesis .
qed

end
