(* ===== verification/Rist_Session.thy ===== *)
theory Rist_Session
  imports Rist_Accounting
begin

text \<open>
  Guarantees of a receiving session as a whole: a live source is not displaced or disturbed by
  other hosts even when none is configured, and the delivery thread wakes on time. The last section
  reads a run of the receiver as a run of its NACK scheduler.
\<close>

section \<open>A live session\<close>

lemma rtcp_addr_same_ip [simp]: "sock_ip (rtcp_addr_for a) = sock_ip a"
  by (cases a) (simp_all add: rtcp_addr_for_def)

text \<open>When a datagram is checked against the hold-down.\<close>

fun checked_at :: "ReceiverEvent \<Rightarrow> instant" where
  "checked_at (RtpIn dg from arrived_at parsed_at waiting now) = arrived_at"
| "checked_at (RtcpIn dg from now clock) = now"
| "checked_at _ = 0"

text \<open>
  The session of \<open>ip\<close> is alive: whenever a datagram of another host arrives, media from the session
  was taken in less than 12 seconds before.
\<close>

fun session_alive :: "bytes_api \<Rightarrow> IpAddr \<Rightarrow> ReceiverState \<Rightarrow> ReceiverEvent list \<Rightarrow> bool" where
  "session_alive B ip st [] \<longleftrightarrow> True"
| "session_alive B ip st (ev # evs) \<longleftrightarrow>
     (own_event ip ev = None \<longrightarrow> peer_is_protected (rtp_peer_live st) (checked_at ev))
     \<and> session_alive B ip (receiver_step B st ev) evs"

definition session_of :: "IpAddr \<Rightarrow> ReceiverState \<Rightarrow> bool" where
  "session_of ip st \<longleftrightarrow> (\<exists>a c. sender_rtp_addr st = Some a \<and> sock_ip a = ip
     \<and> sender_rtcp_addr st = Some c \<and> sock_ip c = ip)"

lemma protected_max:
  "peer_is_protected b now \<Longrightarrow> peer_is_protected (option_max a b) now"
  by (cases a; cases b) (auto simp: peer_is_protected_def max_def)

text \<open>The handlers keep the addresses, or set them to that of an admitted datagram.\<close>

lemma receiver_on_rtp_addrs:
  "source_allowed a (pinned_source_ip st) (sender_rtp_addr st) (rtp_peer_live st) t1 \<Longrightarrow>
   sender_rtp_addr (receiver_on_rtp B st dg a t1 t2 w now) = Some a
   \<and> (sender_rtcp_addr (receiver_on_rtp B st dg a t1 t2 w now)
      = (if sender_rtp_addr st = Some a then sender_rtcp_addr st else Some (rtcp_addr_for a)))"
  by (simp add: receiver_on_rtp_def Let_def receiver_on_batch_frame split: option.splits)

lemma receiver_on_rtcp_addrs:
  "sender_rtcp_addr (receiver_on_rtcp B clock st dg a now) \<in> {sender_rtcp_addr st, Some a}"
  by (auto simp: receiver_on_rtcp_def Let_def receiver_on_packets_frame split: res.splits)

lemma own_event_addrs:
  assumes "session_of ip st" "own_event ip ev \<noteq> None"
  shows "session_of ip (receiver_step B st ev)"
proof (cases ev)
  case (RtpIn dg a t1 t2 w now)
  with assms(2) have ip: "sock_ip a = ip" by (auto split: if_splits)
  show ?thesis
  proof (cases "source_allowed a (pinned_source_ip st) (sender_rtp_addr st) (rtp_peer_live st) t1")
    case True
    from receiver_on_rtp_addrs [OF True, of B dg t2 w now] ip assms(1) RtpIn show ?thesis
      by (auto simp: session_of_def)
  next
    case False
    with RtpIn assms(1) show ?thesis by (simp add: receiver_on_rtp_def)
  qed
next
  case (RtcpIn dg a now clock)
  with assms(2) have "sock_ip a = ip" by (auto split: if_splits)
  with RtcpIn assms(1) receiver_on_rtcp_addrs [of B clock st dg a now] show ?thesis
    by (auto simp: session_of_def receiver_on_rtcp_frame)
next
  case (DrainTurn ok now c now2)
  have "sender_rtp_addr (fst (foldl (deliver_item ok) (r, k) items)) = sender_rtp_addr r
      \<and> sender_rtcp_addr (fst (foldl (deliver_item ok) (r, k) items)) = sender_rtcp_addr r" for r k items
    by (induction items arbitrary: r k) (simp_all add: deliver_item_def split: DrainItem.splits)
  with DrainTurn assms(1) show ?thesis
    by (simp add: session_of_def drain_iteration_def Let_def split_beta)
qed (use assms(1) in \<open>auto simp: session_of_def receiver_on_pump_def receiver_on_tick_def Let_def split_beta
      split: option.splits\<close>)

lemma foreign_event_ignored:
  assumes "session_of ip st" "own_event ip ev = None" "peer_is_protected (rtp_peer_live st) (checked_at ev)"
  shows "receiver_step B st ev = st"
  using assms protected_max [of "rtp_peer_live st" "checked_at ev" "rx_rtcp_peer_live st"]
  by (cases ev) (auto simp: session_of_def receiver_on_rtp_def receiver_on_rtcp_def source_allowed_iff Let_def
      split: if_splits)

lemma own_event_same:
  assumes "own_event ip ev = Some ev'"
  shows "receiver_step B st ev = receiver_step B st ev'"
proof (cases ev)
  case (RtpIn dg a t1 t2 w now)
  with assms have ev': "ev' = RtpIn dg a t1 t2 (filter (\<lambda>(_, src, _). src = a) (take (MAX_BATCH - 1) w)) now"
    by (auto split: if_splits)
  show ?thesis unfolding RtpIn ev' receiver_step.simps
    by (rule receiver_on_rtp_batch) (rule rtp_batch_own [symmetric])
qed (use assms in \<open>auto split: if_splits\<close>)

text \<open>
  C10: A live session is undisturbed. Once a receiver has taken a host as its source, and as long
  as no datagram of another host arrives 12 seconds or more after the last media of the session,
  a run of the receiver ends in exactly the state of the run without the other hosts' datagrams,
  also when no sender is configured; and media and control peer keep the host's address.
\<close>

theorem live_session_undisturbed:
  assumes "session_of ip st" "session_alive B ip st evs"
  shows "receiver_run B st evs = receiver_run B st (List.map_filter (own_event ip) evs)
    \<and> session_of ip (receiver_run B st evs)"
  using assms
proof (induction evs arbitrary: st)
  case Nil
  then show ?case by (simp add: List.map_filter_def)
next
  case (Cons ev evs)
  show ?case
  proof (cases "own_event ip ev")
    case None
    then have "receiver_step B st ev = st" using Cons.prems by (intro foreign_event_ignored) auto
    with Cons.IH [OF Cons.prems(1)] Cons.prems(2) None show ?thesis by (auto simp: List.map_filter_simps)
  next
    case (Some ev')
    then have "session_of ip (receiver_step B st ev)" using own_event_addrs [OF Cons.prems(1)] by simp
    with Cons.IH [of "receiver_step B st ev"] Cons.prems(2) Some own_event_same [OF Some, of B st] show ?thesis
      by (auto simp: List.map_filter_simps)
  qed
qed

theorem live_session_undisturbed_witness:
  "receiver_run be_bytes_api ((receiver_init config_default 3 [] 0 0)\<lparr>sender_rtp_addr := Some (SocketV4 1 5000),
       sender_rtcp_addr := Some (SocketV4 1 5001), rtp_peer_live := Some 10\<rparr>)
     [RtpIn [0x80, 33, 0, 1] (SocketV4 2 5000) 5000 5000 [] 5000, RxTick 9000]
   = receiver_run be_bytes_api ((receiver_init config_default 3 [] 0 0)\<lparr>sender_rtp_addr := Some (SocketV4 1 5000),
       sender_rtcp_addr := Some (SocketV4 1 5001), rtp_peer_live := Some 10\<rparr>) [RxTick 9000]"
proof -
  let ?st = "(receiver_init config_default 3 [] 0 0)\<lparr>sender_rtp_addr := Some (SocketV4 1 5000),
       sender_rtcp_addr := Some (SocketV4 1 5001), rtp_peer_live := Some 10\<rparr>"
  let ?evs = "[RtpIn [0x80, 33, 0, 1] (SocketV4 2 5000) 5000 5000 [] 5000, RxTick 9000]"
  have "session_of (IpV4 1) ?st" by (simp add: session_of_def)
  moreover have "session_alive be_bytes_api (IpV4 1) ?st ?evs" by (simp add: peer_is_protected_def)
  ultimately show ?thesis
    using live_session_undisturbed [of "IpV4 1" ?st be_bytes_api ?evs] by (simp add: List.map_filter_simps)
qed

section \<open>The delivery thread\<close>

text \<open>
  C25: The delivery thread wakes on time. After an iteration on a well-formed buffer (with the
  clock of the wait read after that of the deadline), a timed wait ends exactly when the hold of
  the oldest entry ends, and the thread parks without a deadline only when the window is empty.
\<close>

theorem delivery_thread_wakes_on_time:
  assumes "reorder_inv (reorder st)" "drain_iteration ok st now c now2 = (st', wait)" "c \<le> now2"
  shows "(\<forall>d. wait = WaitFor d \<longrightarrow> (\<exists>b e es. queue_of (reorder st') = Some (b, e # es)
            \<and> now2 + d = held_since e + buffer_time (reorder st)))
    \<and> (wait = Park \<longrightarrow> filled_in (queue_of (reorder st')) = 0)"
proof -
  obtain g items where d: "drain_ready (reorder st) now = (g, items)" by force
  have inv: "reorder_inv g" using drain_refines [OF assms(1) d] by simp
  have g: "reorder st' = g" using assms(2) drain_iteration_frame(1) [of ok st now c now2] d by simp
  have w: "wait = (if items = [] then (case next_drain_time g c of None \<Rightarrow> Park
      | Some deadline \<Rightarrow> if deadline > now2 then WaitFor (deadline - now2) else Again) else Again)"
    using assms(2) d by (auto simp: drain_iteration_def Let_def split: if_splits)
  show ?thesis
  proof (cases "\<exists>b e es. queue_of g = Some (b, e # es)")
    case True
    then obtain b e es where q: "queue_of g = Some (b, e # es)" by blast
    with drain_head_deadline [OF assms(1) d q, of c] show ?thesis
      unfolding g by (simp add: w split: if_splits)
  next
    case False
    have "queue_of g = None \<or> (\<exists>b. queue_of g = Some (b, []))"
    proof (cases "queue_of g")
      case (Some be)
      with False show ?thesis by (cases be; cases "snd be") auto
    qed simp
    then obtain b where q: "queue_of g = None \<or> queue_of g = Some (b, [])" by blast
    with idle_deadline [OF inv q, of c] assms(3) show ?thesis unfolding g by (auto simp: w)
  qed
qed

theorem delivery_thread_wakes_on_time_witness:
  "\<exists>b e es. queue_of (reorder (fst (drain_iteration (\<lambda>_. True)
      ((receiver_init config_default 3 [] 0 0)\<lparr>reorder := fst (reorder_run (with_capacity 50 64) [Ins 5 [1] 7])\<rparr>) 20 21 22)))
      = Some (b, e # es) \<and> 22 + 35 = held_since e + 50"
proof -
  define rb where "rb = fst (reorder_run (with_capacity 50 64) [Ins 5 [1] 7])"
  let ?st = "(receiver_init config_default 3 [] 0 0)\<lparr>reorder := rb\<rparr>"
  have "run_fits (with_capacity 50 64) [Ins 5 [1] 7]" by code_simp
  with new_run_log [of 64 50 5 "[1]" 7 "[]" rb "snd (reorder_run (with_capacity 50 64) [Ins 5 [1] 7])"]
  have inv: "reorder_inv rb" by (simp add: rb_def)
  have hold: "buffer_time rb = 50" unfolding rb_def by code_simp
  have "drain_ready rb 20 = (rb, [])" "next_drain_time rb 21 = Some 57" unfolding rb_def by code_simp+
  then have w: "drain_iteration (\<lambda>_. True) ?st 20 21 22 = (?st, WaitFor 35)"
    by (simp add: drain_iteration_def Let_def)
  show ?thesis
    using delivery_thread_wakes_on_time [of ?st, OF _ w] inv hold w by (simp add: rb_def)
qed

section \<open>Requests\<close>

text \<open>The operations of a run on the NACK scheduler.\<close>

fun packet_sched_ops :: "ReceiverState \<Rightarrow> instant \<Rightarrow> RtcpPacket \<Rightarrow> SchedOp list" where
  "packet_sched_ops st now (App (RttEchoResponse resp)) =
     (case srtt (on_response (rx_rtt_estimator st) now (resp_timestamp_msw resp) (resp_timestamp_lsw resp)
                   (processing_delay_us resp)) of
        Some rtt \<Rightarrow> [SetDelay (max (rtt div 2) MIN_NACK_RETRY_DELAY)] | None \<Rightarrow> [])"
| "packet_sched_ops st now _ = []"

fun packets_sched_ops ::
  "bytes_api \<Rightarrow> SocketAddr \<Rightarrow> instant \<Rightarrow> (nat \<Rightarrow> instant) \<Rightarrow> nat \<Rightarrow> ReceiverState \<Rightarrow> RtcpPacket list \<Rightarrow> SchedOp list" where
  "packets_sched_ops B a now clock i st [] = []"
| "packets_sched_ops B a now clock i st (pkt # pkts) =
     packet_sched_ops st now pkt @ packets_sched_ops B a now clock (i + 1) (receiver_on_packet B a now (clock i) st pkt) pkts"

lemma sched_run_append:
  "sched_run s (xs @ ys) = (let (s1, g1, n1) = sched_run s xs; (s2, g2, n2) = sched_run s1 ys in (s2, g1 @ g2, n1 @ n2))"
  by (induction xs arbitrary: s) (simp_all add: split_beta Let_def)

lemma packet_sched_ops_run:
  "sched_run (nack_scheduler st) (packet_sched_ops st now pkt) = (nack_scheduler (receiver_on_packet B a now c st pkt), [], [])"
  by (cases "(st, now, pkt)" rule: packet_sched_ops.cases)
    (auto simp: receiver_on_packet_def Let_def split: option.splits)

lemma packets_sched_ops_run:
  "sched_run (nack_scheduler st) (packets_sched_ops B a now clock i st pkts)
   = (nack_scheduler (receiver_on_packets B a now clock i st pkts), [], [])"
proof (induction pkts arbitrary: i st)
  case (Cons pkt pkts)
  show ?case
    by (simp add: sched_run_append packet_sched_ops_run [where B = B and a = a and c = "clock i"] Cons.IH)
qed simp

fun event_sched_ops :: "bytes_api \<Rightarrow> ReceiverState \<Rightarrow> ReceiverEvent \<Rightarrow> SchedOp list" where
  "event_sched_ops B st (RtpIn dg from arrived_at parsed_at waiting now) =
     (if source_allowed from (pinned_source_ip st) (sender_rtp_addr st) (rtp_peer_live st) arrived_at
      then map (\<lambda>p. Received (p_seq p) now) (rtp_batch B st dg from parsed_at waiting) else [])"
| "event_sched_ops B st (RtcpIn dg from now clock) =
     (if \<not> source_allowed from (pinned_source_ip st) (sender_rtcp_addr st)
            (option_max (rx_rtcp_peer_live st) (rtp_peer_live st)) now then []
      else case compound_parse B (take MAX_UDP_RECV dg) of
             Ok compound \<Rightarrow>
               if packets compound = [] then []
               else packets_sched_ops B from now clock 0
                      (st\<lparr>sender_rtcp_addr := Some from, rx_rtcp_peer_live := Some now\<rparr>) (packets compound)
           | _ \<Rightarrow> [])"
| "event_sched_ops B st (PumpTick now sent) =
     (if sender_rtcp_addr st = None then [] else [Pump now (srtt (rx_rtt_estimator st))])"
| "event_sched_ops B st _ = []"

fun rx_sched_ops :: "bytes_api \<Rightarrow> ReceiverState \<Rightarrow> ReceiverEvent list \<Rightarrow> SchedOp list" where
  "rx_sched_ops B st [] = []"
| "rx_sched_ops B st (ev # evs) = event_sched_ops B st ev @ rx_sched_ops B (receiver_step B st ev) evs"

text \<open>
  The numbers named by the NACK of a pump that is about to happen, with repetition the requests of
  a run in the order they are sent.
\<close>

fun requested_by :: "ReceiverState \<Rightarrow> ReceiverEvent \<Rightarrow> u16 list" where
  "requested_by st (PumpTick now sent) =
     (if sender_rtcp_addr st = None then []
      else snd (get_pending_nacks (nack_scheduler st) now (srtt (rx_rtt_estimator st))))"
| "requested_by st _ = []"

fun rx_requests :: "bytes_api \<Rightarrow> ReceiverState \<Rightarrow> ReceiverEvent list \<Rightarrow> u16 list" where
  "rx_requests B st [] = []"
| "rx_requests B st (ev # evs) = requested_by st ev @ rx_requests B (receiver_step B st ev) evs"

lemma account_scheduler:
  "length outs = length batch \<Longrightarrow> nack_scheduler (foldl (account_packet now) st (zip batch outs))
   = fst (sched_run (nack_scheduler st) (map (\<lambda>p. Received (p_seq p) now) batch))
   \<and> snd (snd (sched_run (nack_scheduler st) (map (\<lambda>p. Received (p_seq p) now) batch))) = []"
proof (induction batch arbitrary: outs st)
  case (Cons p batch)
  then obtain oc outs' where o: "outs = oc # outs'" "length outs' = length batch" by (cases outs) auto
  have "nack_scheduler (account_packet now st (p, oc)) = fst (on_packet_received (nack_scheduler st) (p_seq p) now)"
    by (simp add: account_packet_def Let_def)
  with Cons.IH [OF o(2), of "account_packet now st (p, oc)"] show ?case by (simp add: o split_beta)
qed simp

lemma length_outcomes: "length (snd (insert_batch g now batch)) = length batch"
  by (induction batch arbitrary: g) (simp_all add: split_beta Let_def)

lemma batch_scheduler:
  "nack_scheduler (receiver_on_batch st batch now) = fst (sched_run (nack_scheduler st) (map (\<lambda>p. Received (p_seq p) now) batch))
   \<and> snd (snd (sched_run (nack_scheduler st) (map (\<lambda>p. Received (p_seq p) now) batch))) = []"
proof (cases "batch = []")
  case False
  obtain g outs where i: "insert_batch (reorder st) now batch = (g, outs)" by force
  have "length outs = length batch" using length_outcomes [of "reorder st" now batch] i by simp
  from account_scheduler [OF this, of now "st\<lparr>rtp_peer_live := Some now, reorder := g\<rparr>"] False show ?thesis
    by (simp add: receiver_on_batch_def i Let_def)
qed (simp add: receiver_on_batch_def)

lemma event_sched_run:
  "fst (sched_run (nack_scheduler st) (event_sched_ops B st ev)) = nack_scheduler (receiver_step B st ev)
   \<and> snd (snd (sched_run (nack_scheduler st) (event_sched_ops B st ev))) = requested_by st ev"
proof (cases ev)
  case (RtpIn dg a t1 t2 w now)
  show ?thesis
  proof (cases "source_allowed a (pinned_source_ip st) (sender_rtp_addr st) (rtp_peer_live st) t1")
    case False
    with RtpIn show ?thesis by (simp add: receiver_on_rtp_def)
  next
    case True
    obtain st1 where "receiver_on_rtp B st dg a t1 t2 w now = receiver_on_batch st1 (rtp_batch B st dg a t2 w) now"
      "nack_scheduler st1 = nack_scheduler st"
      using receiver_on_rtp_as_batch [OF True] by metis
    with RtpIn True batch_scheduler [of st1 "rtp_batch B st dg a t2 w" now] show ?thesis by simp
  qed
next
  case (RtcpIn dg a now clock)
  have upd: "(if sender_rtcp_addr st \<noteq> Some a then st\<lparr>sender_rtcp_addr := Some a\<rparr> else st) = st\<lparr>sender_rtcp_addr := Some a\<rparr>"
    by (cases st) simp
  have sch: "nack_scheduler (st\<lparr>sender_rtcp_addr := Some a, rx_rtcp_peer_live := Some now\<rparr>) = nack_scheduler st" by simp
  have "receiver_step B st ev =
      (if \<not> source_allowed a (pinned_source_ip st) (sender_rtcp_addr st)
            (option_max (rx_rtcp_peer_live st) (rtp_peer_live st)) now then st
       else case compound_parse B (take MAX_UDP_RECV dg) of
              Ok c \<Rightarrow> if packets c = [] then st
                else receiver_on_packets B a now clock 0
                       (st\<lparr>sender_rtcp_addr := Some a, rx_rtcp_peer_live := Some now\<rparr>) (packets c)
            | _ \<Rightarrow> st)"
    unfolding RtcpIn receiver_step.simps receiver_on_rtcp_def Let_def upd by (rule refl)
  then show ?thesis
    using packets_sched_ops_run [of "st\<lparr>sender_rtcp_addr := Some a, rx_rtcp_peer_live := Some now\<rparr>" B a now clock 0, unfolded sch]
    unfolding RtcpIn by (simp split: res.splits)
next
  case (PumpTick now sent)
  then show ?thesis
    by (cases "sender_rtcp_addr st") (simp_all add: receiver_on_pump_def Let_def split_beta)
next
  case (RxTick now)
  then show ?thesis
    by (simp add: receiver_on_tick_def Let_def split_beta split: option.splits)
next
  case (DrainTurn ok now c now2)
  have "nack_scheduler (fst (foldl (deliver_item ok) (r, k) items)) = nack_scheduler r" for r k items
    by (induction items arbitrary: r k) (simp_all add: deliver_item_def split: DrainItem.splits)
  with DrainTurn show ?thesis by (simp add: drain_iteration_def Let_def split_beta)
qed

lemma rx_sched_run:
  "fst (sched_run (nack_scheduler st) (rx_sched_ops B st evs)) = nack_scheduler (receiver_run B st evs)
   \<and> snd (snd (sched_run (nack_scheduler st) (rx_sched_ops B st evs))) = rx_requests B st evs"
proof (induction evs arbitrary: st)
  case (Cons ev evs)
  with event_sched_run [of st B ev] Cons.IH [of "receiver_step B st ev"] show ?case
    by (simp add: sched_run_append split_beta Let_def)
qed simp

text \<open>The numbers the scheduler reported as newly missing during a run, with repetition.\<close>

definition rx_detected :: "bytes_api \<Rightarrow> ReceiverState \<Rightarrow> ReceiverEvent list \<Rightarrow> u16 list" where
  "rx_detected B st evs = fst (snd (sched_run (nack_scheduler st) (rx_sched_ops B st evs)))"

end
