(* ===== verification/Rist_Control.thy ===== *)
theory Rist_Control
  imports Rist_Arq Rist_Session Rist_Steps
begin

text \<open>
  The control traffic of both tasks is well formed: every RTCP datagram either of them ever sends
  is a compound of at most three well-formed packets, a report first, so that the other end decodes
  exactly what was meant.
\<close>

section \<open>Well-formed control datagrams\<close>

fun report_first :: "RtcpPacket list \<Rightarrow> bool" where
  "report_first (SenderReport _ # _) \<longleftrightarrow> True"
| "report_first (ReceiverReport _ # _) \<longleftrightarrow> True"
| "report_first _ \<longleftrightarrow> False"

definition well_typed :: "RtcpPacket list \<Rightarrow> bool" where
  "well_typed pkts \<longleftrightarrow> report_first pkts \<and> length pkts \<le> 3 \<and> (\<forall>p \<in> set pkts. packet_wf p \<and> is_known p)"

definition control_log_ok :: "bytes_api \<Rightarrow> datagram list \<Rightarrow> bool" where
  "control_log_ok B sent \<longleftrightarrow> (\<forall>d \<in> set sent. \<exists>pkts. well_typed pkts \<and> snd d = compound_serialize B \<lparr>packets = pkts\<rparr>)"

lemma control_log_snoc:
  "well_typed pkts \<Longrightarrow> control_log_ok B sent \<Longrightarrow> control_log_ok B (sent @ [(a, compound_serialize B \<lparr>packets = pkts\<rparr>)])"
  by (auto simp: control_log_ok_def)

lemma well_typed_parse:
  assumes "bytes_crate B" "well_typed pkts"
  shows "compound_parse B (compound_serialize B \<lparr>packets = pkts\<rparr>) = Ok \<lparr>packets = pkts\<rparr>"
proof -
  have "\<forall>p \<in> set pkts. packet_wf p" "filter is_known pkts = pkts" "length pkts \<le> 3"
    using assms(2) by (auto simp: well_typed_def filter_id_conv)
  with bytes_crate.compound_loop_roundtrip [OF assms(1), of pkts] show ?thesis
    by (simp add: compound_parse_def bytes_crate.compound_serialize_eq [OF assms(1)] MAX_RTCP_SUB_PACKETS_def)
qed

lemma control_log_decodes:
  assumes "bytes_crate B" "control_log_ok B sent" "d \<in> set sent"
  shows "\<exists>pkts. well_typed pkts \<and> compound_parse B (snd d) = Ok \<lparr>packets = pkts\<rparr>"
  using assms(2,3) well_typed_parse [OF assms(1)] unfolding control_log_ok_def by metis

text \<open>What the tasks put together.\<close>

definition name_ok :: "bytes \<Rightarrow> bool" where
  "name_ok name \<longleftrightarrow> length name \<le> 255 \<and> utf8_valid name"

lemma echo_reply_typed:
  "control_log_ok B sent \<Longrightarrow> control_log_ok B (sent @ [(a, echo_reply B src req d)])"
  unfolding echo_reply_def by (rule control_log_snoc) (simp_all add: well_typed_def rr_wf_def rr_empty_def)

lemma sender_report_typed:
  "name_ok name \<Longrightarrow> well_typed [SenderReport sr, Sdes \<lparr>sdes_ssrc = s, cname = name\<rparr>]"
  "name_ok name \<Longrightarrow> well_typed [SenderReport sr, Sdes \<lparr>sdes_ssrc = s, cname = name\<rparr>, App (RttEchoRequest req)]"
  by (simp_all add: well_typed_def name_ok_def sdes_wf_def)

lemma receiver_report_typed:
  "name_ok name \<Longrightarrow> well_typed [ReceiverReport (snd (generate_rr rst now)), Sdes \<lparr>sdes_ssrc = s, cname = name\<rparr>]"
  "name_ok name \<Longrightarrow> well_typed [ReceiverReport (snd (generate_rr rst now)), Sdes \<lparr>sdes_ssrc = s, cname = name\<rparr>, App (RttEchoRequest req)]"
  using generate_rr_wf [of rst now] by (simp_all add: well_typed_def name_ok_def sdes_wf_def)

lemma request_typed:
  assumes "length pend \<le> 4096"
  shows "well_typed [ReceiverReport (snd (generate_rr rst now)), Nack (build_bitmask b pend)]"
  using generate_rr_wf [of rst now] length_bitmask_groups [of pend] assms
  by (simp add: well_typed_def nack_wf_def build_bitmask_def)

section \<open>The sender\<close>

definition sender_control_ok :: "bytes_api \<Rightarrow> bytes \<Rightarrow> SenderState \<Rightarrow> bool" where
  "sender_control_ok B name st \<longleftrightarrow> s_cname (rtcp_state st) = name \<and> control_log_ok B (rtcp_sent st)"

lemma sender_control_packet:
  assumes "sender_on_packet B send_ok now a t st bud pkt = (st', bud', halt)" "sender_control_ok B name st"
  shows "sender_control_ok B name st'"
proof -
  have nack: "sender_control_ok B name st1" if "sender_on_nack send_ok st bud qs = (st1, b1, sp)" for qs st1 b1 sp
    using sender_on_nack_out(3) [OF \<open>sender_on_nack send_ok st bud qs = (st1, b1, sp)\<close>] assms(2)
    by (simp add: sender_control_ok_def same_session_def)
  show ?thesis
    using assms nack by (auto simp: sender_on_packet_def sender_control_ok_def echo_reply_typed Let_def
        split: RtcpPacket.splits RistApp.splits if_splits option.splits)
qed

lemma sender_control_packets:
  "sender_control_ok B name st \<Longrightarrow> sender_control_ok B name (sender_on_packets B send_ok clock a t i st bud pkts)"
proof (induction pkts arbitrary: i st bud)
  case (Cons pkt pkts)
  obtain st' bud' halt where "sender_on_packet B send_ok (clock i) a t st bud pkt = (st', bud', halt)" by (metis prod_cases3)
  with sender_control_packet [OF this Cons.prems] Cons.IH show ?case by simp
qed simp

lemma sender_control_step:
  assumes "sender_control_ok B name st" "name_ok name"
  shows "sender_control_ok B name (sender_step B send_ok st ev)"
proof (cases ev)
  case (Media pl now)
  with assms show ?thesis by (simp add: sender_control_ok_def sender_on_media_def on_packet_sent_def Let_def)
next
  case (Rtcp dg a t clock)
  show ?thesis
  proof (rule sender_on_rtcp_cases [of B send_ok clock st dg a t])
    fix c
    assume "sender_on_rtcp B send_ok clock st dg a t
       = sender_on_packets B send_ok clock a t 0 (st\<lparr>remote_rtcp_addr := a, rtcp_peer_live := Some t\<rparr>) (nack_budget_template st) (packets c)"
    moreover have "sender_control_ok B name (st\<lparr>remote_rtcp_addr := a, rtcp_peer_live := Some t\<rparr>)"
      using assms(1) by (simp add: sender_control_ok_def)
    ultimately show ?thesis using Rtcp by (simp add: sender_control_packets)
  qed (use Rtcp assms in simp)
next
  case (Tick now wall)
  with assms show ?thesis
    by (auto simp: sender_control_ok_def sender_on_tick_def generate_sr_def sender_generate_sdes_def Let_def split_beta
        intro!: control_log_snoc sender_report_typed)
qed

section \<open>The receiver\<close>

definition receiver_control_ok :: "bytes_api \<Rightarrow> bytes \<Rightarrow> ReceiverState \<Rightarrow> bool" where
  "receiver_control_ok B name st \<longleftrightarrow> r_cname (rx_rtcp_state st) = name \<and> sched_inv (nack_scheduler st)
     \<and> control_log_ok B (rx_rtcp_sent st)"

text \<open>The name of the source never changes.\<close>

lemma r_cname_kept:
  "r_cname (receiver_on_packet_received rst q ts us dup) = r_cname rst"
  "r_cname (on_sr_received rst sr now) = r_cname rst"
  "r_cname (fst (generate_rr rst now)) = r_cname rst"
  by (simp_all add: receiver_on_packet_received_def advance_max_seq_def update_jitter_def on_sr_received_def generate_rr_def Let_def)

lemma r_cname_account: "r_cname (rx_rtcp_state (foldl (account_packet now) st xs)) = r_cname (rx_rtcp_state st)"
  by (induction xs arbitrary: st) (simp_all add: account_packet_def Let_def r_cname_kept split: prod.splits)

lemma r_cname_items:
  "rx_rtcp_state (fst (foldl (deliver_item ok) (st, k) items)) = rx_rtcp_state st
   \<and> rx_rtcp_sent (fst (foldl (deliver_item ok) (st, k) items)) = rx_rtcp_sent st"
  by (induction items arbitrary: st k) (simp_all add: deliver_item_def split: DrainItem.splits)

lemma receiver_control_packets:
  "r_cname (rx_rtcp_state (receiver_on_packets B a now clock i st pkts)) = r_cname (rx_rtcp_state st)
   \<and> (control_log_ok B (rx_rtcp_sent st) \<longrightarrow> control_log_ok B (rx_rtcp_sent (receiver_on_packets B a now clock i st pkts)))"
proof (induction pkts arbitrary: i st)
  case (Cons pkt pkts)
  have "r_cname (rx_rtcp_state (receiver_on_packet B a now (clock i) st pkt)) = r_cname (rx_rtcp_state st)
   \<and> (control_log_ok B (rx_rtcp_sent st) \<longrightarrow> control_log_ok B (rx_rtcp_sent (receiver_on_packet B a now (clock i) st pkt)))"
    by (auto simp: receiver_on_packet_def Let_def r_cname_kept echo_reply_typed split: RtcpPacket.splits RistApp.splits option.splits)
  with Cons [of "i + 1" "receiver_on_packet B a now (clock i) st pkt"] show ?case by simp
qed simp

lemma sched_inv_ops: "sched_inv s \<Longrightarrow> sched_inv (fst (sched_run s xs))"
  by (induction xs arbitrary: s) (simp_all add: split_beta Let_def sched_op_inv)

lemma pending_bounded:
  assumes "sched_inv s" "get_pending_nacks s now rtt = (s', pend)"
  shows "length pend \<le> 4096"
proof -
  have "length pend \<le> length (nslots s)"
    using assms(2) by (auto simp: get_pending_nacks_eq full_scan_def split: if_splits)
  with assms(1) show ?thesis by simp
qed

lemma receiver_control_pump:
  assumes "control_log_ok B (rx_rtcp_sent st)" "sched_inv (nack_scheduler st)"
  shows "r_cname (rx_rtcp_state (receiver_on_pump B sent st now)) = r_cname (rx_rtcp_state st)
    \<and> control_log_ok B (rx_rtcp_sent (receiver_on_pump B sent st now))"
proof -
  obtain sched pend where p: "get_pending_nacks (nack_scheduler st) now (srtt (rx_rtt_estimator st)) = (sched, pend)" by fastforce
  have "well_typed [ReceiverReport (snd (generate_rr rst now)), Nack (build_bitmask b pend)]" for rst b
    by (rule request_typed) (rule pending_bounded [OF assms(2) p])
  with assms(1) p show ?thesis
    by (auto simp: receiver_on_pump_def Let_def split_beta r_cname_kept intro!: control_log_snoc split: option.splits)
qed

lemma receiver_control_step:
  assumes "receiver_control_ok B name st" "name_ok name"
  shows "receiver_control_ok B name (receiver_step B st ev)"
proof -
  have "sched_inv (fst (sched_run (nack_scheduler st) (event_sched_ops B st ev)))"
    using assms(1) by (intro sched_inv_ops) (simp add: receiver_control_ok_def)
  then have sched: "sched_inv (nack_scheduler (receiver_step B st ev))" using event_sched_run [of st B ev] by simp
  have ok: "r_cname (rx_rtcp_state st) = name" "control_log_ok B (rx_rtcp_sent st)" "sched_inv (nack_scheduler st)"
    using assms(1) by (simp_all add: receiver_control_ok_def)
  have "r_cname (rx_rtcp_state (receiver_step B st ev)) = name \<and> control_log_ok B (rx_rtcp_sent (receiver_step B st ev))"
  proof (cases ev)
    case (RtpIn dg a t1 t2 w now)
    with ok show ?thesis
      by (simp add: receiver_on_rtp_def receiver_on_batch_def receiver_on_rtp_frame r_cname_account account_frame Let_def split_beta split: option.splits)
  next
    case (RtcpIn dg a now clock)
    with ok receiver_control_packets show ?thesis by (simp add: receiver_on_rtcp_def Let_def split: res.splits)
  next
    case (PumpTick now sent)
    with ok receiver_control_pump [OF ok(2,3)] show ?thesis by simp
  next
    case (RxTick now)
    with ok assms(2) show ?thesis
      by (auto simp: receiver_on_tick_def receiver_generate_sdes_def Let_def split_beta r_cname_kept
          intro!: control_log_snoc receiver_report_typed split: option.splits)
  next
    case (DrainTurn okc now c now2)
    with ok show ?thesis by (simp add: drain_iteration_def Let_def split_beta r_cname_items)
  qed
  with sched show ?thesis by (simp add: receiver_control_ok_def)
qed

section \<open>Runs of both\<close>

interpretation tx_control: step_invariant "\<lambda>s s'. name_ok name \<and> (\<exists>ev. s' = sender_step B send_ok s ev)" "sender_control_ok B name"
  for B send_ok name
  by unfold_locales (auto intro: sender_control_step)

interpretation rx_control: step_invariant "\<lambda>s s'. name_ok name \<and> (\<exists>ev. s' = receiver_step B s ev)" "receiver_control_ok B name"
  for B name
  by unfold_locales (auto intro: receiver_control_step)

lemma sender_run_steps:
  "name_ok name \<Longrightarrow> (\<lambda>s s'. name_ok name \<and> (\<exists>ev. s' = sender_step B send_ok s ev))\<^sup>*\<^sup>* st (sender_run B send_ok st evs)"
  by (induction evs arbitrary: st) (auto simp: sender_run_def intro: converse_rtranclp_into_rtranclp)

lemma receiver_run_steps:
  "name_ok name \<Longrightarrow> (\<lambda>s s'. name_ok name \<and> (\<exists>ev. s' = receiver_step B s ev))\<^sup>*\<^sup>* st (receiver_run B st evs)"
  by (induction evs arbitrary: st) (auto intro: converse_rtranclp_into_rtranclp)

text \<open>
  C14: All control traffic decodes. With names of at most 255 bytes, every RTCP datagram either task
  sends in any run, in reports, requests and answers alike, is decoded by the compound parser to a
  list of at most three well-formed packets of known types, the first of which is a sender or
  receiver report.
\<close>

theorem control_traffic_well_typed:
  assumes "bytes_crate B"
    and "name_ok (case cfg_cname config of Some c \<Rightarrow> c | None \<Rightarrow> name)"
    and "d \<in> set (rtcp_sent (sender_run B send_ok (sender_init config remote rs rq name epoch wall) sevs))
          \<union> set (rx_rtcp_sent (receiver_run B (receiver_init config rs name t0 t1) evs))"
  shows "\<exists>pkts. well_typed pkts \<and> compound_parse B (snd d) = Ok \<lparr>packets = pkts\<rparr>"
proof -
  let ?name = "case cfg_cname config of Some c \<Rightarrow> c | None \<Rightarrow> name"
  have "sender_control_ok B ?name (sender_init config remote rs rq name epoch wall)"
    by (simp add: sender_control_ok_def sender_init_def sender_state_new_def control_log_ok_def Let_def)
  then have tx: "sender_control_ok B ?name (sender_run B send_ok (sender_init config remote rs rq name epoch wall) sevs)"
    by (rule tx_control.inv_run [OF sender_run_steps [OF assms(2)]])
  have "receiver_control_ok B ?name (receiver_init config rs name t0 t1)"
    by (simp add: receiver_control_ok_def receiver_init_def receiver_state_new_def control_log_ok_def Let_def)
  then have rx: "receiver_control_ok B ?name (receiver_run B (receiver_init config rs name t0 t1) evs)"
    by (rule rx_control.inv_run [OF receiver_run_steps [OF assms(2)]])
  from assms(3) tx rx show ?thesis
    by (auto simp: sender_control_ok_def receiver_control_ok_def intro: control_log_decodes [OF assms(1)])
qed

theorem control_traffic_well_typed_witness:
  "\<exists>pkts. well_typed pkts \<and> compound_parse be_bytes_api
     (snd (rtcp_sent (sender_run be_bytes_api (\<lambda>_. True) (sender_init config_default (SocketV4 1 5000) 3 9 [0x31] 0 0) [Tick 5 5]) ! 0))
   = Ok \<lparr>packets = pkts\<rparr>"
proof -
  let ?st = "sender_run be_bytes_api (\<lambda>_. True) (sender_init config_default (SocketV4 1 5000) 3 9 [0x31] 0 0) [Tick 5 5]"
  have "utf8_valid [0x31]" by (rule utf8_valid_ascii) simp
  then have name: "name_ok (case cfg_cname config_default of Some c \<Rightarrow> c | None \<Rightarrow> [0x31])"
    by (simp add: name_ok_def config_default_def)
  have "rtcp_sent ?st ! 0 \<in> set (rtcp_sent ?st)"
    by (rule nth_mem) (simp add: sender_run_def sender_on_tick_def sender_init_def Let_def split_beta)
  then show ?thesis by (intro control_traffic_well_typed [OF be.bytes_crate_axioms name, where evs = "[]" and sevs = "[Tick 5 5]"]) blast
qed

end
