(* ===== verification/Rist_Recovery.thy ===== *)
theory Rist_Recovery
  imports Rist_Control
begin

text \<open>
  From a hole in the stream to the request for it: a media packet that jumps ahead makes the
  scheduler track the numbers it has skipped, whatever else arrives and whichever pumps come before
  the base delay has passed they stay tracked, and the next pump puts every one of them into a NACK
  to the sender. The cycle of the root theory goes on from there. The numbers all the datagrams of a
  run ask for, as the sender decodes them, are bounded by the losses detected.
\<close>

section \<open>The slots of newly missing numbers\<close>

lemma track_all_fresh:
  assumes "sched_inv s" "distinct ms" "inj_on (ring_index 4096) (set ms)" "m \<in> set ms" "\<not> tracked s m"
  shows "nslots (fst (foldl (track_missing now) (s, gs) ms)) ! ring_index 4096 m
    = \<lparr>nslot_seq = m, active = True, next_nack_at = now + base_delay s, nack_count = 0\<rparr>"
  using assms
proof (induction ms arbitrary: s gs)
  case (Cons x ms)
  let ?s1 = "fst (track_missing now (s, []) x)"
  have inv: "sched_inv ?s1" by (rule sched_inv_track [OF Cons.prems(1)])
  have split: "foldl (track_missing now) (s, gs) (x # ms)
      = foldl (track_missing now) (?s1, gs @ (if tracked s x then [] else [x])) ms"
    by (simp only: foldl_Cons track_missing_split [of _ s gs])
  have other: "nslots (fst (foldl (track_missing now) (s', gs') ms)) ! ring_index 4096 x = nslots s' ! ring_index 4096 x"
    if "sched_inv s'" for s' gs'
    using that Cons.prems(2,3)
  proof (induction ms arbitrary: s' gs')
    case (Cons y ms)
    from Cons.IH [OF sched_inv_track [OF Cons.prems(1), of now "[]" y]] Cons.prems show ?case
      by (simp add: track_missing_split [of _ s' gs'] slot_at_track)
  qed simp
  show ?case
  proof (cases "m = x")
    case True
    with Cons.prems(1,5) other [OF inv] show ?thesis unfolding split by (simp add: slot_at_track)
  next
    case False
    then have m: "m \<in> set ms" "ring_index 4096 m \<noteq> ring_index 4096 x" using Cons.prems(3,4) by (auto simp: inj_on_def)
    with Cons.prems False have "\<not> tracked ?s1 m" by (simp add: tracked_track_missing)
    with Cons.IH [OF inv _ _ m(1)] Cons.prems(2,3) show ?thesis unfolding split by simp
  qed
qed simp

lemma received_fresh:
  assumes "sched_inv s" "expected_seq s = Some e" "0 < unat (q - e)" "unat (q - e) \<le> 1000"
    and "m \<in> set (missing_before e q)" "\<not> tracked s m"
  shows "nslots (fst (on_packet_received s q now)) ! ring_index 4096 m
    = \<lparr>nslot_seq = m, active = True, next_nack_at = now + base_delay s, nack_count = 0\<rparr>"
proof -
  have d: "sint (q - e) = int (unat (q - e))" "0 < sint (q - e)"
    using assms(3,4) sint_u16_nonneg [of "q - e"] sint_u16_pos_iff [of "q - e"] by linarith+
  then have n: "nat (sint (q - e)) = unat (q - e)" by (metis nat_int)
  have "unat (q - e) \<le> 4096" using assms(4) by simp
  note run = gap_run_indices [OF this, of e, folded missing_before_def]
  have "nslots (fst (on_packet_received s q now)) = nslots (fst (foldl (track_missing now) (s, []) (missing_before e q)))"
    using assms(2,4) d(2) by (simp add: on_packet_received_def n missing_before_def Let_def split_beta)
  with track_all_fresh [OF assms(1) run assms(5,6)] show ?thesis by simp
qed

lemma pump_reports:
  assumes "sched_inv s" "tracked s q" "due now (max_retries s) (nslots s ! ring_index 4096 q)" "active_slots s \<le> unat (active_count s)"
  shows "q \<in> set (snd (get_pending_nacks s now rtt))"
proof -
  have "nslots s ! ring_index 4096 q \<in> set (nslots s)" using assms(1) by (intro nth_mem) simp
  then have "0 < active_slots s" using assms(3) by (auto simp: active_slots_def due_def length_greater_0_conv filter_empty_conv)
  then have "active_count s \<noteq> 0" using assms(4) by auto
  moreover have "count_list (sort (map nslot_seq (filter (due now (max_retries s)) (nslots s)))) q = 1"
    using count_due [OF assms(1)] assms(2,3) by simp
  then have "q \<in> set (sort (map nslot_seq (filter (due now (max_retries s)) (nslots s))))"
    by (metis count_list_0_iff zero_neq_one)
  ultimately show ?thesis by (simp add: get_pending_nacks_eq full_scan_def)
qed

section \<open>A number that waits for its first request\<close>

text \<open>
  The slot of a newly missing number until its time comes, with the expected number at most a ring
  ahead of it; and the operations that leave it so: pumps before that time, and arrivals of other
  numbers less than a ring away.
\<close>

definition waits_until :: "u16 \<Rightarrow> instant \<Rightarrow> NackScheduler \<Rightarrow> bool" where
  "waits_until q w s \<longleftrightarrow> sched_inv s \<and> 0 < max_retries s
     \<and> nslots s ! ring_index 4096 q = \<lparr>nslot_seq = q, active = True, next_nack_at = w, nack_count = 0\<rparr>
     \<and> (\<exists>k. expected_seq s = Some (q + of_nat k) \<and> 0 < k \<and> k \<le> 4096)"

fun spares :: "u16 \<Rightarrow> instant \<Rightarrow> SchedOp \<Rightarrow> bool" where
  "spares q w (Received x now) \<longleftrightarrow> x \<noteq> q \<and> \<bar>sint (x - q)\<bar> < 4096"
| "spares q w (Recovered x) \<longleftrightarrow> x \<noteq> q"
| "spares q w (Pump now rtt) \<longleftrightarrow> now < w"
| "spares q w (SetDelay d) \<longleftrightarrow> True"

lemma waits_tracked: "waits_until q w s \<Longrightarrow> tracked s q"
  by (simp add: waits_until_def tracked_def)

lemma sint_u16_offset:
  assumes "\<bar>sint (x - q :: u16)\<bar> < 4096" "k \<le> 4096"
  shows "sint (x - (q + of_nat k)) = sint (x - q) - int k"
proof -
  let ?z = "sint (x - q) - int k"
  have "x - (q + of_nat k) = of_int ?z" by simp
  then have "sint (x - (q + of_nat k)) = sint (of_int ?z :: u16)" by (rule arg_cong)
  also have "\<dots> = ?z" using assms by (simp add: int_word_sint del: of_int_diff)
  finally show ?thesis .
qed

lemma gap_misses_slot:
  assumes "k + n \<le> 4096" "0 < k" "m \<in> set (map (\<lambda>i. q + of_nat k + of_nat i :: u16) [0..<n])"
  shows "ring_index 4096 m \<noteq> ring_index 4096 q"
proof -
  obtain i where i: "i < n" "m = q + of_nat (k + i)" using assms(3) by (auto simp: add.assoc)
  with assms ring_index_inj [of 4096 "k + i" 0 q] show ?thesis by auto
qed

lemma track_all_elsewhere:
  assumes "sched_inv s" "\<forall>m \<in> set ms. ring_index 4096 m \<noteq> ring_index 4096 q"
  shows "nslots (fst (foldl (track_missing now) (s, gs) ms)) ! ring_index 4096 q = nslots s ! ring_index 4096 q"
  using assms
proof (induction ms arbitrary: s gs)
  case (Cons m ms)
  from Cons.IH [OF sched_inv_track [OF Cons.prems(1), of now "[]" m]] Cons.prems show ?case
    by (simp add: track_missing_split [of _ s gs] slot_at_track)
qed simp

lemma expected_deactivate: "expected_seq (deactivate s x) = expected_seq s"
  by (simp add: deactivate_def Let_def)

lemma waits_received:
  assumes "waits_until q w s" "x \<noteq> q" "\<bar>sint (x - q)\<bar> < 4096"
  shows "waits_until q w (fst (on_packet_received s x now))"
proof -
  obtain k where k: "expected_seq s = Some (q + of_nat k)" "0 < k" "k \<le> 4096" using assms(1) by (auto simp: waits_until_def)
  have inv: "sched_inv s" using assms(1) by (simp add: waits_until_def)
  note diff = sint_u16_offset [OF assms(3) k(3)]
  have keep: "sched_inv (fst (on_packet_received s x now))" "max_retries (fst (on_packet_received s x now)) = max_retries s"
    using inv sched_op_retries [OF inv, of "Received x now"] by (simp_all add: split_beta)
  consider "sint (x - q) < int k" | "int k \<le> sint (x - q)" by linarith
  then show ?thesis
  proof cases
    case 1
    then have "on_packet_received s x now = (deactivate s x, [])" using k diff by (simp add: on_packet_received_def)
    moreover have "nslots (deactivate s x) ! ring_index 4096 q = nslots s ! ring_index 4096 q"
      by (rule slot_at_deactivate [OF inv]) (use assms waits_tracked in auto)
    ultimately show ?thesis using assms(1) keep by (simp add: waits_until_def expected_deactivate)
  next
    case 2
    define d where "d = nat (sint (x - q))"
    have d: "sint (x - q) = int d" "k \<le> d" "d < 4096" using 2 assms(3) by (simp_all add: d_def)
    have "x - q = of_int (int d)" unfolding d(1) [symmetric] by simp
    then have x: "x = q + of_nat d" by (simp add: diff_eq_eq add.commute)
    let ?ms = "map (\<lambda>i. q + of_nat k + of_nat i :: u16) [0..<d - k]"
    have "nslots (fst (foldl (track_missing now) (s, []) ?ms)) ! ring_index 4096 q = nslots s ! ring_index 4096 q"
      using d k by (intro track_all_elsewhere [OF inv] ballI gap_misses_slot [of k "d - k"]) auto
    moreover have "nat (int d - int k) = d - k" by simp
    ultimately have "nslots (fst (on_packet_received s x now)) ! ring_index 4096 q = nslots s ! ring_index 4096 q"
      "expected_seq (fst (on_packet_received s x now)) = Some (x + 1)"
      using k(1) d diff by (auto simp: on_packet_received_def Let_def split_beta)
    moreover have "x + 1 = q + of_nat (d + 1)" by (simp add: x)
    ultimately show ?thesis using assms(1) keep d by (auto simp: waits_until_def intro!: exI [of _ "d + 1"])
  qed
qed

lemma waits_op:
  assumes "waits_until q w s" "spares q w x"
  shows "waits_until q w (fst (sched_op s x))"
proof (cases x)
  case (Received y now)
  with assms waits_received [OF assms(1)] show ?thesis by (simp add: split_beta)
next
  case (Recovered y)
  have "nslots (deactivate s y) ! ring_index 4096 q = nslots s ! ring_index 4096 q"
    using Recovered assms waits_tracked by (intro slot_at_deactivate) (auto simp: waits_until_def)
  with assms Recovered show ?thesis by (simp add: waits_until_def on_packet_recovered_def expected_deactivate)
next
  case (Pump now rtt)
  have "sched_inv s" using assms(1) by (simp add: waits_until_def)
  with assms Pump sched_inv_pump [of s now rtt] show ?thesis
    by (auto simp: waits_until_def split_beta get_pending_nacks_eq full_scan_def slot_after_def due_def spent_def)
qed (use assms in \<open>simp add: waits_until_def update_base_delay_def\<close>)

lemma waits_run: "waits_until q w s \<Longrightarrow> \<forall>x \<in> set xs. spares q w x \<Longrightarrow> waits_until q w (fst (sched_run s xs))"
  by (induction xs arbitrary: s) (simp_all add: split_beta Let_def waits_op)

section \<open>The receiver\<close>

text \<open>A receiver that knows where media comes from knows where to send requests.\<close>

definition peer_known :: "ReceiverState \<Rightarrow> bool" where
  "peer_known st \<longleftrightarrow> (sender_rtp_addr st \<noteq> None \<longrightarrow> sender_rtcp_addr st \<noteq> None)"

lemma control_addrs_kept:
  "sender_rtcp_addr (receiver_on_pump B sent st now) = sender_rtcp_addr st"
  "sender_rtp_addr (receiver_on_pump B sent st now) = sender_rtp_addr st"
  "sender_rtcp_addr (receiver_on_tick B st now) = sender_rtcp_addr st"
  "sender_rtp_addr (receiver_on_tick B st now) = sender_rtp_addr st"
  by (simp_all add: receiver_on_pump_def receiver_on_tick_def Let_def split_beta split: option.splits)

lemma drain_addrs_kept:
  "sender_rtcp_addr (fst (drain_iteration ok st now c now2)) = sender_rtcp_addr st"
  "sender_rtp_addr (fst (drain_iteration ok st now c now2)) = sender_rtp_addr st"
  "nack_scheduler (fst (drain_iteration ok st now c now2)) = nack_scheduler st"
  "rx_rtcp_sent (fst (drain_iteration ok st now c now2)) = rx_rtcp_sent st"
proof -
  have "sender_rtcp_addr (fst (foldl (deliver_item ok) (r, k) items)) = sender_rtcp_addr r
    \<and> sender_rtp_addr (fst (foldl (deliver_item ok) (r, k) items)) = sender_rtp_addr r
    \<and> nack_scheduler (fst (foldl (deliver_item ok) (r, k) items)) = nack_scheduler r
    \<and> rx_rtcp_sent (fst (foldl (deliver_item ok) (r, k) items)) = rx_rtcp_sent r" for r k items
    by (induction items arbitrary: r k) (simp_all add: deliver_item_def split: DrainItem.splits)
  then show "sender_rtcp_addr (fst (drain_iteration ok st now c now2)) = sender_rtcp_addr st"
    "sender_rtp_addr (fst (drain_iteration ok st now c now2)) = sender_rtp_addr st"
    "nack_scheduler (fst (drain_iteration ok st now c now2)) = nack_scheduler st"
    "rx_rtcp_sent (fst (drain_iteration ok st now c now2)) = rx_rtcp_sent st"
    by (simp_all add: drain_iteration_def Let_def split_beta)
qed

lemma peer_known_step: "peer_known st \<Longrightarrow> peer_known (receiver_step B st ev)"
proof (cases ev)
  case (RtpIn dg a t1 t2 w now)
  assume "peer_known st"
  with RtpIn receiver_on_rtp_addrs [of a st t1 B dg t2 w now] show ?thesis
    by (cases "source_allowed a (pinned_source_ip st) (sender_rtp_addr st) (rtp_peer_live st) t1")
      (auto simp: peer_known_def receiver_on_rtp_def)
next
  case (RtcpIn dg a now clock)
  assume "peer_known st"
  with RtcpIn receiver_on_rtcp_addrs [of B clock st dg a now] show ?thesis
    by (auto simp: peer_known_def receiver_on_rtcp_frame)
qed (simp_all add: peer_known_def control_addrs_kept drain_addrs_kept)

lemma peer_known_run: "peer_known st \<Longrightarrow> peer_known (receiver_run B st evs)"
  by (induction evs arbitrary: st) (simp_all add: peer_known_step)

lemma rtp_peer_step: "sender_rtp_addr st \<noteq> None \<Longrightarrow> sender_rtp_addr (receiver_step B st ev) \<noteq> None"
proof (cases ev)
  case (RtpIn dg a t1 t2 w now)
  assume "sender_rtp_addr st \<noteq> None"
  with RtpIn receiver_on_rtp_addrs [of a st t1 B dg t2 w now] show ?thesis
    by (cases "source_allowed a (pinned_source_ip st) (sender_rtp_addr st) (rtp_peer_live st) t1") (auto simp: receiver_on_rtp_def)
qed (simp_all add: control_addrs_kept drain_addrs_kept receiver_on_rtcp_frame)

lemma rtp_peer_run: "sender_rtp_addr st \<noteq> None \<Longrightarrow> sender_rtp_addr (receiver_run B st evs) \<noteq> None"
  by (induction evs arbitrary: st) (simp_all add: rtp_peer_step del: not_None_eq)

text \<open>A pump with a due number sends a report and a NACK that names it, as the sender reads them.\<close>

lemma pump_requests:
  assumes B: "bytes_crate B" and inv: "sched_inv (nack_scheduler st)" and dest: "sender_rtcp_addr st = Some dest"
    and q: "q \<in> set (snd (get_pending_nacks (nack_scheduler st) now (srtt (rx_rtt_estimator st))))"
  shows "\<exists>dg rr nack. rx_rtcp_sent (receiver_on_pump B sent st now) = rx_rtcp_sent st @ [(dest, dg)]
    \<and> compound_parse B dg = Ok \<lparr>packets = [ReceiverReport rr, Nack nack]\<rparr>
    \<and> nack_media_ssrc nack = named_source st \<and> q \<in> set (nack_lost_seqs (entries nack))"
proof -
  obtain sched pend where p: "get_pending_nacks (nack_scheduler st) now (srtt (rx_rtt_estimator st)) = (sched, pend)" by fastforce
  let ?rr = "snd (generate_rr (rx_rtcp_state st) now)"
  let ?nack = "build_bitmask \<lparr>b_sender_ssrc = rx_ssrc st, b_media_ssrc = named_source st\<rparr> pend"
  have "pend \<noteq> []" using q p by auto
  then have sent: "rx_rtcp_sent (receiver_on_pump B sent st now) = rx_rtcp_sent st @ [(dest, pump_datagram B st now pend)]"
    by (rule pump_sends [OF dest p])
  have "well_typed [ReceiverReport ?rr, Nack ?nack]" by (rule request_typed) (rule pending_bounded [OF inv p])
  then have "compound_parse B (pump_datagram B st now pend) = Ok \<lparr>packets = [ReceiverReport ?rr, Nack ?nack]\<rparr>"
    unfolding pump_datagram_def by (rule well_typed_parse [OF B])
  moreover have "q \<in> set (nack_lost_seqs (entries ?nack))" using q p set_bitmask_groups [of pend] by (simp add: build_bitmask_def)
  ultimately show ?thesis using sent by (auto simp: build_bitmask_def)
qed

lemma rx_sched_ops_append: "rx_sched_ops B st (xs @ ys) = rx_sched_ops B st xs @ rx_sched_ops B (receiver_run B st xs) ys"
  by (induction xs arbitrary: st) simp_all

lemma receiver_run_append: "receiver_run B st (xs @ ys) = receiver_run B (receiver_run B st xs) ys"
  by (induction xs arbitrary: st) simp_all

text \<open>The scheduler after any run of a receiver, and its pump.\<close>

lemma receiver_scheduler:
  assumes "s = nack_scheduler (receiver_run B (receiver_init config rs name t0 t1) evs)"
  shows "s = fst (sched_run (nack_scheduler_new (max_nack_retries config) MIN_NACK_RETRY_DELAY t0)
      (rx_sched_ops B (receiver_init config rs name t0 t1) evs))"
    and "sched_inv s" and "max_retries s = max_nack_retries config"
proof -
  let ?new = "nack_scheduler_new (max_nack_retries config) MIN_NACK_RETRY_DELAY t0"
  have "nack_scheduler (receiver_init config rs name t0 t1) = ?new" by (simp add: receiver_init_def Let_def)
  then show s: "s = fst (sched_run ?new (rx_sched_ops B (receiver_init config rs name t0 t1) evs))"
    using rx_sched_run [of "receiver_init config rs name t0 t1" B evs] by (simp add: assms)
  show "sched_inv s" "max_retries s = max_nack_retries config"
    unfolding s using sched_run_keeps [of ?new "rx_sched_ops B (receiver_init config rs name t0 t1) evs"]
    by (simp_all) (simp add: nack_scheduler_new_def Let_def)
qed

text \<open>The arrival of a packet ahead leaves each newly missing number waiting for its first request.\<close>

lemma arrival_waits:
  assumes "sched_inv s" "0 < max_retries s" "expected_seq s = Some e" "0 < unat (x - e)" "unat (x - e) \<le> 1000"
    and "q \<in> set (missing_before e x)" "\<not> tracked s q"
  shows "waits_until q (now + base_delay s) (fst (on_packet_received s x now))"
proof -
  obtain i where i: "i < unat (x - e)" "q = e + of_nat i" using assms(6) by (auto simp: missing_before_def)
  have "x = e + of_nat (unat (x - e))" by simp
  then have "x + 1 = q + of_nat (unat (x - e) - i + 1)" using i by (simp add: of_nat_diff less_imp_le)
  moreover have "expected_seq (fst (on_packet_received s x now)) = Some (x + 1)"
    using assms(3-5) sint_u16_pos_iff [of "x - e"] by (auto simp: on_packet_received_def Let_def split_beta)
  moreover have "max_retries (fst (on_packet_received s x now)) = max_retries s"
    using sched_op_retries [OF assms(1), of "Received x now"] by (simp add: split_beta)
  ultimately show ?thesis using received_fresh [OF assms(1,3,4,5,6,7)] assms(1,2,5) i
    by (auto simp: waits_until_def intro!: exI [of _ "unat (x - e) - i + 1"])
qed

lemma hole_requested:
  assumes B: "bytes_crate B"
    and run: "st = receiver_run B (receiver_init config rs name t0 t1) evs" and retries: "0 < max_nack_retries config"
    and arrival: "ev = RtpIn dg src arrived_at parsed_at waiting now"
      "source_allowed src (pinned_source_ip st) (sender_rtp_addr st) (rtp_peer_live st) arrived_at"
      "rtp_header_parse B (take MAX_UDP_RECV dg) = Ok (h, n)"
    and ahead: "expected_seq (nack_scheduler st) = Some e" "0 < unat (sequence_number h - e)" "unat (sequence_number h - e) \<le> 1000"
      "q \<in> set (missing_before e (sequence_number h))" "\<not> tracked (nack_scheduler st) q"
    and between: "st' = receiver_run B st (ev # evs')"
      "\<forall>x \<in> set (tl (rx_sched_ops B st (ev # evs'))). spares q (now + base_delay (nack_scheduler st)) x"
      "length (rx_sched_ops B (receiver_init config rs name t0 t1) (evs @ ev # evs')) \<le> 4000000"
    and later: "now + base_delay (nack_scheduler st) \<le> now'"
  shows "\<exists>dest datagram rr nack. sender_rtcp_addr st' = Some dest
    \<and> rx_rtcp_sent (receiver_on_pump B sent st' now') = rx_rtcp_sent st' @ [(dest, datagram)]
    \<and> compound_parse B datagram = Ok \<lparr>packets = [ReceiverReport rr, Nack nack]\<rparr>
    \<and> q \<in> set (nack_lost_seqs (entries nack))"
proof -
  let ?init = "receiver_init config rs name t0 t1" and ?w = "now + base_delay (nack_scheduler st)"
  note s = receiver_scheduler [of "nack_scheduler st" B config rs name t0 t1 evs, folded run, OF refl]
  have st': "st' = receiver_run B ?init (evs @ ev # evs')" by (simp add: between(1) run receiver_run_append)
  note s' = receiver_scheduler [OF arg_cong [OF st', of nack_scheduler]]
  obtain p ps where batch: "rtp_batch B st dg src parsed_at waiting = p # ps" "p_seq p = sequence_number h"
    using arrival(3) read_burst_eq [of "[the (parse_rtp B (take MAX_UDP_RECV dg) (rx_epoch st) parsed_at)]"]
    by (auto simp: rtp_batch_def parse_rtp_def)
  obtain xs where xs: "rx_sched_ops B st (ev # evs') = Received (sequence_number h) now # xs"
    using arrival(1,2) batch by simp
  have "nack_scheduler st' = fst (sched_run (fst (on_packet_received (nack_scheduler st) (sequence_number h) now)) xs)"
    using rx_sched_run [of st B "ev # evs'"] unfolding xs between(1) by (simp add: split_beta Let_def)
  moreover have "waits_until q ?w (fst (on_packet_received (nack_scheduler st) (sequence_number h) now))"
    using retries by (intro arrival_waits [OF s(2) _ ahead]) (simp add: s(3))
  moreover have "\<forall>x \<in> set xs. spares q ?w x" using between(2) unfolding xs by simp
  ultimately have "waits_until q ?w (nack_scheduler st')" by (simp add: waits_run)
  then have "tracked (nack_scheduler st') q" "due now' (max_retries (nack_scheduler st')) (nslots (nack_scheduler st') ! ring_index 4096 q)"
    using later waits_tracked by (auto simp: waits_until_def due_def)
  then have q: "q \<in> set (snd (get_pending_nacks (nack_scheduler st') now' (srtt (rx_rtt_estimator st'))))"
    using pump_is_full_scan [OF s'(1) between(3)] by (intro pump_reports [OF s'(2)]) simp_all
  have "peer_known st'" unfolding st' by (rule peer_known_run) (simp add: peer_known_def receiver_init_def Let_def)
  moreover have "sender_rtp_addr st' \<noteq> None"
    using receiver_on_rtp_addrs [OF arrival(2)] arrival(1) unfolding between(1) by (simp add: rtp_peer_run del: not_None_eq)
  ultimately obtain dest where dest: "sender_rtcp_addr st' = Some dest" by (auto simp: peer_known_def)
  from pump_requests [OF B s'(2) dest q, of sent] dest show ?thesis by blast
qed

text \<open>
  C4: A hole is asked for. After any run of a receiver with at least one retry, let a media datagram of
  the admitted source arrive whose number is ahead of the expected one by at most 1000, and let
  \<open>q\<close> be one of the numbers in between that was not missing before. Let any turns of the receiver
  follow, with the rest of the burst, other media, control traffic, reports, drains and pumps, as long
  as \<open>q\<close> does not arrive, the media numbers that arrive are less than 4096 from \<open>q\<close> (a ring of the
  scheduler) and the pumps come before the base delay has passed. Then the next pump, which comes
  when it has passed, sends one datagram to the control address of the sender, and the sender
  decodes it as a receiver report and a NACK that names \<open>q\<close>. (The scheduler has had at most four
  million operations, so that its 32-bit counter cannot have wrapped.)
\<close>

theorem hole_is_requested:
  assumes "bytes_crate B"
    and "st = receiver_run B (receiver_init config rs name t0 t1) evs" and "0 < max_nack_retries config"
    and "ev = RtpIn dg src arrived_at parsed_at waiting now"
      "source_allowed src (pinned_source_ip st) (sender_rtp_addr st) (rtp_peer_live st) arrived_at"
      "rtp_header_parse B (take MAX_UDP_RECV dg) = Ok (h, n)"
    and "expected_seq (nack_scheduler st) = Some e" "0 < unat (sequence_number h - e)" "unat (sequence_number h - e) \<le> 1000"
      "q \<in> set (missing_before e (sequence_number h))" "\<not> tracked (nack_scheduler st) q"
    and "st' = receiver_run B st (ev # evs')"
      "\<forall>x \<in> set (tl (rx_sched_ops B st (ev # evs'))). spares q (now + base_delay (nack_scheduler st)) x"
      "length (rx_sched_ops B (receiver_init config rs name t0 t1) (evs @ ev # evs')) \<le> 4000000"
    and "now + base_delay (nack_scheduler st) \<le> now'"
  shows "\<exists>dest datagram rr nack. sender_rtcp_addr st' = Some dest
    \<and> rx_rtcp_sent (receiver_step B st' (PumpTick now' sent)) = rx_rtcp_sent st' @ [(dest, datagram)]
    \<and> compound_parse B datagram = Ok \<lparr>packets = [ReceiverReport rr, Nack nack]\<rparr>
    \<and> q \<in> set (nack_lost_seqs (entries nack))"
  unfolding receiver_step.simps by (rule hole_requested [OF assms])

text \<open>
  A run with a hole: number 5 arrives, then 8 with 9 behind it, a pump comes too early, a report is
  sent, and the pump 20 ms after the jump asks for 7.
\<close>

definition media_datagram :: "u8 \<Rightarrow> bytes" where
  "media_datagram q = [0x80, 33, 0, q, 0, 0, 0, 0, 0, 0, 0, 2, 0x47]"

definition example_jump :: ReceiverEvent where
  "example_jump = RtpIn (media_datagram 8) (SocketV4 1 5000) 5 5 [(media_datagram 9, SocketV4 1 5000, 5)] 6"

abbreviation example_start :: ReceiverState where
  "example_start \<equiv> receiver_init config_default 3 [] 0 0"

abbreviation example_first :: ReceiverEvent where
  "example_first \<equiv> RtpIn (media_datagram 5) (SocketV4 1 5000) 3 3 [] 4"

abbreviation example_wait :: "ReceiverEvent list" where
  "example_wait \<equiv> [PumpTick 10000006 True, RxTick 15000000]"

lemma example_parse:
  "map_option p_seq (parse_rtp be_bytes_api (media_datagram 5) 0 3) = Some 5"
  "map_option p_seq (parse_rtp be_bytes_api (media_datagram 8) 0 5) = Some 8"
  "map_option p_seq (parse_rtp be_bytes_api (media_datagram 9) 0 5) = Some 9"
  by code_simp+

lemma example_ops:
  fixes st :: ReceiverState
  defines "st \<equiv> receiver_run be_bytes_api example_start [example_first]"
  shows "rx_sched_ops be_bytes_api example_start [example_first] = [Received 5 4]"
    and "nack_scheduler st = (nack_scheduler_new 10 20000000 0)\<lparr>expected_seq := Some 6, scan_lo := 5\<rparr>"
    and "source_allowed (SocketV4 1 5000) (pinned_source_ip st) (sender_rtp_addr st) (rtp_peer_live st) 5"
    and "\<exists>rtt. rx_sched_ops be_bytes_api st (example_jump # example_wait) = [Received 8 6, Received 9 6, Pump 10000006 rtt]"
proof -
  have short: "take MAX_UDP_RECV (media_datagram q) = media_datagram q" for q by (simp add: media_datagram_def)
  obtain p where p: "parse_rtp be_bytes_api (media_datagram 5) 0 3 = Some p" "p_seq p = 5" using example_parse(1) by auto
  have init: "source_allowed (SocketV4 1 5000) (pinned_source_ip example_start) (sender_rtp_addr example_start) (rtp_peer_live example_start) 3"
    "rx_epoch example_start = 0" "nack_scheduler example_start = nack_scheduler_new 10 20000000 0" "pinned_source_ip example_start = None"
    by (simp_all add: receiver_init_def Let_def source_allowed_def config_default_def)
  show ops: "rx_sched_ops be_bytes_api example_start [example_first] = [Received 5 4]"
    using p init by (simp add: rtp_batch_def short del: MAX_UDP_RECV_def)
  show "nack_scheduler st = (nack_scheduler_new 10 20000000 0)\<lparr>expected_seq := Some 6, scan_lo := 5\<rparr>"
    using rx_sched_run [of example_start be_bytes_api "[example_first]"] unfolding ops init(3) st_def [symmetric]
    by (simp add: on_packet_received_def nack_scheduler_new_def Let_def)
  have st: "pinned_source_ip st = None" "sender_rtp_addr st = Some (SocketV4 1 5000)" "rx_epoch st = 0"
    using receiver_on_rtp_addrs [OF init(1), of be_bytes_api "media_datagram 5" 3 "[]" 4] init
    unfolding st_def by (simp_all add: receiver_on_rtp_frame)
  then show allowed: "source_allowed (SocketV4 1 5000) (pinned_source_ip st) (sender_rtp_addr st) (rtp_peer_live st) 5"
    by (simp add: source_allowed_def peer_move_allowed_def)
  obtain p8 p9 where b: "parse_rtp be_bytes_api (media_datagram 8) 0 5 = Some p8" "p_seq p8 = 8"
    "parse_rtp be_bytes_api (media_datagram 9) 0 5 = Some p9" "p_seq p9 = 9" using example_parse(2,3) by auto
  have "event_sched_ops be_bytes_api st example_jump = [Received 8 6, Received 9 6]"
    using b allowed st by (simp add: example_jump_def rtp_batch_def short Let_def del: MAX_UDP_RECV_def)
  moreover have "peer_known st" unfolding st_def by (rule peer_known_run) (simp add: peer_known_def receiver_init_def Let_def)
  then have "sender_rtcp_addr (receiver_step be_bytes_api st example_jump) \<noteq> None"
    using peer_known_step [of st be_bytes_api example_jump] rtp_peer_step [of st be_bytes_api example_jump] st(2)
    by (simp add: peer_known_def del: receiver_step.simps)
  ultimately show "\<exists>rtt. rx_sched_ops be_bytes_api st (example_jump # example_wait) = [Received 8 6, Received 9 6, Pump 10000006 rtt]" by auto
qed

lemma example_hole:
  fixes st :: ReceiverState
  defines "st \<equiv> receiver_run be_bytes_api example_start [example_first]"
  obtains h n where "rtp_header_parse be_bytes_api (take MAX_UDP_RECV (media_datagram 8)) = Ok (h, n)"
    "expected_seq (nack_scheduler st) = Some 6" "0 < unat (sequence_number h - 6)" "unat (sequence_number h - 6) \<le> 1000"
    "7 \<in> set (missing_before 6 (sequence_number h))" "\<not> tracked (nack_scheduler st) 7"
    "\<forall>x \<in> set (tl (rx_sched_ops be_bytes_api st (example_jump # example_wait))). spares 7 (6 + base_delay (nack_scheduler st)) x"
    "length (rx_sched_ops be_bytes_api example_start ([example_first] @ example_jump # example_wait)) \<le> 4000000"
    "6 + base_delay (nack_scheduler st) \<le> 20000006"
proof -
  note ops = example_ops [folded st_def]
  obtain rtt where rest: "rx_sched_ops be_bytes_api st (example_jump # example_wait) = [Received 8 6, Received 9 6, Pump 10000006 rtt]"
    using ops(4) by blast
  obtain h n where h: "rtp_header_parse be_bytes_api (take MAX_UDP_RECV (media_datagram 8)) = Ok (h, n)" "sequence_number h = 8"
    by (rule that) (code_simp, code_simp)
  have sched: "base_delay (nack_scheduler st) = 20000000" "\<not> tracked (nack_scheduler st) 7" "expected_seq (nack_scheduler st) = Some 6"
    unfolding ops(2) by (simp_all add: tracked_def nack_scheduler_new_def Let_def)
  have ahead: "0 < unat (sequence_number h - 6)" "unat (sequence_number h - 6) \<le> 1000" "7 \<in> set (missing_before 6 (sequence_number h))"
    unfolding h(2) by (simp_all add: missing_before_def upt_rec)
  have spared: "\<forall>x \<in> set (tl (rx_sched_ops be_bytes_api st (example_jump # example_wait))). spares 7 (6 + base_delay (nack_scheduler st)) x"
    unfolding rest sched(1) by simp
  have size: "length (rx_sched_ops be_bytes_api example_start ([example_first] @ example_jump # example_wait)) \<le> 4000000"
    unfolding rx_sched_ops_append ops(1) st_def [symmetric] rest by simp
  have "6 + base_delay (nack_scheduler st) \<le> 20000006" unfolding sched(1) by simp
  with that [OF h(1) sched(3) ahead sched(2) spared size] show thesis .
qed

theorem hole_is_requested_witness:
  "\<exists>dest datagram rr nack.
     (dest, datagram) \<in> set (rx_rtcp_sent (receiver_run be_bytes_api example_start
       ([example_first] @ (example_jump # example_wait) @ [PumpTick 20000006 True])))
     \<and> compound_parse be_bytes_api datagram = Ok \<lparr>packets = [ReceiverReport rr, Nack nack]\<rparr>
     \<and> 7 \<in> set (nack_lost_seqs (entries nack))"
proof -
  let ?st = "receiver_run be_bytes_api example_start [example_first]"
  obtain h n where h: "rtp_header_parse be_bytes_api (take MAX_UDP_RECV (media_datagram 8)) = Ok (h, n)"
    "expected_seq (nack_scheduler ?st) = Some 6" "0 < unat (sequence_number h - 6)" "unat (sequence_number h - 6) \<le> 1000"
    "7 \<in> set (missing_before 6 (sequence_number h))" "\<not> tracked (nack_scheduler ?st) 7"
    "\<forall>x \<in> set (tl (rx_sched_ops be_bytes_api ?st (example_jump # example_wait))). spares 7 (6 + base_delay (nack_scheduler ?st)) x"
    "length (rx_sched_ops be_bytes_api example_start ([example_first] @ example_jump # example_wait)) \<le> 4000000"
    "6 + base_delay (nack_scheduler ?st) \<le> 20000006" by (rule example_hole)
  have retries: "0 < max_nack_retries config_default" by (simp add: config_default_def)
  let ?st' = "receiver_run be_bytes_api ?st (example_jump # example_wait)"
  obtain dest datagram rr nack where "rx_rtcp_sent (receiver_step be_bytes_api ?st' (PumpTick 20000006 True)) = rx_rtcp_sent ?st' @ [(dest, datagram)]"
    "compound_parse be_bytes_api datagram = Ok \<lparr>packets = [ReceiverReport rr, Nack nack]\<rparr>" "7 \<in> set (nack_lost_seqs (entries nack))"
    using hole_is_requested [OF be.bytes_crate_axioms refl retries example_jump_def example_ops(3) h(1-6) refl h(7-9), of True] by blast
  moreover have "receiver_run be_bytes_api example_start ([example_first] @ (example_jump # example_wait) @ [PumpTick 20000006 True])
      = receiver_step be_bytes_api ?st' (PumpTick 20000006 True)"
    unfolding receiver_run_append by (simp only: receiver_run_simps)
  ultimately show ?thesis by (metis in_set_conv_decomp)
qed

section \<open>Requests are bounded\<close>

lemma count_distinct: "distinct xs \<Longrightarrow> count_list xs q = of_bool (q \<in> set xs)"
  by (induction xs) auto

text \<open>The numbers a control datagram asks for, as a sender decodes it, with repetition.\<close>

fun asks_for :: "RtcpPacket \<Rightarrow> u16 list" where
  "asks_for (Nack nack) = nack_lost_seqs (entries nack)"
| "asks_for (App (RangeNack nack)) = app_lost_seqs nack"
| "asks_for _ = []"

definition asked_in :: "bytes_api \<Rightarrow> datagram \<Rightarrow> u16 list" where
  "asked_in B d = (case compound_parse B (snd d) of Ok c \<Rightarrow> concat (map asks_for (packets c)) | _ \<Rightarrow> [])"

lemma asked_in_typed:
  assumes "bytes_crate B" "well_typed pkts"
  shows "asked_in B (a, compound_serialize B \<lparr>packets = pkts\<rparr>) = concat (map asks_for pkts)"
  by (simp add: asked_in_def well_typed_parse [OF assms])

lemma echo_reply_asks_nothing:
  assumes "bytes_crate B"
  shows "asked_in B (a, echo_reply B src req d) = []"
  unfolding echo_reply_def by (subst asked_in_typed [OF assms]) (simp_all add: well_typed_def rr_wf_def rr_empty_def)

lemma rtcp_packets_ask_nothing:
  assumes "bytes_crate B"
  shows "\<exists>ds. rx_rtcp_sent (receiver_on_packets B a now clock i st pkts) = rx_rtcp_sent st @ ds \<and> (\<forall>d \<in> set ds. asked_in B d = [])"
proof (induction pkts arbitrary: i st)
  case (Cons pkt pkts)
  have "\<exists>ds. rx_rtcp_sent (receiver_on_packet B a now (clock i) st pkt) = rx_rtcp_sent st @ ds \<and> (\<forall>d \<in> set ds. asked_in B d = [])"
    by (auto simp: receiver_on_packet_def Let_def echo_reply_asks_nothing [OF assms] split: RtcpPacket.splits RistApp.splits option.splits)
  with Cons [of "i + 1" "receiver_on_packet B a now (clock i) st pkt"] show ?case by force
qed simp

lemma pump_asks:
  assumes B: "bytes_crate B" and "sched_inv s" "get_pending_nacks s now rtt = (s', pend)"
  shows "count_list (asked_in B (dest, pump_datagram B st now pend)) q = count_list pend q"
proof -
  have pend: "distinct pend" using assms(2,3) full_scan_reports [OF assms(2), of now rtt] by (auto simp: get_pending_nacks_eq split: if_splits)
  let ?nack = "build_bitmask \<lparr>b_sender_ssrc = rx_ssrc st, b_media_ssrc = named_source st\<rparr> pend"
  have "asked_in B (dest, pump_datagram B st now pend) = nack_lost_seqs (entries ?nack)"
    unfolding pump_datagram_def by (subst asked_in_typed [OF B request_typed [OF pending_bounded [OF assms(2,3)]]]) simp
  moreover have "distinct (nack_lost_seqs (entries ?nack))" "set (nack_lost_seqs (entries ?nack)) = set pend"
    using distinct_bitmask_groups [OF pend] set_bitmask_groups [of pend] by (simp_all add: build_bitmask_def)
  ultimately show ?thesis using pend by (simp add: count_distinct)
qed

lemma requests_of_run:
  assumes "st = receiver_init config rs name t0 t1"
  shows "count_list (rx_requests B st evs) q \<le> unat (max_nack_retries config) * count_list (rx_detected B st evs) q"
proof -
  have init: "nack_scheduler st = nack_scheduler_new (max_nack_retries config) MIN_NACK_RETRY_DELAY t0"
    using assms by (simp add: receiver_init_def Let_def)
  obtain s gaps nacks where run: "sched_run (nack_scheduler st) (rx_sched_ops B st evs) = (s, gaps, nacks)"
    by (metis prod_cases3)
  with nack_requests_bounded [of "max_nack_retries config" MIN_NACK_RETRY_DELAY t0 "rx_sched_ops B st evs" s gaps nacks q]
    rx_sched_run [of st B evs] show ?thesis by (simp add: init run rx_detected_def)
qed

lemma step_asks:
  assumes B: "bytes_crate B" and ok: "receiver_control_ok B name st" "name_ok name"
  shows "\<exists>ds. rx_rtcp_sent (receiver_step B st ev) = rx_rtcp_sent st @ ds
    \<and> count_list (concat (map (asked_in B) ds)) q = count_list (requested_by st ev) q"
proof (cases ev)
  case (RtpIn dg a t1 t2 w now)
  then show ?thesis by (simp add: receiver_on_rtp_frame)
next
  case (RtcpIn dg a now clock)
  have "\<exists>ds. rx_rtcp_sent (receiver_on_rtcp B clock st dg a now) = rx_rtcp_sent st @ ds \<and> (\<forall>d \<in> set ds. asked_in B d = [])"
    using rtcp_packets_ask_nothing [OF B, of a now clock 0 "st\<lparr>sender_rtcp_addr := Some a, rx_rtcp_peer_live := Some now\<rparr>"]
      rtcp_packets_ask_nothing [OF B, of a now clock 0 "st\<lparr>rx_rtcp_peer_live := Some now\<rparr>"]
    by (auto simp: receiver_on_rtcp_def Let_def split: res.splits)
  then obtain ds where ds: "rx_rtcp_sent (receiver_on_rtcp B clock st dg a now) = rx_rtcp_sent st @ ds" "\<forall>d \<in> set ds. asked_in B d = []" by blast
  then have "concat (map (asked_in B) ds) = []" by simp
  with RtcpIn ds(1) show ?thesis by auto
next
  case (PumpTick now sent)
  obtain s' pend where p: "get_pending_nacks (nack_scheduler st) now (srtt (rx_rtt_estimator st)) = (s', pend)" by fastforce
  have inv: "sched_inv (nack_scheduler st)" using ok(1) by (simp add: receiver_control_ok_def)
  show ?thesis
  proof (cases "sender_rtcp_addr st = None \<or> pend = []")
    case True
    with PumpTick p show ?thesis by (auto simp: receiver_on_pump_def)
  next
    case False
    then obtain dest where "sender_rtcp_addr st = Some dest" "pend \<noteq> []" by auto
    with PumpTick p pump_sends [OF this(1) p this(2), of B sent] pump_asks [OF B inv p, of dest st q] show ?thesis by simp
  qed
next
  case (RxTick now)
  have name: "r_cname (rx_rtcp_state st) = name" using ok(1) by (simp add: receiver_control_ok_def)
  have "\<exists>ds. rx_rtcp_sent (receiver_on_tick B st now) = rx_rtcp_sent st @ ds \<and> concat (map (asked_in B) ds) = []"
    using receiver_report_typed [OF ok(2)]
    by (auto simp: receiver_on_tick_def receiver_generate_sdes_def Let_def split_beta r_cname_kept name asked_in_typed [OF B]
        split: option.splits)
  with RxTick show ?thesis by auto
next
  case (DrainTurn okc now c now2)
  then show ?thesis by (simp add: drain_addrs_kept)
qed

lemma run_asks:
  assumes B: "bytes_crate B" and ok: "receiver_control_ok B name st" "name_ok name"
  shows "\<exists>ds. rx_rtcp_sent (receiver_run B st evs) = rx_rtcp_sent st @ ds
    \<and> count_list (concat (map (asked_in B) ds)) q = count_list (rx_requests B st evs) q"
  using ok(1)
proof (induction evs arbitrary: st)
  case (Cons ev evs)
  obtain ds where "rx_rtcp_sent (receiver_step B st ev) = rx_rtcp_sent st @ ds"
    "count_list (concat (map (asked_in B) ds)) q = count_list (requested_by st ev) q" using step_asks [OF B Cons.prems ok(2)] by blast
  moreover obtain ds' where "rx_rtcp_sent (receiver_run B (receiver_step B st ev) evs) = rx_rtcp_sent (receiver_step B st ev) @ ds'"
    "count_list (concat (map (asked_in B) ds')) q = count_list (rx_requests B (receiver_step B st ev) evs) q"
    using Cons.IH [OF receiver_control_step [OF Cons.prems ok(2)]] by blast
  ultimately show ?case by (intro exI [of _ "ds @ ds'"]) simp
qed simp

text \<open>
  C24: The receiver does not flood the sender. Over any run of a receiver whose name fits the source
  description, whatever arrives from whom and whenever the timers fire, take all RTCP datagrams it
  has sent, decode them as the sender does, and count how often their NACKs name a number, also
  within one datagram: it is at most \<open>max_nack_retries\<close> for each time the scheduler detected the
  number as newly missing. In particular a number that was never detected is never asked for.
\<close>

theorem receiver_requests_bounded:
  assumes "bytes_crate B" and "name_ok (case cfg_cname config of Some c \<Rightarrow> c | None \<Rightarrow> name)"
    and "st = receiver_run B (receiver_init config rs name t0 t1) evs"
  shows "count_list (concat (map (asked_in B) (rx_rtcp_sent st))) q
    \<le> unat (max_nack_retries config) * count_list (rx_detected B (receiver_init config rs name t0 t1) evs) q"
proof -
  let ?init = "receiver_init config rs name t0 t1"
  have "receiver_control_ok B (case cfg_cname config of Some c \<Rightarrow> c | None \<Rightarrow> name) ?init" "rx_rtcp_sent ?init = []"
    by (simp_all add: receiver_control_ok_def receiver_init_def receiver_state_new_def control_log_ok_def Let_def)
  then have "count_list (concat (map (asked_in B) (rx_rtcp_sent st))) q = count_list (rx_requests B ?init evs) q"
    using run_asks [OF assms(1) _ assms(2), of ?init evs q] assms(3) by auto
  then show ?thesis using requests_of_run [of ?init] by simp
qed

text \<open>The run with a hole asks for number 7 at least once, and at most ten times for each detection.\<close>

theorem receiver_requests_bounded_witness:
  "\<exists>evs n. n = count_list (concat (map (asked_in be_bytes_api) (rx_rtcp_sent (receiver_run be_bytes_api example_start evs)))) 7
     \<and> 1 \<le> n \<and> n \<le> 10 * count_list (rx_detected be_bytes_api example_start evs) 7"
proof -
  let ?evs = "[example_first] @ (example_jump # example_wait) @ [PumpTick 20000006 True]"
  let ?st = "receiver_run be_bytes_api example_start [example_first]"
  let ?st' = "receiver_run be_bytes_api ?st (example_jump # example_wait)" and ?st'' = "receiver_run be_bytes_api example_start ?evs"
  have name: "name_ok (case cfg_cname config_default of Some c \<Rightarrow> c | None \<Rightarrow> [])"
    using utf8_valid_ascii [of "[]"] by (simp add: name_ok_def config_default_def)
  have retries: "0 < max_nack_retries config_default" "unat (max_nack_retries config_default) = 10" by (simp_all add: config_default_def)
  obtain h n where h: "rtp_header_parse be_bytes_api (take MAX_UDP_RECV (media_datagram 8)) = Ok (h, n)"
    "expected_seq (nack_scheduler ?st) = Some 6" "0 < unat (sequence_number h - 6)" "unat (sequence_number h - 6) \<le> 1000"
    "7 \<in> set (missing_before 6 (sequence_number h))" "\<not> tracked (nack_scheduler ?st) 7"
    "\<forall>x \<in> set (tl (rx_sched_ops be_bytes_api ?st (example_jump # example_wait))). spares 7 (6 + base_delay (nack_scheduler ?st)) x"
    "length (rx_sched_ops be_bytes_api example_start ([example_first] @ example_jump # example_wait)) \<le> 4000000"
    "6 + base_delay (nack_scheduler ?st) \<le> 20000006" by (rule example_hole)
  obtain dest datagram rr nack where d: "rx_rtcp_sent (receiver_on_pump be_bytes_api True ?st' 20000006) = rx_rtcp_sent ?st' @ [(dest, datagram)]"
    "compound_parse be_bytes_api datagram = Ok \<lparr>packets = [ReceiverReport rr, Nack nack]\<rparr>" "7 \<in> set (nack_lost_seqs (entries nack))"
    using hole_requested [OF be.bytes_crate_axioms refl retries(1) example_jump_def example_ops(3) h(1-6) refl h(7-9), of True] by blast
  have "?st'' = receiver_on_pump be_bytes_api True ?st' 20000006"
    unfolding receiver_run_append by (simp only: receiver_run_simps receiver_step.simps)
  then have "(dest, datagram) \<in> set (rx_rtcp_sent ?st'')" using d(1) by simp
  moreover have "7 \<in> set (asked_in be_bytes_api (dest, datagram))" using d(2,3) by (simp add: asked_in_def)
  ultimately have "count_list (concat (map (asked_in be_bytes_api) (rx_rtcp_sent ?st''))) 7 \<noteq> 0"
    unfolding count_list_0_iff by (auto simp del: receiver_run_simps)
  then have "1 \<le> count_list (concat (map (asked_in be_bytes_api) (rx_rtcp_sent ?st''))) 7" by linarith
  with receiver_requests_bounded [OF be.bytes_crate_axioms name refl, of 3 0 0 ?evs 7] retries(2) show ?thesis
    by (intro exI [of _ ?evs]) (simp del: receiver_run_simps)
qed

end
