(* ===== verification/Spec2Isabelle.thy ===== *)
theory Spec2Isabelle
  imports Rist_Profile Rist_Network Rist_Recovery
begin

text \<open>
  A verification library for bilbycast-rist, an implementation of the RIST Simple Profile
  (VSF TR-06-1) in Rust: reliable transport of MPEG transport streams over RTP, with lost packets
  requested by RTCP NACKs and sent again.

  \<^bold>\<open>The program.\<close> \<open>rist-protocol\<close> holds the wire formats (\<open>packet/\<close>) and the protocol state (\<open>protocol/\<close>),
  with no input or output. \<open>rist-transport\<close> runs them: a sender task (\<open>sender.rs\<close>) numbers and sends
  what the application hands over, keeps it in a ring and serves NACKs from it; a receiver task
  (\<open>receiver.rs\<close>) reads media and RTCP, feeds a reorder buffer, a NACK scheduler, report state and an
  RTT estimator, and sends requests and reports on timers; a delivery thread drains the reorder
  buffer when packets have been held for the buffer time. \<open>guard.rs\<close> decides which sources the two
  tasks listen to and how much work one datagram may cause.

  \<^bold>\<open>The theories.\<close>
  \<^item> \<open>Rist_Prelude\<close>: word types, results with errors and panics, big-endian conversions, the contract
    of the buffer crate as the locale \<open>bytes_crate\<close> (interpreted on a concrete big-endian
    implementation), arithmetic of power-of-two rings indexed by a 16-bit number.
  \<^item> \<open>Rist_Seq\<close>: \<open>seq.rs\<close>, \<open>rtp_ext.rs\<close>. Wrap-around comparison is the order of transmission within half
    the number space; the \<open>Ord\<close> instance is its reverse.
  \<^item> \<open>Rist_Rtp\<close>, \<open>Rist_Reports\<close>, \<open>Rist_Sdes\<close>, \<open>Rist_Nack\<close>, \<open>Rist_App\<close>, \<open>Rist_Compound\<close>: \<open>rtp.rs\<close> and \<open>rtcp*.rs\<close>.
    Each parser with every error branch and every possible panic, each serialiser, the NACK
    builders. Parsing never panics, is bounded and does what the length fields and types of the
    datagram say; round trips; the builders name exactly the lost numbers. The locale \<open>rtcp_codec\<close> is the interface of a sub-packet format, interpreted for
    the five formats, from which the compound round trip follows.
  \<^item> \<open>Rist_Retransmit\<close>, \<open>Rist_Nack_Scheduler\<close>: \<open>nack_tracker.rs\<close>. The ring of sent packets is a
    \<open>packet_store\<close> (locale): a lookup is never the wrong packet and the last \<open>capacity\<close> packets are
    found. The scheduler tracks exactly the missing numbers, a pump returns exactly those that are
    due, its early return hides nothing, and requests are bounded by detections.
  \<^item> \<open>Rist_Bonding\<close>: \<open>bonding.rs\<close>. The merger emits exactly the first copies within its window.
  \<^item> \<open>Rist_Reorder\<close>: \<open>reorder.rs\<close>. The ring refines a queue of packets and gaps (locale
    \<open>jitter_buffer\<close>, interpreted on the ring); in-order delivery, no accepted packet lost while later
    numbers keep arriving, hold times, and the two places where the code departs from its intent.
  \<^item> \<open>Rist_Rtt\<close>, \<open>Rist_F64\<close>, \<open>Rist_Rtcp_State\<close>: \<open>rtt.rs\<close>, \<open>rtcp_state.rs\<close>. The estimate stays within the
    samples; loss accounting across the wrap-around; the 90 kHz clock. Binary64 arithmetic is exact
    rational arithmetic rounded to nearest even, without overflow or subnormal numbers, which the
    values here do not reach.
  \<^item> \<open>Rist_Guard\<close>, \<open>Rist_Channel\<close>, \<open>Rist_Config\<close>: \<open>guard.rs\<close>, \<open>channel.rs\<close>, \<open>config.rs\<close>, \<open>stats.rs\<close>. A bound
    channel is an even port and its successor, port 0 apart; the operating system is a parameter,
    with \<open>names_bound_address\<close> as what is relied on of it.
  \<^item> \<open>Rist_Sender\<close>: \<open>sender.rs\<close>. \<open>SenderState\<close> holds the variables of \<open>sender_loop\<close>, one handler per arm of
    its \<open>select!\<close>: \<open>sender_on_media\<close>, \<open>sender_on_rtcp\<close>, \<open>sender_on_tick\<close>; \<open>sender_step\<close> is one turn,
    \<open>sender_reach\<close> the reachable states. Bounded amplification, what goes on the wire, the peer
    hold-down, requests for recent packets are answered.
  \<^item> \<open>Rist_Receiver\<close>: \<open>receiver.rs\<close>. \<open>ReceiverState\<close>, the handlers of the arms and \<open>drain_iteration\<close> of the
    delivery thread; \<open>receiver_step\<close> interleaves them. Other hosts are ignored when a sender is
    configured; the drains release one item for each number in order (\<open>released\<close>), and the application
    gets them at increasing places of that list.
  \<^item> \<open>Rist_Profile\<close>: the data types and defaults of the protocol crate's \<open>config.rs\<close> and \<open>stats.rs\<close>, of
    \<open>stats_poller.rs\<close> and \<open>bonding_task.rs\<close>, and of the Main Profile (\<open>gre/\<close>, \<open>crypto/\<close>, \<open>tunnel.rs\<close>,
    \<open>null_delete.rs\<close>, \<open>tunnel_task.rs\<close>, \<open>dtls_channel.rs\<close>), which have no operations yet.
  \<^item> \<open>Rist_Accounting\<close>: every packet read is counted as duplicate, dropped, delivered or buffered.
  \<^item> \<open>Rist_Session\<close>: a live session is undisturbed by other hosts, the thread wakes on time; a run of
    the receiver read as a run of its scheduler.
  \<^item> \<open>Rist_Steps\<close>, \<open>Rist_Threads\<close>: the receive task and the delivery thread of \<open>receiver.rs\<close> as threads.
    \<open>Rist_Steps\<close> holds the locales \<open>step_invariant\<close> and \<open>step_measure\<close> of the step relations;
    \<open>thread_step\<close> has a rule for every acquisition of the mutex, wait, notification, forwarded packet
    and for the shutdown. The threads refine the turn-by-turn model; no wake-up for a packet is
    lost; the shutdown ends, except in one window in which it may hang.
  \<^item> \<open>Rist_Socket\<close>: \<open>socket.rs\<close>, \<open>listener.rs\<close> and the channels of the two handles. What \<open>send\<close> accepts goes
    on the wire once and in order. Towards the application \<open>receiver_use\<close> adds the channel to the threads:
    forwarding is \<open>try_send\<close> into it, and what \<open>recv\<close> has returned and the channel holds is what the drains
    released, in order, less what a full or dropped channel refused.
  \<^item> \<open>Rist_Control\<close>: every RTCP datagram either task sends decodes to well-formed packets, a report first.
  \<^item> \<open>Rist_Recovery\<close>: from a hole in the stream to the request. A packet that jumps ahead makes the
    scheduler track what it skipped, earlier pumps and other arrivals leave it tracked, and the first
    pump once the base delay has passed names each of the skipped numbers in a NACK to the sender. All
    the datagrams of a run, decoded as the sender does, ask for a number at most \<open>max_nack_retries\<close>
    times for each detection.
  \<^item> \<open>Rist_Arq\<close> and this theory: the retransmission cycle through both tasks.
  \<^item> \<open>Rist_Transport\<close>: the stream from end to end. Packets have unbounded positions, of which the wire
    carries 16 bits; near what it has released the receiver's ring behaves as a buffer of positions
    that starts at the first packet to arrive. Whatever is lost, the application gets packets of the
    stream in order and none twice; it gets all of them from the first one on when each arrives, as
    original or copy, before a drain finds the hold time passed since a later one.
  \<^item> \<open>Rist_Contents\<close>, \<open>Rist_Network\<close>: both tasks with a network between them, as the step relation
    \<open>net_step\<close> in which datagrams of the sender are lost, repeated, delayed and reordered and other hosts
    send anything. The reorder buffer holds only what was inserted, so a receiver configured with
    the sender's address hands over only what the sender's application gave to it.

  \<^bold>\<open>Modelling.\<close> Machine integers are words and wrap as release builds do (debug builds panic on
  overflow instead). Clock readings, random draws, the success of a send and of a channel
  operation are arguments of the handlers; instants and durations are natural numbers of
  nanoseconds, and subtracting a later instant gives zero as \<open>duration_since\<close> does. What a task sends
  is appended to a log in its state. A handler runs without interruption: a task awaits nothing
  between reading and writing its own variables but sends on its sockets, and the only state
  shared with the delivery thread is the reorder buffer, changed under its mutex, and counters,
  changed by atomic additions; \<open>Rist_Threads\<close> proves that this is enough. There the waits have no
  clock: a timed wait may end at any time, and whether a wait without a deadline may end by itself
  is a parameter.
  Functions are total; loops over a ring or a list are structural, the others have a measure:
  the unread input (NACK builders), the sub-packets left (compound parser), the distance to the
  highest number (drain). No fuel is used.

  \<^bold>\<open>Bounds.\<close> Statements about the reorder buffer are for rings of up to 16384 slots (the receiver
  uses 8192); those about a run of it suppose that no packet lies more than a ring ahead of the
  base, and the flush in the other case is covered by the refinement theorem. The retransmission
  cycle supposes at most 500 requests in a pump, so that the NACK fits the 2048 bytes the sender
  reads; \<open>Rist_Arq\<close> shows that a longer one is lost whole. The stream from end to end supposes that a
  packet arrives at most 32768 positions behind and less than 8192 ahead of what has been released:
  beyond, a 16-bit number is taken for that of another packet; the statement about the network has
  no such bound. A payload of more than 2036 bytes reaches the other side cut, which that statement
  shows. Statements about the pump suppose at most four million operations on the scheduler before,
  so that its 32-bit counter of active slots, which the code may leave too high, has not wrapped; the
  request for a hole also that it is at most 1000 numbers long, beyond which the code takes the jump
  for a restart, and that the media arriving meanwhile is less than the 4096 slots of the scheduler
  away. Names are at most 255 bytes long in the statements about control traffic and about the
  requests of a run, as the format of the source description requires.

  \<^bold>\<open>Not modelled.\<close> The task runtime, the operating system's sockets behind the calls of \<open>channel.rs\<close>, and
  logging; the poisoning of the mutex, which the code ignores; the formatting of values for
  logs; the examples and the tests. Also left out is a
  failure of \<open>local_addr\<close> on a bound socket before the loops start: both tasks unwrap it for the default
  name, and \<open>receiver_loop\<close> returns it as an error when it logs the two addresses.
\<close>

section \<open>The retransmission cycle\<close>

text \<open>
  C3: A lost packet is recovered. Take any run of a sender and a packet \<open>i\<close> among the last
  \<open>next_power_of_two(capacity)\<close> it sent, and a receiver that knows the sender and has that packet's
  number among at most 500 due requests. Then the receiver's pump sends one datagram to its
  control peer; the sender, when that datagram reaches it from a source it listens to, sends out
  a copy of the packet to the media destination; and when that copy reaches the receiver while
  the number is still a gap of its window, the gap holds the payload the application handed to
  the sender.
\<close>

theorem lost_packet_is_recovered:
  assumes B: "bytes_crate B"
    and st: "st = sender_run B send_ok (sender_init config remote rs rq name epoch wall) evs"
    and recent: "i < length (media_of evs)" "length (media_of evs) - i \<le> next_power_of_two (retransmit_buffer_capacity config)"
      "length (media_of evs) - i \<le> 65536"
    and due: "sender_rtcp_addr r = Some dest"
      "get_pending_nacks (nack_scheduler r) now (srtt (rx_rtt_estimator r)) = (sched, pend)"
      "rq + of_nat i \<in> set pend" "length pend \<le> 500"
    and known: "nack_targets_us (named_source r) (ssrc st)"
      "peer_move_allowed from (remote_rtcp_addr st) (rtcp_peer_live st) t"
    and gap: "reorder_inv (reorder r')" "queue_of (reorder r') = Some (b, es)" "k = unat (rq + of_nat i - b)"
      "k < length es" "k < capacity (reorder r')" "es ! k = Gap g"
    and arrives: "source_allowed src (pinned_source_ip r') (sender_rtp_addr r') (rtp_peer_live r') t1"
      "12 + length (media_of evs ! i) \<le> MAX_UDP_RECV"
  shows "\<exists>nack copy. rx_rtcp_sent (receiver_on_pump B sent r now) = rx_rtcp_sent r @ [(dest, nack)]
    \<and> (remote, copy) \<in> set (drop (length (rtp_sent st)) (rtp_sent (sender_on_rtcp B send_ok clock st nack from t)))
    \<and> queue_of (reorder (receiver_on_rtp B r' copy src t1 t2 [] now')) = Some (b, es[k := Filled (media_of evs ! i) now'])"
proof -
  let ?nack = "build_bitmask \<lparr>b_sender_ssrc = rx_ssrc r, b_media_ssrc = named_source r\<rparr> pend"
  let ?dg = "pump_datagram B r now pend"
  have "rx_rtcp_sent (receiver_on_pump B sent r now) = rx_rtcp_sent r @ [(dest, ?dg)]"
    using due by (intro pump_sends) auto
  moreover have named: "set (nack_lost_seqs (entries ?nack)) = set pend" "length (nack_lost_seqs (entries ?nack)) \<le> 512"
    using set_bitmask_groups [of pend] length_bitmask_named [of pend] due(4) by (simp_all add: build_bitmask_def)
  have wf: "nack_wf ?nack"
    using length_bitmask_groups [of pend] due(4) by (simp add: nack_wf_def build_bitmask_def)
  have target: "nack_targets_us (nack_media_ssrc ?nack) (ssrc st)" using known(1) by (simp add: build_bitmask_def)
  have asked: "rq + of_nat i \<in> set (nack_lost_seqs (entries ?nack))" using named(1) due(3) by simp
  have "length ?dg \<le> 2048" using length_pump_datagram [OF B, of r now pend] due(4) by simp
  then obtain ts where copy: "(remote, wire B (ssrc st OR 1) (rq + of_nat i) ts (media_of evs ! i))
      \<in> set (drop (length (rtp_sent st)) (rtp_sent (sender_on_rtcp B send_ok clock st ?dg from t)))"
    using recent_packet_goes_out [OF B st recent known(2) conjunct1 [OF generate_rr_wf] wf target asked named(2)
        pump_datagram_def, where clock = clock] by blast
  moreover have "queue_of (reorder (receiver_on_rtp B r' (wire B (ssrc st OR 1) (rq + of_nat i) ts (media_of evs ! i)) src t1 t2 [] now'))
      = Some (b, es[k := Filled (media_of evs ! i) now'])"
  proof -
    have "length (wire B (ssrc st OR 1) (rq + of_nat i) ts (media_of evs ! i)) \<le> MAX_UDP_RECV"
      using arrives(2) by (simp add: bytes_crate.wire_eq [OF B] bytes_crate.length_rtp_header_serialize [OF B])
    then show ?thesis
      using insert_fills_gap [OF gap(1,2,4,6) gap(3) [symmetric] gap(5), of "media_of evs ! i" now']
        receive_wire [OF B _ arrives(1)] by (metis prod.collapse)
  qed
  ultimately show ?thesis by blast
qed

text \<open>
  A concrete cycle: the sender of the example has sent number 9, the receiver has a request for 9
  due (a ring of one slot), and its buffer holds 8 and 10.
\<close>

definition example_rx :: ReceiverState where
  "example_rx = (receiver_init config_default 3 [] 0 0)
     \<lparr>sender_rtcp_addr := Some (SocketV4 1 5001),
      nack_scheduler := \<lparr>nslots = [\<lparr>nslot_seq = 9, active = True, next_nack_at = 0, nack_count = 0\<rparr>],
        ncapacity = 1, max_retries = 10, base_delay = 5, expected_seq = Some 11, scan_lo = 8, active_count = 1\<rparr>,
      reorder := fst (reorder_run (with_capacity 50 64) [Ins 8 [1] 0, Ins 10 [3] 5])\<rparr>"

theorem lost_packet_is_recovered_witness:
  "\<exists>nack copy. rx_rtcp_sent (receiver_on_pump be_bytes_api True example_rx 7)
      = rx_rtcp_sent example_rx @ [(SocketV4 1 5001, nack)]
    \<and> (SocketV4 1 5000, copy) \<in> set (drop (length (rtp_sent example_sender))
         (rtp_sent (sender_on_rtcp be_bytes_api (\<lambda>_. True) (\<lambda>_. 8) example_sender nack (SocketV4 1 5001) 8)))
    \<and> queue_of (reorder (receiver_on_rtp be_bytes_api example_rx copy (SocketV4 1 5000) 9 9 [] 9))
       = Some (8, [Filled [1] 0, Filled [0x47] 9, Filled [3] 5])"
proof -
  have media: "media_of [Media [0x47] 5] = [[0x47]]" using media_of_snoc(2) [of "[]" "[0x47]" 5] by simp
  define rb where "rb = fst (reorder_run (with_capacity 50 64) [Ins 8 [1] 0, Ins 10 [3] 5])"
  have q: "queue_of rb = Some (8, [Filled [1] 0, Gap 5, Filled [3] 5])" "capacity rb = 64"
    unfolding rb_def by code_simp+
  have fits: "run_fits (with_capacity 50 64) [Ins 8 [1] 0, Ins 10 [3] 5]" by code_simp
  have inv: "reorder_inv rb"
    using new_run_log [OF _ fits, of "fst (reorder_run (with_capacity 50 64) [Ins 8 [1] 0, Ins 10 [3] 5])"
        "snd (reorder_run (with_capacity 50 64) [Ins 8 [1] 0, Ins 10 [3] 5])"] by (simp add: rb_def)
  have rx: "reorder example_rx = rb" "sender_rtcp_addr example_rx = Some (SocketV4 1 5001)"
    "pinned_source_ip example_rx = None" "sender_rtp_addr example_rx = None" "named_source example_rx = 0"
    by (simp_all add: example_rx_def rb_def receiver_init_def Let_def config_default_def named_source_def receiver_state_new_def)
  obtain sched where pend: "get_pending_nacks (nack_scheduler example_rx) 7 (srtt (rx_rtt_estimator example_rx)) = (sched, [9])"
    by (simp add: example_rx_def get_pending_nacks_def Let_def)
  have peer: "peer_move_allowed (SocketV4 1 5001) (remote_rtcp_addr example_sender) (rtcp_peer_live example_sender) 8"
    by (simp add: example_sender_def sender_run_def sender_on_media_sends [OF be.bytes_crate_axioms]
        sender_init_def Let_def peer_move_allowed_def rtcp_addr_for_def)
  have cap: "1 \<le> next_power_of_two (retransmit_buffer_capacity config_default)"
    using next_power_of_two_pos by (simp add: Suc_le_eq)
  show ?thesis
    using lost_packet_is_recovered [OF be.bytes_crate_axioms example_sender_def, where i = 0 and r = example_rx
        and r' = example_rx and b = 8 and es = "[Filled [1] 0, Gap 5, Filled [3] 5]" and k = 1 and g = 5 and now = 7
        and pend = "[9]" and ?from = "SocketV4 1 5001" and t = 8 and src = "SocketV4 1 5000" and sent = True
        and clock = "\<lambda>_. 8" and ?t1.0 = 9 and ?t2.0 = 9 and now' = 9]
      inv q rx pend peer cap
    by (simp add: media nack_targets_us_def source_allowed_def)
qed

end
